theory Spec2Isabelle
  imports Main "HOL-Library.Multiset" "HOL-Library.Code_Target_Nat"
begin

section \<open>The backing sequence and its failure modes\<close>

text \<open>
  Both containers of \<^verbatim>\<open>dsa-lib\<close> keep their elements in one \<^verbatim>\<open>std::vector\<close>, the
  member \<^verbatim>\<open>_data\<close>, and order them by the member \<^verbatim>\<open>_comp\<close>. The vector is a list, the
  comparator a parameter \<open>lt\<close> of every function. Two things can go wrong in the source and
  both are values here: an \<^verbatim>\<open>assert\<close> that fails ends the process, and an index outside the
  vector is undefined behaviour of \<^verbatim>\<open>operator[]\<close>, \<^verbatim>\<open>back()\<close> and \<^verbatim>\<open>pop_back()\<close>.

  The \<^verbatim>\<open>assert\<close> is the macro of \<^verbatim>\<open><cassert>\<close>. The functions named after the source are
  the build in which \<^verbatim>\<open>NDEBUG\<close> is not defined and every \<^verbatim>\<open>assert\<close> is checked. The build
  with \<^verbatim>\<open>NDEBUG\<close> defined, in which an \<^verbatim>\<open>assert\<close> is no statement at all, has a section of
  its own below, with the suffix \<open>_ndebug\<close>.
\<close>

datatype error = AssertionFailed | OutOfBounds

definition bnd :: "error + 'a \<Rightarrow> ('a \<Rightarrow> error + 'b) \<Rightarrow> error + 'b" where
  "bnd m f = (case m of Inl e \<Rightarrow> Inl e | Inr x \<Rightarrow> f x)"

lemma bnd_cong [fundef_cong]:
  "m = m' \<Longrightarrow> (\<And>x. m' = Inr x \<Longrightarrow> f x = g x) \<Longrightarrow> bnd m f = bnd m' g"
  by (cases m') (simp_all add: bnd_def)

text \<open>\<^verbatim>\<open>assert(b)\<close> with \<^verbatim>\<open>NDEBUG\<close> not defined.\<close>

definition assert_that :: "bool \<Rightarrow> error + unit" where
  "assert_that b = (if b then Inr () else Inl AssertionFailed)"

text \<open>\<^verbatim>\<open>_data[i]\<close> read, \<^verbatim>\<open>_data[i] = v\<close>, \<^verbatim>\<open>std::swap(_data[i], _data[j])\<close> and
  \<^verbatim>\<open>_comp(_data[i], _data[j])\<close>, each checked against the current length.\<close>

definition rd :: "'a list \<Rightarrow> nat \<Rightarrow> error + 'a" where
  "rd d i = (if i < length d then Inr (d ! i) else Inl OutOfBounds)"

definition wr :: "'a list \<Rightarrow> nat \<Rightarrow> 'a \<Rightarrow> error + 'a list" where
  "wr d i v = (if i < length d then Inr (d[i := v]) else Inl OutOfBounds)"

definition sw :: "'a list \<Rightarrow> nat \<Rightarrow> nat \<Rightarrow> error + 'a list" where
  "sw d i j = (if i < length d \<and> j < length d then Inr (d[i := d ! j, j := d ! i])
               else Inl OutOfBounds)"

definition cmp :: "('a \<Rightarrow> 'a \<Rightarrow> bool) \<Rightarrow> 'a list \<Rightarrow> nat \<Rightarrow> nat \<Rightarrow> error + bool" where
  "cmp lt d i j = bnd (rd d i) (\<lambda>a. bnd (rd d j) (\<lambda>b. Inr (lt a b)))"

definition push_back :: "'a list \<Rightarrow> 'a \<Rightarrow> 'a list" where
  "push_back d x = d @ [x]"

definition vec_back :: "'a list \<Rightarrow> error + 'a" where
  "vec_back d = (if d = [] then Inl OutOfBounds else Inr (last d))"

definition pop_back :: "'a list \<Rightarrow> error + 'a list" where
  "pop_back d = (if d = [] then Inl OutOfBounds else Inr (butlast d))"

text \<open>
  Indices are \<^verbatim>\<open>size_t\<close>, taken as 64 bits wide. A subtraction of two of them wraps
  around below zero, which is what \<^verbatim>\<open>get_parent\<close> does at the root. Sums and products of
  indices are left unbounded: they stay below \<open>2 * size + 4\<close> and a vector holds fewer than
  \<open>2 ^ 63\<close> elements.
\<close>

definition usub :: "nat \<Rightarrow> nat \<Rightarrow> nat" where
  "usub a b = (if b \<le> a then a - b else a + 2 ^ 64 - b)"

abbreviation ROOT :: nat where
  "ROOT \<equiv> 0"

section \<open>BinaryHeap\<close>

definition bh_get_parent :: "nat \<Rightarrow> nat" where
  "bh_get_parent idx = usub idx 1 div 2"

definition bh_get_left :: "nat \<Rightarrow> nat" where
  "bh_get_left idx = 2 * idx + 1"

definition bh_empty :: "'a list \<Rightarrow> bool" where
  "bh_empty d = (d = [])"

definition bh_size :: "'a list \<Rightarrow> nat" where
  "bh_size d = length d"

definition bh_top :: "'a list \<Rightarrow> error + 'a" where
  "bh_top d = bnd (assert_that (\<not> bh_empty d)) (\<lambda>_. rd d ROOT)"

definition bh_min :: "'a list \<Rightarrow> error + 'a" where
  "bh_min d = bh_top d"

text \<open>The \<^verbatim>\<open>while\<close> loop of \<^verbatim>\<open>bubble_up\<close>; \<open>par\<close> is computed before the guard
  \<^verbatim>\<open>idx > ROOT\<close> is looked at, as in the source, and read only behind it.\<close>

function bh_bubble_up_loop ::
  "('a \<Rightarrow> 'a \<Rightarrow> bool) \<Rightarrow> 'a \<Rightarrow> nat \<Rightarrow> 'a list \<Rightarrow> error + (nat \<times> 'a list)" where
  "bh_bubble_up_loop lt cur idx d =
     (let par = bh_get_parent idx in
      if idx > ROOT then
        bnd (rd d par) (\<lambda>p.
          if lt cur p then bnd (wr d idx p) (\<lambda>d1. bh_bubble_up_loop lt cur par d1)
          else Inr (idx, d))
      else Inr (idx, d))"
  by pat_completeness auto
termination
  by (relation "measure (\<lambda>(lt, cur, idx, d). idx)")
     (auto simp: bh_get_parent_def usub_def)

definition bh_bubble_up :: "('a \<Rightarrow> 'a \<Rightarrow> bool) \<Rightarrow> nat \<Rightarrow> 'a list \<Rightarrow> error + 'a list" where
  "bh_bubble_up lt idx d =
     bnd (assert_that (idx \<ge> ROOT \<and> idx < length d)) (\<lambda>_.
     bnd (rd d idx) (\<lambda>cur.
     bnd (bh_bubble_up_loop lt cur idx d) (\<lambda>(idx', d1).
     wr d1 idx' cur)))"

text \<open>The statement
  \<^verbatim>\<open>if (child + 1 < n && _comp(_data[child + 1], _data[child])) child++;\<close>
  shared by \<^verbatim>\<open>bubble_down\<close> and \<^verbatim>\<open>move_hole_down\<close>.\<close>

definition bh_smaller_child ::
  "('a \<Rightarrow> 'a \<Rightarrow> bool) \<Rightarrow> nat \<Rightarrow> nat \<Rightarrow> 'a list \<Rightarrow> error + nat" where
  "bh_smaller_child lt n child d =
     (if child + 1 < n
      then bnd (cmp lt d (child + 1) child) (\<lambda>b. Inr (if b then child + 1 else child))
      else Inr child)"

function bh_bubble_down_loop ::
  "('a \<Rightarrow> 'a \<Rightarrow> bool) \<Rightarrow> nat \<Rightarrow> 'a \<Rightarrow> nat \<Rightarrow> 'a list \<Rightarrow> error + (nat \<times> 'a list)" where
  "bh_bubble_down_loop lt n cur idx d =
     (let child = bh_get_left idx in
      if child < n then
        bnd (bh_smaller_child lt n child d) (\<lambda>child.
        bnd (rd d child) (\<lambda>c.
          if lt c cur then bnd (wr d idx c) (\<lambda>d1. bh_bubble_down_loop lt n cur child d1)
          else Inr (idx, d)))
      else Inr (idx, d))"
  by pat_completeness auto
termination
  by (relation "measure (\<lambda>(lt, n, cur, idx, d). n - idx)")
     (auto simp: bh_get_left_def bh_smaller_child_def bnd_def split: if_splits sum.splits)

definition bh_bubble_down :: "('a \<Rightarrow> 'a \<Rightarrow> bool) \<Rightarrow> nat \<Rightarrow> 'a list \<Rightarrow> error + 'a list" where
  "bh_bubble_down lt idx d =
     bnd (assert_that (idx \<ge> ROOT \<and> idx < length d)) (\<lambda>_.
     let n = length d in
     bnd (rd d idx) (\<lambda>cur.
     bnd (bh_bubble_down_loop lt n cur idx d) (\<lambda>(idx', d1).
     wr d1 idx' cur)))"

function bh_move_hole_down_loop ::
  "('a \<Rightarrow> 'a \<Rightarrow> bool) \<Rightarrow> nat \<Rightarrow> nat \<Rightarrow> 'a list \<Rightarrow> error + (nat \<times> 'a list)" where
  "bh_move_hole_down_loop lt n idx d =
     (let child = bh_get_left idx in
      if child < n then
        bnd (bh_smaller_child lt n child d) (\<lambda>child.
        bnd (rd d child) (\<lambda>c.
        bnd (wr d idx c) (\<lambda>d1. bh_move_hole_down_loop lt n child d1)))
      else Inr (idx, d))"
  by pat_completeness auto
termination
  by (relation "measure (\<lambda>(lt, n, idx, d). n - idx)")
     (auto simp: bh_get_left_def bh_smaller_child_def bnd_def split: if_splits sum.splits)

definition bh_move_hole_down ::
  "('a \<Rightarrow> 'a \<Rightarrow> bool) \<Rightarrow> nat \<Rightarrow> 'a list \<Rightarrow> error + (nat \<times> 'a list)" where
  "bh_move_hole_down lt idx d =
     bnd (assert_that (idx \<ge> ROOT \<and> idx < length d)) (\<lambda>_.
     bh_move_hole_down_loop lt (length d) idx d)"

definition bh_push :: "('a \<Rightarrow> 'a \<Rightarrow> bool) \<Rightarrow> 'a \<Rightarrow> 'a list \<Rightarrow> error + 'a list" where
  "bh_push lt elem d =
     (let d1 = push_back d elem in bh_bubble_up lt (usub (length d1) 1) d1)"

definition bh_emplace :: "('a \<Rightarrow> 'a \<Rightarrow> bool) \<Rightarrow> 'a \<Rightarrow> 'a list \<Rightarrow> error + 'a list" where
  "bh_emplace lt elem d =
     (let d1 = push_back d elem in bh_bubble_up lt (usub (length d1) 1) d1)"

definition bh_pop :: "('a \<Rightarrow> 'a \<Rightarrow> bool) \<Rightarrow> 'a list \<Rightarrow> error + 'a list" where
  "bh_pop lt d =
     bnd (assert_that (\<not> bh_empty d)) (\<lambda>_.
     bnd (bh_move_hole_down lt ROOT d) (\<lambda>(idx, d1).
       if idx + 1 = length d1 then pop_back d1
       else bnd (vec_back d1) (\<lambda>b.
            bnd (wr d1 idx b) (\<lambda>d2.
            bnd (pop_back d2) (\<lambda>d3.
            bh_bubble_up lt idx d3)))))"

definition bh_replace_top :: "('a \<Rightarrow> 'a \<Rightarrow> bool) \<Rightarrow> 'a \<Rightarrow> 'a list \<Rightarrow> error + 'a list" where
  "bh_replace_top lt val d =
     bnd (assert_that (\<not> bh_empty d)) (\<lambda>_.
     bnd (wr d ROOT val) (\<lambda>d1.
     bh_bubble_down lt ROOT d1))"

definition bh_replace_min :: "('a \<Rightarrow> 'a \<Rightarrow> bool) \<Rightarrow> 'a \<Rightarrow> 'a list \<Rightarrow> error + 'a list" where
  "bh_replace_min lt val d = bh_replace_top lt val d"

text \<open>\<^verbatim>\<open>heapify\<close> counts down in a signed \<^verbatim>\<open>long long\<close>, from \<open>size / 2 - 1\<close> to \<open>0\<close>.\<close>

function bh_heapify_loop ::
  "('a \<Rightarrow> 'a \<Rightarrow> bool) \<Rightarrow> int \<Rightarrow> 'a list \<Rightarrow> error + 'a list" where
  "bh_heapify_loop lt i d =
     (if i \<ge> 0 then bnd (bh_bubble_down lt (nat i) d) (\<lambda>d1. bh_heapify_loop lt (i - 1) d1)
      else Inr d)"
  by pat_completeness auto
termination
  by (relation "measure (\<lambda>(lt, i, d). nat (i + 1))") auto

definition bh_heapify :: "('a \<Rightarrow> 'a \<Rightarrow> bool) \<Rightarrow> 'a list \<Rightarrow> error + 'a list" where
  "bh_heapify lt d = bh_heapify_loop lt (int (length d) div 2 - 1) d"

text \<open>The constructors: every one of them ends in \<^verbatim>\<open>BinaryHeap(comp, cont)\<close>, which stores
  the sequence and calls \<^verbatim>\<open>heapify\<close>; the default constructor leaves it empty.\<close>

definition bh_make :: "('a \<Rightarrow> 'a \<Rightarrow> bool) \<Rightarrow> 'a list \<Rightarrow> error + 'a list" where
  "bh_make lt cont = bh_heapify lt cont"

definition bh_default :: "'a list" where
  "bh_default = []"

text \<open>\<^verbatim>\<open>swap\<close> exchanges sequence and comparator of two heaps; a defaulted move leaves
  the source's vector empty.\<close>

definition heap_swap ::
  "('a \<Rightarrow> 'a \<Rightarrow> bool) \<times> 'a list \<Rightarrow> ('a \<Rightarrow> 'a \<Rightarrow> bool) \<times> 'a list \<Rightarrow>
   (('a \<Rightarrow> 'a \<Rightarrow> bool) \<times> 'a list) \<times> (('a \<Rightarrow> 'a \<Rightarrow> bool) \<times> 'a list)" where
  "heap_swap a b = (b, a)"

definition heap_move ::
  "('a \<Rightarrow> 'a \<Rightarrow> bool) \<times> 'a list \<Rightarrow>
   (('a \<Rightarrow> 'a \<Rightarrow> bool) \<times> 'a list) \<times> (('a \<Rightarrow> 'a \<Rightarrow> bool) \<times> 'a list)" where
  "heap_move b = (b, (fst b, []))"

section \<open>IntervalHeap\<close>

definition ih_get_parent :: "nat \<Rightarrow> nat" where
  "ih_get_parent idx = usub idx 2 div 4 * 2"

definition ih_get_left :: "nat \<Rightarrow> nat" where
  "ih_get_left idx = (idx + 1) * 2"

definition is_min :: "nat \<Rightarrow> bool" where
  "is_min idx = (idx mod 2 = 0)"

definition is_max :: "nat \<Rightarrow> bool" where
  "is_max idx = (idx mod 2 = 1)"

definition ih_empty :: "'a list \<Rightarrow> bool" where
  "ih_empty d = (d = [])"

definition ih_size :: "'a list \<Rightarrow> nat" where
  "ih_size d = length d"

definition ih_min :: "'a list \<Rightarrow> error + 'a" where
  "ih_min d = bnd (assert_that (\<not> ih_empty d)) (\<lambda>_. rd d ROOT)"

definition ih_max :: "'a list \<Rightarrow> error + 'a" where
  "ih_max d = bnd (assert_that (\<not> ih_empty d)) (\<lambda>_.
     if ih_size d > 1 then rd d (ROOT + 1) else rd d ROOT)"

text \<open>
  \<^verbatim>\<open>bubble_up\<close> has two \<^verbatim>\<open>do ... while\<close> loops, each entered behind an \<^verbatim>\<open>if\<close> with the
  loop's own condition. A \<^verbatim>\<open>do B while (C)\<close> is \<open>B\<close> once and then \<^verbatim>\<open>while (C) B\<close>:
  the body is \<open>ih_up_step\<close>, the rest the loop function. In the max
  chain \<open>par\<close> is the parent node's max slot, \<^verbatim>\<open>get_parent(idx) + 1\<close>.
\<close>

definition ih_up_step :: "nat \<Rightarrow> nat \<Rightarrow> 'a list \<Rightarrow> error + (nat \<times> 'a list)" where
  "ih_up_step idx par d = bnd (rd d par) (\<lambda>p. bnd (wr d idx p) (\<lambda>d1. Inr (par, d1)))"

function ih_up_min_loop ::
  "('a \<Rightarrow> 'a \<Rightarrow> bool) \<Rightarrow> 'a \<Rightarrow> nat \<Rightarrow> 'a list \<Rightarrow> error + (nat \<times> 'a list)" where
  "ih_up_min_loop lt cur idx d =
     (let par = ih_get_parent idx in
      if idx > ROOT + 1 then
        bnd (rd d par) (\<lambda>p.
          if lt cur p then bnd (ih_up_step idx par d) (\<lambda>(idx', d1). ih_up_min_loop lt cur idx' d1)
          else Inr (idx, d))
      else Inr (idx, d))"
  by pat_completeness auto
termination
  by (relation "measure (\<lambda>(lt, cur, idx, d). idx)")
     (auto simp: ih_get_parent_def usub_def ih_up_step_def bnd_def split: sum.splits if_splits)

function ih_up_max_loop ::
  "('a \<Rightarrow> 'a \<Rightarrow> bool) \<Rightarrow> 'a \<Rightarrow> nat \<Rightarrow> 'a list \<Rightarrow> error + (nat \<times> 'a list)" where
  "ih_up_max_loop lt cur idx d =
     (let par = ih_get_parent idx + 1 in
      if idx > ROOT + 1 then
        bnd (rd d par) (\<lambda>p.
          if lt p cur then bnd (ih_up_step idx par d) (\<lambda>(idx', d1). ih_up_max_loop lt cur idx' d1)
          else Inr (idx, d))
      else Inr (idx, d))"
  by pat_completeness auto
termination
  by (relation "measure (\<lambda>(lt, cur, idx, d). idx)")
     (auto simp: ih_get_parent_def usub_def ih_up_step_def bnd_def split: sum.splits if_splits)

text \<open>
  \<^verbatim>\<open>bubble_up\<close> in its three parts. \<open>ih_up_local\<close> is the first \<^verbatim>\<open>if\<close>, which
  reconciles the element with its own node. \<open>ih_below\<close> and \<open>ih_above\<close> are the conditions
  of the \<^verbatim>\<open>if\<close> and of the \<^verbatim>\<open>else if\<close> that follow, with \<open>par\<close> computed before
  either is looked at; \<open>ih_up_chain\<close> is that \<^verbatim>\<open>if ... else if\<close>.
\<close>

definition ih_up_local ::
  "('a \<Rightarrow> 'a \<Rightarrow> bool) \<Rightarrow> 'a \<Rightarrow> nat \<Rightarrow> 'a list \<Rightarrow> error + (nat \<times> 'a list)" where
  "ih_up_local lt cur idx d =
     (if is_max idx
      then bnd (rd d (usub idx 1)) (\<lambda>m.
             if lt cur m then bnd (wr d idx m) (\<lambda>d1. Inr (usub idx 1, d1))
             else Inr (idx, d))
      else Inr (idx, d))"

definition ih_below :: "('a \<Rightarrow> 'a \<Rightarrow> bool) \<Rightarrow> 'a \<Rightarrow> nat \<Rightarrow> 'a list \<Rightarrow> error + bool" where
  "ih_below lt cur idx d =
     (let par = ih_get_parent idx in
      if idx > ROOT + 1 then bnd (rd d par) (\<lambda>p. Inr (lt cur p)) else Inr False)"

definition ih_above :: "('a \<Rightarrow> 'a \<Rightarrow> bool) \<Rightarrow> 'a \<Rightarrow> nat \<Rightarrow> 'a list \<Rightarrow> error + bool" where
  "ih_above lt cur idx d =
     (let par = ih_get_parent idx in
      if idx > ROOT + 1 then bnd (rd d (par + 1)) (\<lambda>p. Inr (lt p cur)) else Inr False)"

definition ih_up_chain ::
  "('a \<Rightarrow> 'a \<Rightarrow> bool) \<Rightarrow> 'a \<Rightarrow> nat \<Rightarrow> 'a list \<Rightarrow> error + (nat \<times> 'a list)" where
  "ih_up_chain lt cur idx d =
     (let par = ih_get_parent idx in
      bnd (ih_below lt cur idx d) (\<lambda>below.
        if below
        then bnd (ih_up_step idx par d) (\<lambda>(idx, d). ih_up_min_loop lt cur idx d)
        else bnd (ih_above lt cur idx d) (\<lambda>above.
               if above
               then bnd (ih_up_step idx (par + 1) d) (\<lambda>(idx, d). ih_up_max_loop lt cur idx d)
               else Inr (idx, d))))"

definition ih_bubble_up :: "('a \<Rightarrow> 'a \<Rightarrow> bool) \<Rightarrow> nat \<Rightarrow> 'a list \<Rightarrow> error + 'a list" where
  "ih_bubble_up lt idx d =
     bnd (assert_that (length d > idx \<and> idx \<ge> ROOT)) (\<lambda>_.
     bnd (rd d idx) (\<lambda>cur.
     bnd (ih_up_local lt cur idx d) (\<lambda>(idx, d).
     bnd (ih_up_chain lt cur idx d) (\<lambda>(idx, d).
     wr d idx cur))))"

text \<open>The fix of a node's interval after a swap into its min slot, in
  \<^verbatim>\<open>bubble_down_min\<close>:
  \<^verbatim>\<open>if (child + 1 < n && _comp(_data[child + 1], _data[child])) std::swap(...)\<close>.\<close>

definition ih_fix_after_min ::
  "('a \<Rightarrow> 'a \<Rightarrow> bool) \<Rightarrow> nat \<Rightarrow> nat \<Rightarrow> 'a list \<Rightarrow> error + 'a list" where
  "ih_fix_after_min lt n child d =
     (if child + 1 < n
      then bnd (cmp lt d (child + 1) child) (\<lambda>b. if b then sw d (child + 1) child else Inr d)
      else Inr d)"

definition ih_smaller_child ::
  "('a \<Rightarrow> 'a \<Rightarrow> bool) \<Rightarrow> nat \<Rightarrow> nat \<Rightarrow> 'a list \<Rightarrow> error + nat" where
  "ih_smaller_child lt n child d =
     (if child + 2 < n
      then bnd (cmp lt d (child + 2) child) (\<lambda>b. Inr (if b then child + 2 else child))
      else Inr child)"

function ih_bubble_down_min_loop ::
  "('a \<Rightarrow> 'a \<Rightarrow> bool) \<Rightarrow> nat \<Rightarrow> nat \<Rightarrow> 'a list \<Rightarrow> error + 'a list" where
  "ih_bubble_down_min_loop lt n idx d =
     (let child = ih_get_left idx in
      if child < n then
        bnd (ih_smaller_child lt n child d) (\<lambda>child.
        bnd (cmp lt d child idx) (\<lambda>b.
          if b then
            bnd (sw d idx child) (\<lambda>d1.
            bnd (ih_fix_after_min lt n child d1) (\<lambda>d2.
            ih_bubble_down_min_loop lt n child d2))
          else Inr d))
      else Inr d)"
  by pat_completeness auto
termination
  by (relation "measure (\<lambda>(lt, n, idx, d). n - idx)")
     (auto simp: ih_get_left_def ih_smaller_child_def bnd_def split: if_splits sum.splits)

definition ih_bubble_down_min ::
  "('a \<Rightarrow> 'a \<Rightarrow> bool) \<Rightarrow> nat \<Rightarrow> 'a list \<Rightarrow> error + 'a list" where
  "ih_bubble_down_min lt idx d =
     bnd (assert_that (length d > idx \<and> is_min idx \<and> idx \<ge> ROOT)) (\<lambda>_.
     ih_bubble_down_min_loop lt (length d) idx d)"

text \<open>
  In \<^verbatim>\<open>bubble_down_max\<close> the variable \<open>child\<close> is the min slot of the chosen child node
  and \<open>child1\<close> the slot compared: the node's max slot, or its min slot when the node is
  the last one and holds a single element. \<open>ih_bigger_child\<close> is the source from
  \<^verbatim>\<open>size_t child1 = ...\<close> to the end of the first \<^verbatim>\<open>if\<close> of the loop body.
\<close>

definition ih_bigger_child ::
  "('a \<Rightarrow> 'a \<Rightarrow> bool) \<Rightarrow> nat \<Rightarrow> nat \<Rightarrow> 'a list \<Rightarrow> error + (nat \<times> nat)" where
  "ih_bigger_child lt n child d =
     (let child1 = (if child + 1 < n then child + 1 else child);
          child2 = (if child + 3 < n then child + 3 else child + 2)
      in if child2 < n
         then bnd (cmp lt d child1 child2) (\<lambda>b.
                Inr (if b then (child + 2, child2) else (child, child1)))
         else Inr (child, child1))"

definition ih_fix_after_max ::
  "('a \<Rightarrow> 'a \<Rightarrow> bool) \<Rightarrow> nat \<Rightarrow> 'a list \<Rightarrow> error + 'a list" where
  "ih_fix_after_max lt child1 d =
     (if is_max child1
      then bnd (cmp lt d child1 (usub child1 1)) (\<lambda>b.
             if b then sw d child1 (usub child1 1) else Inr d)
      else Inr d)"

function ih_bubble_down_max_loop ::
  "('a \<Rightarrow> 'a \<Rightarrow> bool) \<Rightarrow> nat \<Rightarrow> nat \<Rightarrow> 'a list \<Rightarrow> error + (nat \<times> 'a list)" where
  "ih_bubble_down_max_loop lt n idx d =
     (let child = ih_get_left idx in
      if child < n then
        bnd (ih_bigger_child lt n child d) (\<lambda>(child, child1).
        bnd (cmp lt d (idx + 1) child1) (\<lambda>b.
          if b then
            bnd (sw d (idx + 1) child1) (\<lambda>d1.
            bnd (ih_fix_after_max lt child1 d1) (\<lambda>d2.
            ih_bubble_down_max_loop lt n child d2))
          else Inr (idx, d)))
      else Inr (idx, d))"
  by pat_completeness auto
termination
  by (relation "measure (\<lambda>(lt, n, idx, d). n - idx)")
     (auto simp: ih_get_left_def ih_bigger_child_def bnd_def Let_def split: if_splits sum.splits)

definition ih_bubble_down_max ::
  "('a \<Rightarrow> 'a \<Rightarrow> bool) \<Rightarrow> nat \<Rightarrow> 'a list \<Rightarrow> error + 'a list" where
  "ih_bubble_down_max lt idx d =
     bnd (assert_that (is_max idx \<and> idx \<ge> ROOT \<and> length d > idx)) (\<lambda>_.
     let idx = usub idx 1; n = length d in
     bnd (ih_bubble_down_max_loop lt n idx d) (\<lambda>(idx, d1).
       if idx + 1 < n
       then bnd (cmp lt d1 (idx + 1) idx) (\<lambda>b. if b then sw d1 idx (idx + 1) else Inr d1)
       else Inr d1))"

definition balance_node :: "('a \<Rightarrow> 'a \<Rightarrow> bool) \<Rightarrow> nat \<Rightarrow> 'a list \<Rightarrow> error + 'a list" where
  "balance_node lt idx d =
     bnd (cmp lt d (idx + 1) idx) (\<lambda>b. if b then sw d (idx + 1) idx else Inr d)"

definition balance_node_check ::
  "('a \<Rightarrow> 'a \<Rightarrow> bool) \<Rightarrow> nat \<Rightarrow> 'a list \<Rightarrow> error + 'a list" where
  "balance_node_check lt idx d = (if idx + 1 < length d then balance_node lt idx d else Inr d)"

definition ih_push :: "('a \<Rightarrow> 'a \<Rightarrow> bool) \<Rightarrow> 'a \<Rightarrow> 'a list \<Rightarrow> error + 'a list" where
  "ih_push lt elem d =
     (let d1 = push_back d elem in ih_bubble_up lt (usub (length d1) 1) d1)"

definition ih_emplace :: "('a \<Rightarrow> 'a \<Rightarrow> bool) \<Rightarrow> 'a \<Rightarrow> 'a list \<Rightarrow> error + 'a list" where
  "ih_emplace lt elem d =
     (let d1 = push_back d elem in ih_bubble_up lt (usub (length d1) 1) d1)"

text \<open>
  \<^verbatim>\<open>pop_min\<close>, \<^verbatim>\<open>pop_max\<close>, \<^verbatim>\<open>replace_min\<close> and \<^verbatim>\<open>replace_max\<close> each prepare
  the sequence and then call a bubble-down helper. The preparation is a definition of its
  own, so that the state a helper is called on has a name: \<open>ih_pop_min_move\<close> and
  \<open>ih_pop_max_move\<close> are the moves into the freed slot followed by \<^verbatim>\<open>pop_back\<close>,
  \<open>ih_replace_min_store\<close> and \<open>ih_replace_max_store\<close> the write of the new value followed by
  \<^verbatim>\<open>balance_node_check\<close> or \<^verbatim>\<open>balance_node\<close>.
\<close>

definition ih_pop_min_move :: "'a list \<Rightarrow> error + 'a list" where
  "ih_pop_min_move d =
     (let n = length d; idx = ROOT in
      bnd (if n mod 2 \<noteq> 0
           then bnd (rd d (usub n 1)) (\<lambda>x. wr d idx x)
           else bnd (rd d (usub n 2)) (\<lambda>x.
                bnd (wr d idx x) (\<lambda>d1.
                bnd (rd d1 (usub n 1)) (\<lambda>y. wr d1 (usub n 2) y)))) (\<lambda>d1.
      pop_back d1))"

definition ih_pop_min :: "('a \<Rightarrow> 'a \<Rightarrow> bool) \<Rightarrow> 'a list \<Rightarrow> error + 'a list" where
  "ih_pop_min lt d =
     bnd (assert_that (\<not> ih_empty d)) (\<lambda>_.
     let n = length d in
     if n = 1 then pop_back d
     else bnd (ih_pop_min_move d) (\<lambda>d2. ih_bubble_down_min lt ROOT d2))"

definition ih_pop_max_move :: "'a list \<Rightarrow> error + 'a list" where
  "ih_pop_max_move d =
     (let n = length d; idx = ROOT + 1 in
      bnd (rd d (usub n 1)) (\<lambda>x.
      bnd (wr d idx x) (\<lambda>d1.
      pop_back d1)))"

definition ih_pop_max :: "('a \<Rightarrow> 'a \<Rightarrow> bool) \<Rightarrow> 'a list \<Rightarrow> error + 'a list" where
  "ih_pop_max lt d =
     bnd (assert_that (\<not> ih_empty d)) (\<lambda>_.
     let n = length d in
     if n = 1 then pop_back d
     else bnd (ih_pop_max_move d) (\<lambda>d2.
          if n > 2 then ih_bubble_down_max lt (ROOT + 1) d2 else Inr d2))"

definition ih_replace_min_store ::
  "('a \<Rightarrow> 'a \<Rightarrow> bool) \<Rightarrow> 'a \<Rightarrow> 'a list \<Rightarrow> error + 'a list" where
  "ih_replace_min_store lt val d =
     bnd (wr d ROOT val) (\<lambda>d1. balance_node_check lt ROOT d1)"

definition ih_replace_min :: "('a \<Rightarrow> 'a \<Rightarrow> bool) \<Rightarrow> 'a \<Rightarrow> 'a list \<Rightarrow> error + 'a list" where
  "ih_replace_min lt val d =
     bnd (assert_that (\<not> ih_empty d)) (\<lambda>_.
     bnd (ih_replace_min_store lt val d) (\<lambda>d2.
     ih_bubble_down_min lt ROOT d2))"

definition ih_replace_max_store ::
  "('a \<Rightarrow> 'a \<Rightarrow> bool) \<Rightarrow> 'a \<Rightarrow> 'a list \<Rightarrow> error + 'a list" where
  "ih_replace_max_store lt val d =
     bnd (wr d (ROOT + 1) val) (\<lambda>d1. balance_node lt ROOT d1)"

definition ih_replace_max :: "('a \<Rightarrow> 'a \<Rightarrow> bool) \<Rightarrow> 'a \<Rightarrow> 'a list \<Rightarrow> error + 'a list" where
  "ih_replace_max lt val d =
     bnd (assert_that (\<not> ih_empty d)) (\<lambda>_.
     if length d = 1 then wr d ROOT val
     else bnd (ih_replace_max_store lt val d) (\<lambda>d2.
          ih_bubble_down_max lt (ROOT + 1) d2))"

text \<open>The two loops of \<^verbatim>\<open>heapify\<close>: the first over \<^verbatim>\<open>size_t i\<close> in steps of two while
  \<open>i < size - 1\<close>, the second in a signed \<^verbatim>\<open>long long\<close> down to \<open>0\<close>.\<close>

function ih_balance_loop ::
  "('a \<Rightarrow> 'a \<Rightarrow> bool) \<Rightarrow> nat \<Rightarrow> 'a list \<Rightarrow> error + 'a list" where
  "ih_balance_loop lt i d =
     (if i < usub (length d) 1
      then bnd (balance_node lt i d) (\<lambda>d1. ih_balance_loop lt (i + 2) d1)
      else Inr d)"
  by pat_completeness auto
termination
  by (relation "measure (\<lambda>(lt, i, d). usub (length d) 1 - i)")
     (auto simp: balance_node_def cmp_def sw_def rd_def bnd_def split: if_splits sum.splits)

function ih_heapify_loop ::
  "('a \<Rightarrow> 'a \<Rightarrow> bool) \<Rightarrow> int \<Rightarrow> 'a list \<Rightarrow> error + 'a list" where
  "ih_heapify_loop lt i d =
     (if i \<ge> 0
      then bnd (ih_bubble_down_max lt (nat (i + 1)) d) (\<lambda>d1.
           bnd (ih_bubble_down_min lt (nat i) d1) (\<lambda>d2.
           ih_heapify_loop lt (i - 2) d2))
      else Inr d)"
  by pat_completeness auto
termination
  by (relation "measure (\<lambda>(lt, i, d). nat (i + 2))") auto

definition ih_heapify :: "('a \<Rightarrow> 'a \<Rightarrow> bool) \<Rightarrow> 'a list \<Rightarrow> error + 'a list" where
  "ih_heapify lt d =
     (if length d \<le> 2 then
        (if length d = 2
         then bnd (cmp lt d 1 0) (\<lambda>b. if b then sw d 1 0 else Inr d)
         else Inr d)
      else
        bnd (ih_balance_loop lt 0 d) (\<lambda>d1.
        ih_heapify_loop lt (int (usub (length d1) 1 div 4 * 2)) d1))"

definition ih_make :: "('a \<Rightarrow> 'a \<Rightarrow> bool) \<Rightarrow> 'a list \<Rightarrow> error + 'a list" where
  "ih_make lt cont = ih_heapify lt cont"

definition ih_default :: "'a list" where
  "ih_default = []"

section \<open>The build with \<^verbatim>\<open>NDEBUG\<close> defined\<close>

text \<open>
  The source includes \<^verbatim>\<open><cassert>\<close>: with \<^verbatim>\<open>NDEBUG\<close> defined every \<^verbatim>\<open>assert(e)\<close>
  expands to nothing. The operations that assert a non-empty heap, and the helpers they
  call, are repeated here for that build: the same statements with the \<^verbatim>\<open>assert\<close> lines
  left out. The loops hold no \<^verbatim>\<open>assert\<close> and are shared.
\<close>

definition bh_top_ndebug :: "'a list \<Rightarrow> error + 'a" where
  "bh_top_ndebug d = rd d ROOT"

definition bh_min_ndebug :: "'a list \<Rightarrow> error + 'a" where
  "bh_min_ndebug d = bh_top_ndebug d"

definition bh_bubble_up_ndebug :: "('a \<Rightarrow> 'a \<Rightarrow> bool) \<Rightarrow> nat \<Rightarrow> 'a list \<Rightarrow> error + 'a list" where
  "bh_bubble_up_ndebug lt idx d =
     bnd (rd d idx) (\<lambda>cur.
     bnd (bh_bubble_up_loop lt cur idx d) (\<lambda>(idx', d1).
     wr d1 idx' cur))"

definition bh_bubble_down_ndebug :: "('a \<Rightarrow> 'a \<Rightarrow> bool) \<Rightarrow> nat \<Rightarrow> 'a list \<Rightarrow> error + 'a list" where
  "bh_bubble_down_ndebug lt idx d =
     (let n = length d in
      bnd (rd d idx) (\<lambda>cur.
      bnd (bh_bubble_down_loop lt n cur idx d) (\<lambda>(idx', d1).
      wr d1 idx' cur)))"

definition bh_move_hole_down_ndebug ::
  "('a \<Rightarrow> 'a \<Rightarrow> bool) \<Rightarrow> nat \<Rightarrow> 'a list \<Rightarrow> error + (nat \<times> 'a list)" where
  "bh_move_hole_down_ndebug lt idx d = bh_move_hole_down_loop lt (length d) idx d"

definition bh_pop_ndebug :: "('a \<Rightarrow> 'a \<Rightarrow> bool) \<Rightarrow> 'a list \<Rightarrow> error + 'a list" where
  "bh_pop_ndebug lt d =
     bnd (bh_move_hole_down_ndebug lt ROOT d) (\<lambda>(idx, d1).
       if idx + 1 = length d1 then pop_back d1
       else bnd (vec_back d1) (\<lambda>b.
            bnd (wr d1 idx b) (\<lambda>d2.
            bnd (pop_back d2) (\<lambda>d3.
            bh_bubble_up_ndebug lt idx d3))))"

definition bh_replace_top_ndebug :: "('a \<Rightarrow> 'a \<Rightarrow> bool) \<Rightarrow> 'a \<Rightarrow> 'a list \<Rightarrow> error + 'a list" where
  "bh_replace_top_ndebug lt val d =
     bnd (wr d ROOT val) (\<lambda>d1.
     bh_bubble_down_ndebug lt ROOT d1)"

definition ih_min_ndebug :: "'a list \<Rightarrow> error + 'a" where
  "ih_min_ndebug d = rd d ROOT"

definition ih_max_ndebug :: "'a list \<Rightarrow> error + 'a" where
  "ih_max_ndebug d = (if ih_size d > 1 then rd d (ROOT + 1) else rd d ROOT)"

definition ih_bubble_down_min_ndebug ::
  "('a \<Rightarrow> 'a \<Rightarrow> bool) \<Rightarrow> nat \<Rightarrow> 'a list \<Rightarrow> error + 'a list" where
  "ih_bubble_down_min_ndebug lt idx d = ih_bubble_down_min_loop lt (length d) idx d"

definition ih_bubble_down_max_ndebug ::
  "('a \<Rightarrow> 'a \<Rightarrow> bool) \<Rightarrow> nat \<Rightarrow> 'a list \<Rightarrow> error + 'a list" where
  "ih_bubble_down_max_ndebug lt idx d =
     (let idx = usub idx 1; n = length d in
      bnd (ih_bubble_down_max_loop lt n idx d) (\<lambda>(idx, d1).
        if idx + 1 < n
        then bnd (cmp lt d1 (idx + 1) idx) (\<lambda>b. if b then sw d1 idx (idx + 1) else Inr d1)
        else Inr d1))"

definition ih_pop_min_ndebug :: "('a \<Rightarrow> 'a \<Rightarrow> bool) \<Rightarrow> 'a list \<Rightarrow> error + 'a list" where
  "ih_pop_min_ndebug lt d =
     (let n = length d in
      if n = 1 then pop_back d
      else bnd (ih_pop_min_move d) (\<lambda>d2. ih_bubble_down_min_ndebug lt ROOT d2))"

definition ih_pop_max_ndebug :: "('a \<Rightarrow> 'a \<Rightarrow> bool) \<Rightarrow> 'a list \<Rightarrow> error + 'a list" where
  "ih_pop_max_ndebug lt d =
     (let n = length d in
      if n = 1 then pop_back d
      else bnd (ih_pop_max_move d) (\<lambda>d2.
           if n > 2 then ih_bubble_down_max_ndebug lt (ROOT + 1) d2 else Inr d2))"

definition ih_replace_min_ndebug :: "('a \<Rightarrow> 'a \<Rightarrow> bool) \<Rightarrow> 'a \<Rightarrow> 'a list \<Rightarrow> error + 'a list" where
  "ih_replace_min_ndebug lt val d =
     bnd (ih_replace_min_store lt val d) (\<lambda>d2.
     ih_bubble_down_min_ndebug lt ROOT d2)"

definition ih_replace_max_ndebug :: "('a \<Rightarrow> 'a \<Rightarrow> bool) \<Rightarrow> 'a \<Rightarrow> 'a list \<Rightarrow> error + 'a list" where
  "ih_replace_max_ndebug lt val d =
     (if length d = 1 then wr d ROOT val
      else bnd (ih_replace_max_store lt val d) (\<lambda>d2.
           ih_bubble_down_max_ndebug lt (ROOT + 1) d2))"

section \<open>Proof infrastructure\<close>

lemma bnd_Inr [simp]: "bnd (Inr x) f = f x" by (simp add: bnd_def)
lemma bnd_Inl [simp]: "bnd (Inl e) f = Inl e" by (simp add: bnd_def)
lemma assert_that_simps [simp]:
  "assert_that True = Inr ()" "assert_that False = Inl AssertionFailed"
  by (simp_all add: assert_that_def)
lemma rd_ok [simp]: "i < length d \<Longrightarrow> rd d i = Inr (d ! i)" by (simp add: rd_def)
lemma wr_ok [simp]: "i < length d \<Longrightarrow> wr d i v = Inr (d[i := v])" by (simp add: wr_def)
lemma cmp_ok [simp]: "i < length d \<Longrightarrow> j < length d \<Longrightarrow> cmp lt d i j = Inr (lt (d ! i) (d ! j))"
  by (simp add: cmp_def)
lemma usub_le [simp]: "b \<le> a \<Longrightarrow> usub a b = a - b" by (simp add: usub_def)
lemma bh_get_parent_pos [simp]: "0 < idx \<Longrightarrow> bh_get_parent idx = (idx - 1) div 2"
  by (simp add: bh_get_parent_def)

declare bh_bubble_up_loop.simps [simp del]
declare bh_bubble_down_loop.simps [simp del]
declare bh_move_hole_down_loop.simps [simp del]

definition swo :: "('a \<Rightarrow> 'a \<Rightarrow> bool) \<Rightarrow> bool" where
  "swo lt = ((\<forall>a. \<not> lt a a) \<and> (\<forall>a b c. lt a b \<longrightarrow> lt b c \<longrightarrow> lt a c) \<and>
             (\<forall>a b c. \<not> lt a b \<longrightarrow> \<not> lt b c \<longrightarrow> \<not> lt a c))"

lemma swo_irrefl: "swo lt \<Longrightarrow> \<not> lt a a" by (simp add: swo_def)
lemma swo_asym: "swo lt \<Longrightarrow> lt a b \<Longrightarrow> \<not> lt b a" unfolding swo_def by blast
lemma swo_le_trans: "swo lt \<Longrightarrow> \<not> lt b a \<Longrightarrow> \<not> lt c b \<Longrightarrow> \<not> lt c a" unfolding swo_def by blast

definition bheap_inv :: "('a \<Rightarrow> 'a \<Rightarrow> bool) \<Rightarrow> 'a list \<Rightarrow> bool" where
  "bheap_inv lt d = (\<forall>i. 1 \<le> i \<and> i < length d \<longrightarrow> \<not> lt (d ! i) (d ! ((i - 1) div 2)))"

lemma bh_bubble_up_loop_rule:
  assumes "idx < length d" and "I idx d"
    and step: "\<And>idx d. idx < length d \<Longrightarrow> I idx d \<Longrightarrow> 0 < idx \<Longrightarrow> lt cur (d ! ((idx - 1) div 2)) \<Longrightarrow>
            I ((idx - 1) div 2) (d[idx := d ! ((idx - 1) div 2)])"
  shows "\<exists>idx' d'. bh_bubble_up_loop lt cur idx d = Inr (idx', d') \<and> I idx' d' \<and>
           idx' < length d' \<and> (idx' = 0 \<or> \<not> lt cur (d' ! ((idx' - 1) div 2)))"
  using assms
proof (induction lt cur idx d rule: bh_bubble_up_loop.induct)
  case (1 lt cur idx d)
  show ?case
  proof (cases "idx > 0 \<and> lt cur (d ! ((idx - 1) div 2))")
    case True
    then have p: "(idx - 1) div 2 < length d" using "1.prems" by auto
    have "bh_bubble_up_loop lt cur idx d =
          bh_bubble_up_loop lt cur ((idx - 1) div 2) (d[idx := d ! ((idx - 1) div 2)])"
      using True p "1.prems" by (subst bh_bubble_up_loop.simps) (simp add: Let_def)
    moreover have "\<exists>idx' d'. bh_bubble_up_loop lt cur ((idx - 1) div 2) (d[idx := d ! ((idx - 1) div 2)]) = Inr (idx', d') \<and> I idx' d' \<and>
           idx' < length d' \<and> (idx' = 0 \<or> \<not> lt cur (d' ! ((idx' - 1) div 2)))"
      using "1.IH"[OF refl _ _ _ _ _ _ "1.prems"(3)] True p "1.prems" by auto
    ultimately show ?thesis by simp
  next
    case False
    then show ?thesis using "1.prems"
      by (subst bh_bubble_up_loop.simps) (auto simp: Let_def)
  qed
qed


definition bh_sc :: "('a \<Rightarrow> 'a \<Rightarrow> bool) \<Rightarrow> 'a list \<Rightarrow> nat \<Rightarrow> nat" where
  "bh_sc lt d idx =
     (if 2 * idx + 2 < length d \<and> lt (d ! (2 * idx + 2)) (d ! (2 * idx + 1)) then 2 * idx + 2
      else 2 * idx + 1)"

lemma bh_smaller_child_ok:
  "2 * idx + 1 < length d \<Longrightarrow>
   bh_smaller_child lt (length d) (2 * idx + 1) d = Inr (bh_sc lt d idx)"
  by (simp add: bh_smaller_child_def bh_sc_def)

lemma bh_sc_bounds:
  "2 * idx + 1 < length d \<Longrightarrow> bh_sc lt d idx < length d \<and> idx < bh_sc lt d idx"
  by (simp add: bh_sc_def)

lemma bh_bubble_down_loop_rule:
  assumes "length d = n" and "idx < n" and "I idx d"
    and step: "\<And>idx d. length d = n \<Longrightarrow> idx < n \<Longrightarrow> I idx d \<Longrightarrow> 2 * idx + 1 < n \<Longrightarrow>
            lt (d ! bh_sc lt d idx) cur \<Longrightarrow> I (bh_sc lt d idx) (d[idx := d ! bh_sc lt d idx])"
  shows "\<exists>idx' d'. bh_bubble_down_loop lt n cur idx d = Inr (idx', d') \<and> I idx' d' \<and>
           length d' = n \<and> idx' < n \<and> (2 * idx' + 1 < n \<longrightarrow> \<not> lt (d' ! bh_sc lt d' idx') cur)"
  using assms
proof (induction lt n cur idx d rule: bh_bubble_down_loop.induct)
  case (1 lt n cur idx d)
  let ?c = "bh_sc lt d idx"
  show ?case
  proof (cases "2 * idx + 1 < n \<and> lt (d ! ?c) cur")
    case True
    then have c: "?c < length d" "idx < ?c" using bh_sc_bounds[of idx d lt] "1.prems" by auto
    have sc: "bh_smaller_child lt n (2 * idx + 1) d = Inr ?c"
      using bh_smaller_child_ok[of idx d lt] True "1.prems" by simp
    have "bh_bubble_down_loop lt n cur idx d = bh_bubble_down_loop lt n cur ?c (d[idx := d ! ?c])"
      using True c sc "1.prems"
      by (subst bh_bubble_down_loop.simps) (simp add: Let_def bh_get_left_def)
    moreover have "\<exists>idx' d'. bh_bubble_down_loop lt n cur ?c (d[idx := d ! ?c]) = Inr (idx', d') \<and> I idx' d' \<and>
           length d' = n \<and> idx' < n \<and> (2 * idx' + 1 < n \<longrightarrow> \<not> lt (d' ! bh_sc lt d' idx') cur)"
      using "1.IH"[OF refl _ _ _ _ _ _ _ _ "1.prems"(4), of ?c "d ! ?c"] True c sc "1.prems"
      by (auto simp: bh_get_left_def)
    ultimately show ?thesis by simp
  next
    case False
    show ?thesis
    proof (cases "2 * idx + 1 < n")
      case True
      then have sc: "bh_smaller_child lt n (2 * idx + 1) d = Inr ?c"
        using bh_smaller_child_ok[of idx d lt] "1.prems" by simp
      have c: "?c < length d" using bh_sc_bounds[of idx d lt] True "1.prems" by auto
      show ?thesis using True False sc c "1.prems"
        by (subst bh_bubble_down_loop.simps) (auto simp: Let_def bh_get_left_def)
    next
      case False
      then show ?thesis using "1.prems"
        by (subst bh_bubble_down_loop.simps) (auto simp: Let_def bh_get_left_def)
    qed
  qed
qed

lemma bh_move_hole_down_loop_rule:
  assumes "length d = n" and "idx < n" and "I idx d"
    and step: "\<And>idx d. length d = n \<Longrightarrow> idx < n \<Longrightarrow> I idx d \<Longrightarrow> 2 * idx + 1 < n \<Longrightarrow>
            I (bh_sc lt d idx) (d[idx := d ! bh_sc lt d idx])"
  shows "\<exists>idx' d'. bh_move_hole_down_loop lt n idx d = Inr (idx', d') \<and> I idx' d' \<and>
           length d' = n \<and> idx' < n \<and> \<not> 2 * idx' + 1 < n"
  using assms
proof (induction lt n idx d rule: bh_move_hole_down_loop.induct)
  case (1 lt n idx d)
  let ?c = "bh_sc lt d idx"
  show ?case
  proof (cases "2 * idx + 1 < n")
    case True
    then have c: "?c < length d" "idx < ?c" using bh_sc_bounds[of idx d lt] "1.prems" by auto
    have sc: "bh_smaller_child lt n (2 * idx + 1) d = Inr ?c"
      using bh_smaller_child_ok[of idx d lt] True "1.prems" by simp
    have "bh_move_hole_down_loop lt n idx d = bh_move_hole_down_loop lt n ?c (d[idx := d ! ?c])"
      using True c sc "1.prems"
      by (subst bh_move_hole_down_loop.simps) (simp add: Let_def bh_get_left_def)
    moreover have "\<exists>idx' d'. bh_move_hole_down_loop lt n ?c (d[idx := d ! ?c]) = Inr (idx', d') \<and> I idx' d' \<and>
           length d' = n \<and> idx' < n \<and> \<not> 2 * idx' + 1 < n"
      using "1.IH"[OF refl _ _ _ _ _ _ _ "1.prems"(4), of ?c "d ! ?c"] True c sc "1.prems"
      by (auto simp: bh_get_left_def)
    ultimately show ?thesis by simp
  next
    case False
    then show ?thesis using "1.prems"
      by (subst bh_move_hole_down_loop.simps) (auto simp: Let_def bh_get_left_def)
  qed
qed

section \<open>BinaryHeap: the structural invariant\<close>

definition bh_up_inv :: "('a \<Rightarrow> 'a \<Rightarrow> bool) \<Rightarrow> 'a \<Rightarrow> nat \<Rightarrow> 'a list \<Rightarrow> bool" where
  "bh_up_inv lt cur idx d =
     (idx < length d \<and>
      (\<forall>i. 1 \<le> i \<and> i < length d \<and> i \<noteq> idx \<longrightarrow> \<not> lt (d ! i) (d ! ((i - 1) div 2))) \<and>
      \<not> lt (d ! idx) cur \<and>
      (1 \<le> idx \<longrightarrow> (\<forall>c. 1 \<le> c \<and> c < length d \<and> (c - 1) div 2 = idx \<longrightarrow>
                        \<not> lt (d ! c) (d ! ((idx - 1) div 2)))))"

lemma bh_up_inv_step:
  assumes "swo lt" "bh_up_inv lt cur idx d" "0 < idx" "lt cur (d ! ((idx - 1) div 2))"
  shows "bh_up_inv lt cur ((idx - 1) div 2) (d[idx := d ! ((idx - 1) div 2)])"
proof -
  let ?p = "(idx - 1) div 2"
  let ?d = "d[idx := d ! ?p]"
  have n: "idx < length d" and p: "?p < idx" using assms by (auto simp: bh_up_inv_def)
  have e: "\<And>i. 1 \<le> i \<Longrightarrow> i < length d \<Longrightarrow> i \<noteq> idx \<Longrightarrow> \<not> lt (d ! i) (d ! ((i - 1) div 2))"
    using assms(2) by (auto simp: bh_up_inv_def)
  have ch: "\<And>c. 1 \<le> c \<Longrightarrow> c < length d \<Longrightarrow> (c - 1) div 2 = idx \<Longrightarrow> \<not> lt (d ! c) (d ! ?p)"
    using assms(2,3) by (auto simp: bh_up_inv_def)
  have 1: "\<not> lt (?d ! i) (?d ! ((i - 1) div 2))" if "1 \<le> i" "i < length d" "i \<noteq> ?p" for i
  proof (cases "i = idx")
    case True
    then show ?thesis using n p swo_irrefl[OF assms(1)] by simp
  next
    case False
    show ?thesis
    proof (cases "(i - 1) div 2 = idx")
      case True
      then show ?thesis using ch[of i] that False n by simp
    next
      case False
      then show ?thesis using e[of i] that \<open>i \<noteq> idx\<close> by simp
    qed
  qed
  have 2: "\<not> lt (?d ! ?p) cur" using p swo_asym[OF assms(1,4)] by simp
  have 3: "\<not> lt (?d ! c) (?d ! ((?p - 1) div 2))"
    if "1 \<le> ?p" "1 \<le> c" "c < length d" "(c - 1) div 2 = ?p" for c
  proof -
    have pp: "(?p - 1) div 2 \<noteq> idx" using p by linarith
    have a: "\<not> lt (d ! ?p) (d ! ((?p - 1) div 2))" using e[of ?p] that p n by simp
    show ?thesis
    proof (cases "c = idx")
      case True
      then show ?thesis using a pp n by simp
    next
      case False
      have "\<not> lt (d ! c) (d ! ?p)" using e[of c] that False by simp
      then have "\<not> lt (d ! c) (d ! ((?p - 1) div 2))" using swo_le_trans[OF assms(1) a] by blast
      then show ?thesis using False pp by simp
    qed
  qed
  have l: "length ?d = length d" by simp
  have pn: "?p < length d" using n p by simp
  show ?thesis unfolding bh_up_inv_def l using 1 2 3 pn by blast
qed

lemma bh_up_inv_final:
  assumes "swo lt" "bh_up_inv lt cur idx d" "idx = 0 \<or> \<not> lt cur (d ! ((idx - 1) div 2))"
  shows "bheap_inv lt (d[idx := cur])"
proof -
  let ?d = "d[idx := cur]"
  have n: "idx < length d" using assms by (auto simp: bh_up_inv_def)
  have e: "\<And>i. 1 \<le> i \<Longrightarrow> i < length d \<Longrightarrow> i \<noteq> idx \<Longrightarrow> \<not> lt (d ! i) (d ! ((i - 1) div 2))"
    using assms(2) by (auto simp: bh_up_inv_def)
  have c: "\<not> lt (d ! idx) cur" using assms(2) by (auto simp: bh_up_inv_def)
  have "\<not> lt (?d ! i) (?d ! ((i - 1) div 2))" if "1 \<le> i" "i < length d" for i
  proof (cases "i = idx")
    case True
    then have "(i - 1) div 2 \<noteq> idx" using that by linarith
    then show ?thesis using True assms(3) that n by simp
  next
    case False
    show ?thesis
    proof (cases "(i - 1) div 2 = idx")
      case True
      have "\<not> lt (d ! i) (d ! idx)" using e[of i] that False True by simp
      then have "\<not> lt (d ! i) cur" using swo_le_trans[OF assms(1) c] by blast
      then show ?thesis using True False n by simp
    next
      case False
      then show ?thesis using e[of i] that \<open>i \<noteq> idx\<close> by simp
    qed
  qed
  then show ?thesis by (simp add: bheap_inv_def)
qed

lemma mset_hole_move:
  "i < length d \<Longrightarrow> j < length d \<Longrightarrow> mset (d[i := d ! j, j := v]) = mset (d[i := v])"
  by (cases "i = j") (simp_all add: mset_update nth_list_update)


lemma bh_bubble_up_total:
  assumes "idx < length d"
  shows "\<exists>d'. bh_bubble_up lt idx d = Inr d' \<and> mset d' = mset d \<and> length d' = length d"
proof -
  let ?I = "\<lambda>i e. length e = length d \<and> mset (e[i := d ! idx]) = mset d"
  have "\<exists>idx' d'. bh_bubble_up_loop lt (d ! idx) idx d = Inr (idx', d') \<and> ?I idx' d' \<and>
           idx' < length d' \<and> (idx' = 0 \<or> \<not> lt (d ! idx) (d' ! ((idx' - 1) div 2)))"
  proof (rule bh_bubble_up_loop_rule[where I = ?I])
    show "idx < length d" by fact
    show "?I idx d" by simp
    fix i e assume a: "i < length e" "?I i e" "0 < i"
    then have "(i - 1) div 2 < length e" by linarith
    then show "?I ((i - 1) div 2) (e[i := e ! ((i - 1) div 2)])"
      using a mset_hole_move[of i e "(i - 1) div 2" "d ! idx"] by simp
  qed
  then obtain idx' d' where r: "bh_bubble_up_loop lt (d ! idx) idx d = Inr (idx', d')"
    "length d' = length d" "mset (d'[idx' := d ! idx]) = mset d" "idx' < length d'" by blast
  then show ?thesis using assms by (simp add: bh_bubble_up_def)
qed

lemma bh_bubble_up_inv:
  assumes "swo lt" "bh_up_inv lt (d ! idx) idx d"
  shows "\<exists>d'. bh_bubble_up lt idx d = Inr d' \<and> bheap_inv lt d'"
proof -
  let ?I = "\<lambda>i e. bh_up_inv lt (d ! idx) i e"
  have n: "idx < length d" using assms(2) by (simp add: bh_up_inv_def)
  have "\<exists>idx' d'. bh_bubble_up_loop lt (d ! idx) idx d = Inr (idx', d') \<and> ?I idx' d' \<and>
           idx' < length d' \<and> (idx' = 0 \<or> \<not> lt (d ! idx) (d' ! ((idx' - 1) div 2)))"
    by (rule bh_bubble_up_loop_rule[where I = ?I]) (use n assms bh_up_inv_step in auto)
  then obtain idx' d' where r: "bh_bubble_up_loop lt (d ! idx) idx d = Inr (idx', d')"
    "bh_up_inv lt (d ! idx) idx' d'" "idx' < length d'"
    "idx' = 0 \<or> \<not> lt (d ! idx) (d' ! ((idx' - 1) div 2))" by blast
  have "bheap_inv lt (d'[idx' := d ! idx])" using bh_up_inv_final[OF assms(1) r(2) r(4)] .
  then show ?thesis using r n by (simp add: bh_bubble_up_def)
qed

lemma bh_push_total:
  "\<exists>d'. bh_push lt x d = Inr d' \<and> mset d' = mset d + {#x#} \<and> length d' = length d + 1"
  using bh_bubble_up_total[of "length d" "d @ [x]" lt]
  by (auto simp: bh_push_def push_back_def Let_def)

lemma bh_push_inv:
  assumes "swo lt" "bheap_inv lt d"
  shows "\<exists>d'. bh_push lt x d = Inr d' \<and> bheap_inv lt d'"
proof -
  have "bh_up_inv lt ((d @ [x]) ! length d) (length d) (d @ [x])"
    unfolding bh_up_inv_def
  proof (intro conjI allI impI)
    show "length d < length (d @ [x])" by simp
    show "\<not> lt ((d @ [x]) ! length d) ((d @ [x]) ! length d)" using swo_irrefl[OF assms(1)] by simp
  next
    fix i assume "1 \<le> i \<and> i < length (d @ [x]) \<and> i \<noteq> length d"
    then have i: "1 \<le> i" "i < length d" by auto
    then have "(i - 1) div 2 < length d" by linarith
    then show "\<not> lt ((d @ [x]) ! i) ((d @ [x]) ! ((i - 1) div 2))"
      using assms(2) i by (simp add: bheap_inv_def nth_append)
  next
    fix c assume "1 \<le> length d" "1 \<le> c \<and> c < length (d @ [x]) \<and> (c - 1) div 2 = length d"
    then have False by (simp, linarith)
    then show "\<not> lt ((d @ [x]) ! c) ((d @ [x]) ! ((length d - 1) div 2))" ..
  qed
  from bh_bubble_up_inv[OF assms(1) this] show ?thesis
    by (simp add: bh_push_def push_back_def Let_def)
qed

definition bh_from :: "('a \<Rightarrow> 'a \<Rightarrow> bool) \<Rightarrow> nat \<Rightarrow> 'a list \<Rightarrow> bool" where
  "bh_from lt k d =
     (\<forall>i. 1 \<le> i \<and> i < length d \<and> k \<le> (i - 1) div 2 \<longrightarrow> \<not> lt (d ! i) (d ! ((i - 1) div 2)))"

lemma bh_from_0: "bh_from lt 0 d = bheap_inv lt d"
  by (simp add: bh_from_def bheap_inv_def)

definition bh_down_inv :: "('a \<Rightarrow> 'a \<Rightarrow> bool) \<Rightarrow> nat \<Rightarrow> 'a \<Rightarrow> nat \<Rightarrow> 'a list \<Rightarrow> bool" where
  "bh_down_inv lt k cur idx d =
     (k \<le> idx \<and> idx < length d \<and>
      (\<forall>i. 1 \<le> i \<and> i < length d \<and> k \<le> (i - 1) div 2 \<and> (i - 1) div 2 \<noteq> idx \<longrightarrow>
           \<not> lt (d ! i) (d ! ((i - 1) div 2))) \<and>
      (1 \<le> idx \<and> k \<le> (idx - 1) div 2 \<longrightarrow>
         \<not> lt cur (d ! ((idx - 1) div 2)) \<and>
         (\<forall>c. 1 \<le> c \<and> c < length d \<and> (c - 1) div 2 = idx \<longrightarrow>
              \<not> lt (d ! c) (d ! ((idx - 1) div 2)))))"

lemma bh_sc_child:
  "2 * idx + 1 < length d \<Longrightarrow>
   1 \<le> bh_sc lt d idx \<and> bh_sc lt d idx < length d \<and> (bh_sc lt d idx - 1) div 2 = idx"
  by (simp add: bh_sc_def)

lemma bh_sc_least:
  assumes "swo lt" "1 \<le> i" "i < length d" "(i - 1) div 2 = idx"
  shows "\<not> lt (d ! i) (d ! bh_sc lt d idx)"
proof -
  have "i = 2 * idx + 1 \<or> i = 2 * idx + 2" using assms(2,4) by linarith
  then show ?thesis using assms(1,3) swo_irrefl[OF assms(1)] swo_asym[OF assms(1)]
    by (auto simp: bh_sc_def)
qed

lemma bh_down_inv_step:
  assumes "swo lt" "bh_down_inv lt k cur idx d" "2 * idx + 1 < length d"
    "lt (d ! bh_sc lt d idx) cur"
  shows "bh_down_inv lt k cur (bh_sc lt d idx) (d[idx := d ! bh_sc lt d idx])"
proof -
  let ?c = "bh_sc lt d idx"
  let ?d = "d[idx := d ! ?c]"
  have c: "1 \<le> ?c" "?c < length d" "(?c - 1) div 2 = idx" using bh_sc_child[OF assms(3)] by auto
  have ci: "idx < ?c" using c by linarith
  have k: "k \<le> idx" "idx < length d" using assms(2) by (auto simp: bh_down_inv_def)
  have e: "\<And>i. 1 \<le> i \<Longrightarrow> i < length d \<Longrightarrow> k \<le> (i - 1) div 2 \<Longrightarrow> (i - 1) div 2 \<noteq> idx \<Longrightarrow>
             \<not> lt (d ! i) (d ! ((i - 1) div 2))"
    using assms(2) by (auto simp: bh_down_inv_def)
  have up: "\<And>c. 1 \<le> idx \<Longrightarrow> k \<le> (idx - 1) div 2 \<Longrightarrow> 1 \<le> c \<Longrightarrow> c < length d \<Longrightarrow>
      (c - 1) div 2 = idx \<Longrightarrow> \<not> lt (d ! c) (d ! ((idx - 1) div 2))"
    using assms(2) by (auto simp: bh_down_inv_def)
  have 1: "\<not> lt (?d ! i) (?d ! ((i - 1) div 2))"
    if "1 \<le> i" "i < length d" "k \<le> (i - 1) div 2" "(i - 1) div 2 \<noteq> ?c" for i
  proof (cases "i = idx")
    case True
    then have "(i - 1) div 2 \<noteq> idx" using that by linarith
    then show ?thesis using True up[of ?c] that c k by simp
  next
    case False
    show ?thesis
    proof (cases "(i - 1) div 2 = idx")
      case True
      then show ?thesis using bh_sc_least[OF assms(1) that(1,2) True] False k by simp
    next
      case False
      then show ?thesis using e[of i] that \<open>i \<noteq> idx\<close> by simp
    qed
  qed
  have 2: "\<not> lt cur (?d ! ((?c - 1) div 2))" using c k swo_asym[OF assms(1,4)] by simp
  have 3: "\<not> lt (?d ! g) (?d ! ((?c - 1) div 2))"
    if "1 \<le> g" "g < length d" "(g - 1) div 2 = ?c" for g
  proof -
    have "g \<noteq> idx" using that ci by linarith
    moreover have "\<not> lt (d ! g) (d ! ?c)" using e[of g] that ci k by simp
    ultimately show ?thesis using c k by simp
  qed
  have l: "length ?d = length d" by simp
  have kc: "k \<le> ?c" using k ci by simp
  show ?thesis unfolding bh_down_inv_def l using 1 2 3 kc c(2) by blast
qed

lemma bh_down_inv_final:
  assumes "swo lt" "bh_down_inv lt k cur idx d"
    "2 * idx + 1 < length d \<longrightarrow> \<not> lt (d ! bh_sc lt d idx) cur"
  shows "bh_from lt k (d[idx := cur])"
proof -
  let ?d = "d[idx := cur]"
  have k: "k \<le> idx" "idx < length d" using assms(2) by (auto simp: bh_down_inv_def)
  have e: "\<And>i. 1 \<le> i \<Longrightarrow> i < length d \<Longrightarrow> k \<le> (i - 1) div 2 \<Longrightarrow> (i - 1) div 2 \<noteq> idx \<Longrightarrow>
             \<not> lt (d ! i) (d ! ((i - 1) div 2))"
    using assms(2) by (auto simp: bh_down_inv_def)
  have up: "1 \<le> idx \<Longrightarrow> k \<le> (idx - 1) div 2 \<Longrightarrow> \<not> lt cur (d ! ((idx - 1) div 2))"
    using assms(2) by (auto simp: bh_down_inv_def)
  have "\<not> lt (?d ! i) (?d ! ((i - 1) div 2))"
    if "1 \<le> i" "i < length d" "k \<le> (i - 1) div 2" for i
  proof (cases "(i - 1) div 2 = idx")
    case True
    then have i: "i \<noteq> idx" "2 * idx + 1 < length d" using that by linarith+
    then have a: "\<not> lt (d ! bh_sc lt d idx) cur" using assms(3) by simp
    have "\<not> lt (d ! i) (d ! bh_sc lt d idx)" using bh_sc_least[OF assms(1) that(1,2) True] .
    then have "\<not> lt (d ! i) cur" using swo_le_trans[OF assms(1) a] by blast
    then show ?thesis using True i k by simp
  next
    case False
    show ?thesis
    proof (cases "i = idx")
      case True
      then show ?thesis using up that False k by simp
    next
      case False
      then show ?thesis using e[of i] that \<open>(i - 1) div 2 \<noteq> idx\<close> by simp
    qed
  qed
  then show ?thesis by (simp add: bh_from_def)
qed

lemma bh_bubble_down_total:
  assumes "idx < length d"
  shows "\<exists>d'. bh_bubble_down lt idx d = Inr d' \<and> mset d' = mset d \<and> length d' = length d"
proof -
  let ?I = "\<lambda>i e. mset (e[i := d ! idx]) = mset d"
  have "\<exists>idx' d'. bh_bubble_down_loop lt (length d) (d ! idx) idx d = Inr (idx', d') \<and> ?I idx' d' \<and>
           length d' = length d \<and> idx' < length d \<and>
           (2 * idx' + 1 < length d \<longrightarrow> \<not> lt (d' ! bh_sc lt d' idx') (d ! idx))"
  proof (rule bh_bubble_down_loop_rule[where I = ?I])
    show "length d = length d" "idx < length d" "?I idx d" using assms by simp_all
    fix i e assume a: "length e = length d" "i < length d" "?I i e" "2 * i + 1 < length d"
    then have "bh_sc lt e i < length e" using bh_sc_child[of i e lt] by simp
    then show "?I (bh_sc lt e i) (e[i := e ! bh_sc lt e i])"
      using a mset_hole_move[of i e "bh_sc lt e i" "d ! idx"] by simp
  qed
  then obtain idx' d' where r: "bh_bubble_down_loop lt (length d) (d ! idx) idx d = Inr (idx', d')"
    "length d' = length d" "mset (d'[idx' := d ! idx]) = mset d" "idx' < length d" by blast
  then show ?thesis using assms by (simp add: bh_bubble_down_def Let_def)
qed

lemma bh_bubble_down_inv:
  assumes "swo lt" "bh_down_inv lt k (d ! idx) idx d"
  shows "\<exists>d'. bh_bubble_down lt idx d = Inr d' \<and> bh_from lt k d'"
proof -
  let ?I = "\<lambda>i e. bh_down_inv lt k (d ! idx) i e"
  have n: "idx < length d" using assms(2) by (simp add: bh_down_inv_def)
  have "\<exists>idx' d'. bh_bubble_down_loop lt (length d) (d ! idx) idx d = Inr (idx', d') \<and> ?I idx' d' \<and>
           length d' = length d \<and> idx' < length d \<and>
           (2 * idx' + 1 < length d \<longrightarrow> \<not> lt (d' ! bh_sc lt d' idx') (d ! idx))"
  proof (rule bh_bubble_down_loop_rule[where I = ?I])
    show "length d = length d" "idx < length d" "?I idx d" using n assms by simp_all
    fix i e assume "length e = length d" "?I i e" "2 * i + 1 < length d" "lt (e ! bh_sc lt e i) (d ! idx)"
    then show "?I (bh_sc lt e i) (e[i := e ! bh_sc lt e i])"
      using bh_down_inv_step[OF assms(1), of k "d ! idx" i e] by simp
  qed
  then obtain idx' d' where r: "bh_bubble_down_loop lt (length d) (d ! idx) idx d = Inr (idx', d')"
    "bh_down_inv lt k (d ! idx) idx' d'" "length d' = length d" "idx' < length d"
    "2 * idx' + 1 < length d' \<longrightarrow> \<not> lt (d' ! bh_sc lt d' idx') (d ! idx)" by auto
  have "bh_from lt k (d'[idx' := d ! idx])" using bh_down_inv_final[OF assms(1) r(2) r(5)] .
  then show ?thesis using r n by (simp add: bh_bubble_down_def Let_def)
qed

lemma bh_replace_top_total:
  assumes "d \<noteq> []"
  shows "\<exists>d'. bh_replace_top lt v d = Inr d' \<and> mset d' = mset d - {#d ! 0#} + {#v#} \<and>
           length d' = length d"
proof -
  have n: "0 < length d" using assms by simp
  from bh_bubble_down_total[of 0 "d[0 := v]" lt] n
  show ?thesis by (auto simp: bh_replace_top_def bh_empty_def mset_update)
qed

lemma bh_replace_top_inv:
  assumes "swo lt" "bheap_inv lt d" "d \<noteq> []"
  shows "\<exists>d'. bh_replace_top lt v d = Inr d' \<and> bheap_inv lt d'"
proof -
  have n: "0 < length d" using assms by simp
  have "bh_down_inv lt 0 (d[0 := v] ! 0) 0 (d[0 := v])"
    unfolding bh_down_inv_def
  proof (intro conjI allI impI)
    fix i assume "1 \<le> i \<and> i < length (d[0 := v]) \<and> 0 \<le> (i - 1) div 2 \<and> (i - 1) div 2 \<noteq> 0"
    then show "\<not> lt (d[0 := v] ! i) (d[0 := v] ! ((i - 1) div 2))"
      using assms(2) by (simp add: bheap_inv_def)
  qed (use n in simp_all)
  from bh_bubble_down_inv[OF assms(1) this] n
  show ?thesis by (auto simp: bh_replace_top_def bh_empty_def bh_from_0)
qed

lemma bh_heapify_loop_total:
  "i < int (length d) \<Longrightarrow>
   \<exists>d'. bh_heapify_loop lt i d = Inr d' \<and> mset d' = mset d \<and> length d' = length d"
proof (induction lt i d rule: bh_heapify_loop.induct)
  case (1 lt i d)
  show ?case
  proof (cases "i \<ge> 0")
    case True
    then have "nat i < length d" using "1.prems" by simp
    from bh_bubble_down_total[OF this, of lt] obtain d1 where
      d1: "bh_bubble_down lt (nat i) d = Inr d1" "mset d1 = mset d" "length d1 = length d" by blast
    from "1.IH"[OF True d1(1)] d1 "1.prems" True show ?thesis by simp
  next
    case False
    then show ?thesis by simp
  qed
qed

lemma bh_heapify_loop_inv:
  "swo lt \<Longrightarrow> i < int (length d) \<Longrightarrow> - 1 \<le> i \<Longrightarrow> bh_from lt (nat (i + 1)) d \<Longrightarrow>
   \<exists>d'. bh_heapify_loop lt i d = Inr d' \<and> bheap_inv lt d'"
proof (induction lt i d rule: bh_heapify_loop.induct)
  case (1 lt i d)
  show ?case
  proof (cases "i \<ge> 0")
    case True
    then have n: "nat i < length d" using "1.prems" by simp
    have "bh_down_inv lt (nat i) (d ! nat i) (nat i) d"
      unfolding bh_down_inv_def
    proof (intro conjI allI impI)
      fix j assume "1 \<le> j \<and> j < length d \<and> nat i \<le> (j - 1) div 2 \<and> (j - 1) div 2 \<noteq> nat i"
      then have "1 \<le> j \<and> j < length d \<and> nat (i + 1) \<le> (j - 1) div 2" using True by linarith
      then show "\<not> lt (d ! j) (d ! ((j - 1) div 2))" using "1.prems"(4) unfolding bh_from_def by blast
    next
      assume "1 \<le> nat i \<and> nat i \<le> (nat i - 1) div 2"
      then have False by linarith
      then show "\<not> lt (d ! nat i) (d ! ((nat i - 1) div 2))" ..
    next
      fix c assume "1 \<le> nat i \<and> nat i \<le> (nat i - 1) div 2"
      then have False by linarith
      then show "\<not> lt (d ! c) (d ! ((nat i - 1) div 2))" ..
    qed (use n in simp_all)
    from bh_bubble_down_inv[OF "1.prems"(1) this] obtain d1 where
      d1: "bh_bubble_down lt (nat i) d = Inr d1" "bh_from lt (nat i) d1" by blast
    from bh_bubble_down_total[OF n, of lt] d1 have l: "length d1 = length d" by auto
    have "nat (i - 1 + 1) = nat i" by simp
    from "1.IH"[OF True d1(1) "1.prems"(1)] d1 l "1.prems" True this show ?thesis by simp
  next
    case False
    then have "i = - 1" using "1.prems" by simp
    then show ?thesis using "1.prems" by (simp add: bh_from_0)
  qed
qed

lemma bh_heapify_total:
  "\<exists>d'. bh_heapify lt d = Inr d' \<and> mset d' = mset d \<and> length d' = length d"
  unfolding bh_heapify_def by (rule bh_heapify_loop_total) linarith

lemma bh_heapify_inv:
  assumes "swo lt"
  shows "\<exists>d'. bh_heapify lt d = Inr d' \<and> bheap_inv lt d'"
  unfolding bh_heapify_def
proof (rule bh_heapify_loop_inv[OF assms])
  show "int (length d) div 2 - 1 < int (length d)" by linarith
  show "- 1 \<le> int (length d) div 2 - 1" by linarith
  have "\<not> (i < length d \<and> nat (int (length d) div 2 - 1 + 1) \<le> (i - 1) div 2 \<and> 1 \<le> i)" for i
    by linarith
  then show "bh_from lt (nat (int (length d) div 2 - 1 + 1)) d"
    unfolding bh_from_def by blast
qed

lemma bh_hole_step:
  assumes "swo lt" "bheap_inv lt d" "2 * idx + 1 < length d"
  shows "bheap_inv lt (d[idx := d ! bh_sc lt d idx])"
proof -
  let ?c = "bh_sc lt d idx"
  let ?d = "d[idx := d ! ?c]"
  have c: "1 \<le> ?c" "?c < length d" "(?c - 1) div 2 = idx" using bh_sc_child[OF assms(3)] by auto
  have n: "idx < length d" using assms(3) by simp
  have e: "\<And>i. 1 \<le> i \<Longrightarrow> i < length d \<Longrightarrow> \<not> lt (d ! i) (d ! ((i - 1) div 2))"
    using assms(2) by (auto simp: bheap_inv_def)
  have "\<not> lt (?d ! i) (?d ! ((i - 1) div 2))" if "1 \<le> i" "i < length d" for i
  proof (cases "i = idx")
    case True
    then have ne: "(i - 1) div 2 \<noteq> idx" using that by linarith
    have "\<not> lt (d ! ?c) (d ! idx)" using e[of ?c] c by simp
    moreover have "\<not> lt (d ! idx) (d ! ((idx - 1) div 2))" using e[of idx] that True by simp
    ultimately have "\<not> lt (d ! ?c) (d ! ((idx - 1) div 2))" using swo_le_trans[OF assms(1)] by blast
    then show ?thesis using True ne n by simp
  next
    case False
    show ?thesis
    proof (cases "(i - 1) div 2 = idx")
      case True
      then show ?thesis using bh_sc_least[OF assms(1) that True] False n by simp
    next
      case False
      then show ?thesis using e[of i] that \<open>i \<noteq> idx\<close> by simp
    qed
  qed
  then show ?thesis by (simp add: bheap_inv_def)
qed

lemma bh_move_hole_down_total:
  assumes "idx < length d"
  shows "\<exists>idx' d'. bh_move_hole_down lt idx d = Inr (idx', d') \<and> length d' = length d \<and>
           idx' < length d \<and> \<not> 2 * idx' + 1 < length d \<and> mset (d'[idx' := x]) = mset (d[idx := x])"
proof -
  let ?I = "\<lambda>i e. mset (e[i := x]) = mset (d[idx := x])"
  have "\<exists>idx' d'. bh_move_hole_down_loop lt (length d) idx d = Inr (idx', d') \<and> ?I idx' d' \<and>
           length d' = length d \<and> idx' < length d \<and> \<not> 2 * idx' + 1 < length d"
  proof (rule bh_move_hole_down_loop_rule[where I = ?I])
    show "length d = length d" "idx < length d" "?I idx d" using assms by simp_all
    fix i e assume a: "length e = length d" "i < length d" "?I i e" "2 * i + 1 < length d"
    then have "bh_sc lt e i < length e" using bh_sc_child[of i e lt] by simp
    then show "?I (bh_sc lt e i) (e[i := e ! bh_sc lt e i])"
      using a mset_hole_move[of i e "bh_sc lt e i" x] by simp
  qed
  then show ?thesis using assms by (auto simp: bh_move_hole_down_def)
qed

lemma bh_move_hole_down_inv:
  assumes "swo lt" "bheap_inv lt d" "idx < length d"
    "bh_move_hole_down lt idx d = Inr (idx', d')"
  shows "bheap_inv lt d'"
proof -
  let ?I = "\<lambda>(i::nat) e. bheap_inv lt e"
  have "\<exists>idx' d'. bh_move_hole_down_loop lt (length d) idx d = Inr (idx', d') \<and> ?I idx' d' \<and>
           length d' = length d \<and> idx' < length d \<and> \<not> 2 * idx' + 1 < length d"
  proof (rule bh_move_hole_down_loop_rule[where I = ?I])
    show "length d = length d" "idx < length d" "?I idx d" using assms by simp_all
    fix i e assume "length e = length d" "?I i e" "2 * i + 1 < length d"
    then show "?I (bh_sc lt e i) (e[i := e ! bh_sc lt e i])"
      using bh_hole_step[OF assms(1), of e i] by simp
  qed
  then show ?thesis using assms(3,4) by (auto simp: bh_move_hole_down_def)
qed

lemma mset_butlast: "d \<noteq> [] \<Longrightarrow> mset (butlast d) = mset d - {#last d#}"
  by (induction d) auto

lemma bh_move_hole_down_res:
  assumes "bh_move_hole_down lt idx d = Inr (idx', d')" "idx < length d"
  shows "mset (d'[idx' := x]) = mset (d[idx := x]) \<and> length d' = length d \<and> idx' < length d \<and>
         \<not> 2 * idx' + 1 < length d"
  using bh_move_hole_down_total[OF assms(2), of lt x] assms(1) by auto

lemma butlast_update_last: "d \<noteq> [] \<Longrightarrow> d[length d - 1 := x] = butlast d @ [x]"
  by (induction d rule: rev_induct) simp_all

lemma bh_pop_total:
  assumes "d \<noteq> []"
  shows "\<exists>d'. bh_pop lt d = Inr d' \<and> mset d' = mset d - {#d ! 0#} \<and> length d' = length d - 1"
proof -
  have n: "0 < length d" using assms by simp
  from bh_move_hole_down_total[OF n, of lt "d ! 0"] obtain idx d1 where
    h: "bh_move_hole_down lt 0 d = Inr (idx, d1)" by blast
  note r = bh_move_hole_down_res[OF h n]
  have l: "length d1 = length d" "idx < length d" using r by auto
  have m: "mset (d1[idx := x]) = mset d - {#d ! 0#} + {#x#}" for x
    using r[of x] n by (simp add: mset_update)
  have d1: "d1 \<noteq> []" using l assms by auto
  show ?thesis
  proof (cases "idx + 1 = length d1")
    case True
    then have "idx = length d1 - 1" by simp
    then have "mset (butlast d1) + {#(d ! 0)#} = mset d - {#d ! 0#} + {#(d ! 0)#}"
      using m[of "d ! 0"] butlast_update_last[OF d1, of "d ! 0"] by simp
    then have "mset (butlast d1) = mset d - {#d ! 0#}" by simp
    then show ?thesis using h True d1 assms l by (simp add: bh_pop_def bh_empty_def pop_back_def)
  next
    case False
    let ?d2 = "d1[idx := last d1]"
    have i: "idx < length (butlast ?d2)" using False l by simp
    from bh_bubble_up_total[OF i, of lt] obtain d' where
      d': "bh_bubble_up lt idx (butlast ?d2) = Inr d'" "mset d' = mset (butlast ?d2)"
          "length d' = length (butlast ?d2)" by blast
    have "last ?d2 = last d1" using False l d1 by (simp add: last_conv_nth)
    then have "mset (butlast ?d2) = mset d - {#d ! 0#}"
      using m[of "last d1"] mset_butlast[of ?d2] d1 by simp
    then show ?thesis using h False d1 assms d' l
      by (simp add: bh_pop_def bh_empty_def pop_back_def vec_back_def)
  qed
qed

lemma bh_pop_inv:
  assumes "swo lt" "bheap_inv lt d" "d \<noteq> []"
  shows "\<exists>d'. bh_pop lt d = Inr d' \<and> bheap_inv lt d'"
proof -
  have n: "0 < length d" using assms by simp
  from bh_move_hole_down_total[OF n, of lt "d ! 0"] obtain idx d1 where
    h: "bh_move_hole_down lt 0 d = Inr (idx, d1)" by blast
  note r = bh_move_hole_down_res[OF h n, of "d ! 0"]
  have l: "length d1 = length d" "idx < length d" "\<not> 2 * idx + 1 < length d" using r by auto
  have inv1: "bheap_inv lt d1" using bh_move_hole_down_inv[OF assms(1,2) n h] .
  have e: "\<And>i. 1 \<le> i \<Longrightarrow> i < length d1 \<Longrightarrow> \<not> lt (d1 ! i) (d1 ! ((i - 1) div 2))"
    using inv1 by (auto simp: bheap_inv_def)
  have d1: "d1 \<noteq> []" using l assms by auto
  show ?thesis
  proof (cases "idx + 1 = length d1")
    case True
    have "bheap_inv lt (butlast d1)" unfolding bheap_inv_def
    proof (intro allI impI)
      fix i assume "1 \<le> i \<and> i < length (butlast d1)"
      then have i: "1 \<le> i" "i < length d1 - 1" by auto
      then have "(i - 1) div 2 < length d1 - 1" by linarith
      then show "\<not> lt (butlast d1 ! i) (butlast d1 ! ((i - 1) div 2))"
        using e[of i] i by (simp add: nth_butlast)
    qed
    then show ?thesis using h True d1 assms l by (simp add: bh_pop_def bh_empty_def pop_back_def)
  next
    case False
    let ?d2 = "d1[idx := last d1]"
    let ?d3 = "butlast ?d2"
    have i: "idx < length ?d3" using False l by simp
    have "bh_up_inv lt (?d3 ! idx) idx ?d3" unfolding bh_up_inv_def
    proof (intro conjI allI impI)
      show "idx < length ?d3" by fact
      show "\<not> lt (?d3 ! idx) (?d3 ! idx)" using swo_irrefl[OF assms(1)] by simp
    next
      fix j assume "1 \<le> j \<and> j < length ?d3 \<and> j \<noteq> idx"
      then have j: "1 \<le> j" "j < length d1 - 1" "j \<noteq> idx" by auto
      then have p: "(j - 1) div 2 < length d1 - 1" "(j - 1) div 2 \<noteq> idx" using l by linarith+
      then show "\<not> lt (?d3 ! j) (?d3 ! ((j - 1) div 2))"
        using e[of j] j by (simp add: nth_butlast)
    next
      fix c assume "1 \<le> idx" "1 \<le> c \<and> c < length ?d3 \<and> (c - 1) div 2 = idx"
      then have False using l by (simp, linarith)
      then show "\<not> lt (?d3 ! c) (?d3 ! ((idx - 1) div 2))" ..
    qed
    from bh_bubble_up_inv[OF assms(1) this] obtain d' where
      d': "bh_bubble_up lt idx ?d3 = Inr d'" "bheap_inv lt d'" by blast
    then show ?thesis using h False d1 assms l
      by (simp add: bh_pop_def bh_empty_def pop_back_def vec_back_def)
  qed
qed

section \<open>IntervalHeap: the loops and their results\<close>

definition ipar :: "nat \<Rightarrow> nat" where
  "ipar i = (i - 2) div 4 * 2"

lemma ih_get_parent_pos [simp]: "2 \<le> idx \<Longrightarrow> ih_get_parent idx = ipar idx"
  by (simp add: ih_get_parent_def ipar_def)

lemma ipar_less: "2 \<le> i \<Longrightarrow> ipar i + 1 < i"
  unfolding ipar_def by arith

lemma ipar_even [simp]: "even (ipar i)"
  by (simp add: ipar_def)

declare ih_up_min_loop.simps [simp del]
declare ih_up_max_loop.simps [simp del]
declare ih_bubble_down_min_loop.simps [simp del]
declare ih_bubble_down_max_loop.simps [simp del]
declare ih_balance_loop.simps [simp del]
declare ih_heapify_loop.simps [simp del]

lemma ih_up_min_loop_rule:
  assumes "idx < length d" and "I idx d"
    and step: "\<And>idx d. idx < length d \<Longrightarrow> I idx d \<Longrightarrow> 1 < idx \<Longrightarrow> lt cur (d ! ipar idx) \<Longrightarrow>
            I (ipar idx) (d[idx := d ! ipar idx])"
  shows "\<exists>idx' d'. ih_up_min_loop lt cur idx d = Inr (idx', d') \<and> I idx' d' \<and>
           idx' < length d' \<and> (idx' \<le> 1 \<or> \<not> lt cur (d' ! ipar idx'))"
  using assms
proof (induction lt cur idx d rule: ih_up_min_loop.induct)
  case (1 lt cur idx d)
  show ?case
  proof (cases "idx > 1 \<and> lt cur (d ! ipar idx)")
    case True
    then have p: "ipar idx < length d" "2 \<le> idx" using "1.prems" ipar_less[of idx] by auto
    have "ih_up_min_loop lt cur idx d = ih_up_min_loop lt cur (ipar idx) (d[idx := d ! ipar idx])"
      using True p "1.prems"
      by (subst ih_up_min_loop.simps) (simp add: Let_def ih_up_step_def)
    moreover have "\<exists>idx' d'. ih_up_min_loop lt cur (ipar idx) (d[idx := d ! ipar idx]) = Inr (idx', d') \<and>
           I idx' d' \<and> idx' < length d' \<and> (idx' \<le> 1 \<or> \<not> lt cur (d' ! ipar idx'))"
      using "1.IH"[OF refl _ _ _ _ _ _ "1.prems"(3), of "d ! ipar idx" "(ipar idx, d[idx := d ! ipar idx])"]
        True p "1.prems" by (auto simp: ih_up_step_def)
    ultimately show ?thesis by simp
  next
    case False
    then show ?thesis using "1.prems" ipar_less[of idx]
      by (subst ih_up_min_loop.simps) (auto simp: Let_def)
  qed
qed

lemma ih_up_max_loop_rule:
  assumes "idx < length d" and "I idx d"
    and step: "\<And>idx d. idx < length d \<Longrightarrow> I idx d \<Longrightarrow> 1 < idx \<Longrightarrow> lt (d ! (ipar idx + 1)) cur \<Longrightarrow>
            I (ipar idx + 1) (d[idx := d ! (ipar idx + 1)])"
  shows "\<exists>idx' d'. ih_up_max_loop lt cur idx d = Inr (idx', d') \<and> I idx' d' \<and>
           idx' < length d' \<and> (idx' \<le> 1 \<or> \<not> lt (d' ! (ipar idx' + 1)) cur)"
  using assms
proof (induction lt cur idx d rule: ih_up_max_loop.induct)
  case (1 lt cur idx d)
  show ?case
  proof (cases "idx > 1 \<and> lt (d ! (ipar idx + 1)) cur")
    case True
    then have p: "ipar idx + 1 < length d" "2 \<le> idx" using "1.prems" ipar_less[of idx] by auto
    have "ih_up_max_loop lt cur idx d =
          ih_up_max_loop lt cur (ipar idx + 1) (d[idx := d ! (ipar idx + 1)])"
      using True p "1.prems"
      by (subst ih_up_max_loop.simps) (simp add: Let_def ih_up_step_def)
    moreover have "\<exists>idx' d'. ih_up_max_loop lt cur (ipar idx + 1) (d[idx := d ! (ipar idx + 1)]) = Inr (idx', d') \<and>
           I idx' d' \<and> idx' < length d' \<and> (idx' \<le> 1 \<or> \<not> lt (d' ! (ipar idx' + 1)) cur)"
      using "1.IH"[OF refl _ _ _ _ _ _ "1.prems"(3), of "d ! (ipar idx + 1)" "(ipar idx + 1, d[idx := d ! (ipar idx + 1)])"]
        True p "1.prems" by (auto simp: ih_up_step_def)
    ultimately show ?thesis by simp
  next
    case False
    then show ?thesis using "1.prems" ipar_less[of idx]
      by (subst ih_up_max_loop.simps) (auto simp: Let_def)
  qed
qed

lemma ih_get_left_eq: "ih_get_left idx = 2 * idx + 2"
  by (simp add: ih_get_left_def)

definition swp :: "'a list \<Rightarrow> nat \<Rightarrow> nat \<Rightarrow> 'a list" where
  "swp d i j = d[i := d ! j, j := d ! i]"

lemma length_swp [simp]: "length (swp d i j) = length d" by (simp add: swp_def)

lemma sw_swp [simp]: "i < length d \<Longrightarrow> j < length d \<Longrightarrow> sw d i j = Inr (swp d i j)"
  by (simp add: swp_def sw_def)

lemma mset_swp [simp]: "i < length d \<Longrightarrow> j < length d \<Longrightarrow> mset (swp d i j) = mset d"
  by (simp add: swp_def mset_swap)

definition ih_sc :: "('a \<Rightarrow> 'a \<Rightarrow> bool) \<Rightarrow> 'a list \<Rightarrow> nat \<Rightarrow> nat" where
  "ih_sc lt d idx =
     (if 2 * idx + 4 < length d \<and> lt (d ! (2 * idx + 4)) (d ! (2 * idx + 2)) then 2 * idx + 4
      else 2 * idx + 2)"

definition ih_min_swap :: "('a \<Rightarrow> 'a \<Rightarrow> bool) \<Rightarrow> 'a list \<Rightarrow> nat \<Rightarrow> 'a list" where
  "ih_min_swap lt d idx =
     (let c = ih_sc lt d idx; d1 = swp d idx c
      in if c + 1 < length d \<and> lt (d1 ! (c + 1)) (d1 ! c) then swp d1 (c + 1) c else d1)"

definition ih_bc :: "('a \<Rightarrow> 'a \<Rightarrow> bool) \<Rightarrow> 'a list \<Rightarrow> nat \<Rightarrow> nat \<times> nat" where
  "ih_bc lt d idx =
     (let child = 2 * idx + 2;
          child1 = (if child + 1 < length d then child + 1 else child);
          child2 = (if child + 3 < length d then child + 3 else child + 2)
      in if child2 < length d \<and> lt (d ! child1) (d ! child2) then (child + 2, child2)
         else (child, child1))"

definition ih_max_swap :: "('a \<Rightarrow> 'a \<Rightarrow> bool) \<Rightarrow> 'a list \<Rightarrow> nat \<Rightarrow> 'a list" where
  "ih_max_swap lt d idx =
     (let c1 = snd (ih_bc lt d idx); d1 = swp d (idx + 1) c1
      in if odd c1 \<and> lt (d1 ! c1) (d1 ! (c1 - 1)) then swp d1 c1 (c1 - 1) else d1)"

lemma length_ih_min_swap [simp]: "length (ih_min_swap lt d idx) = length d"
  by (simp add: ih_min_swap_def Let_def)

lemma length_ih_max_swap [simp]: "length (ih_max_swap lt d idx) = length d"
  by (simp add: ih_max_swap_def Let_def)

lemma ih_sc_bounds:
  "2 * idx + 2 < length d \<Longrightarrow> ih_sc lt d idx < length d \<and> idx < ih_sc lt d idx"
  by (simp add: ih_sc_def)

lemma ih_smaller_child_ok:
  "2 * idx + 2 < length d \<Longrightarrow>
   ih_smaller_child lt (length d) (2 * idx + 2) d = Inr (ih_sc lt d idx)"
  by (simp add: ih_smaller_child_def ih_sc_def eval_nat_numeral)

lemma ih_fix_after_min_ok:
  "c < length d \<Longrightarrow>
   ih_fix_after_min lt (length d) c d =
     Inr (if c + 1 < length d \<and> lt (d ! (c + 1)) (d ! c) then swp d (c + 1) c else d)"
  by (simp add: ih_fix_after_min_def)

lemma ih_bc_bounds:
  "2 * idx + 2 < length d \<Longrightarrow>
   snd (ih_bc lt d idx) < length d \<and> fst (ih_bc lt d idx) < length d \<and> idx < fst (ih_bc lt d idx)
   \<and> fst (ih_bc lt d idx) \<le> snd (ih_bc lt d idx)"
  by (auto simp: ih_bc_def Let_def)

lemma ih_bigger_child_ok:
  "2 * idx + 2 < length d \<Longrightarrow>
   ih_bigger_child lt (length d) (2 * idx + 2) d = Inr (ih_bc lt d idx)"
  by (auto simp: ih_bigger_child_def ih_bc_def Let_def eval_nat_numeral)

lemma ih_fix_after_max_ok:
  "c1 < length d \<Longrightarrow>
   ih_fix_after_max lt c1 d =
     Inr (if odd c1 \<and> lt (d ! c1) (d ! (c1 - 1)) then swp d c1 (c1 - 1) else d)"
  by (auto simp: ih_fix_after_max_def is_max_def odd_iff_mod_2_eq_one elim!: oddE)

lemma ih_bubble_down_min_loop_rule:
  assumes "length d = n" and "idx < n" and "I idx d"
    and step: "\<And>idx d. length d = n \<Longrightarrow> idx < n \<Longrightarrow> I idx d \<Longrightarrow> 2 * idx + 2 < n \<Longrightarrow>
            lt (d ! ih_sc lt d idx) (d ! idx) \<Longrightarrow> I (ih_sc lt d idx) (ih_min_swap lt d idx)"
  shows "\<exists>idx' d'. ih_bubble_down_min_loop lt n idx d = Inr d' \<and> I idx' d' \<and>
           length d' = n \<and> idx' < n \<and>
           (2 * idx' + 2 < n \<longrightarrow> \<not> lt (d' ! ih_sc lt d' idx') (d' ! idx'))"
  using assms
proof (induction lt n idx d rule: ih_bubble_down_min_loop.induct)
  case (1 lt n idx d)
  let ?c = "ih_sc lt d idx"
  let ?d = "ih_min_swap lt d idx"
  show ?case
  proof (cases "2 * idx + 2 < n")
    case True
    then have c: "?c < length d" "idx < ?c" using ih_sc_bounds[of idx d lt] "1.prems" by auto
    have sc: "ih_smaller_child lt n (ih_get_left idx) d = Inr ?c"
      using ih_smaller_child_ok[of idx d lt] True "1.prems" by (simp add: ih_get_left_eq)
    show ?thesis
    proof (cases "lt (d ! ?c) (d ! idx)")
      case lt: True
      have fx: "ih_fix_after_min lt n ?c (swp d idx ?c) = Inr ?d"
        using ih_fix_after_min_ok[of ?c "swp d idx ?c" lt] c "1.prems"
        by (simp add: ih_min_swap_def Let_def)
      have "ih_bubble_down_min_loop lt n idx d = ih_bubble_down_min_loop lt n ?c ?d"
        using True lt c sc fx "1.prems"
        by (subst ih_bubble_down_min_loop.simps) (simp add: Let_def ih_get_left_eq)
      moreover have "\<exists>idx' d'. ih_bubble_down_min_loop lt n ?c ?d = Inr d' \<and> I idx' d' \<and>
           length d' = n \<and> idx' < n \<and>
           (2 * idx' + 2 < n \<longrightarrow> \<not> lt (d' ! ih_sc lt d' idx') (d' ! idx'))"
      proof (rule "1.IH"[OF refl _ sc _ _ _ fx _ _ _ "1.prems"(4)])
        show "ih_get_left idx < n" using True by (simp add: ih_get_left_eq)
        show "cmp lt d ?c idx = Inr True" using c lt "1.prems" by simp
        show True by simp
        show "sw d idx ?c = Inr (swp d idx ?c)" using c "1.prems" by simp
        show "length ?d = n" using "1.prems" by simp
        show "?c < n" using c "1.prems" by simp
        show "I ?c ?d" using "1.prems"(4)[OF "1.prems"(1,2,3) True lt] .
      qed
      ultimately show ?thesis by simp
    next
      case False
      then show ?thesis using True sc c "1.prems"
        by (subst ih_bubble_down_min_loop.simps) (auto simp: Let_def ih_get_left_eq)
    qed
  next
    case False
    then show ?thesis using "1.prems"
      by (subst ih_bubble_down_min_loop.simps) (auto simp: Let_def ih_get_left_eq)
  qed
qed

lemma ih_bubble_down_max_loop_rule:
  assumes "length d = n" and "idx < n" and "I idx d"
    and step: "\<And>idx d. length d = n \<Longrightarrow> idx < n \<Longrightarrow> I idx d \<Longrightarrow> 2 * idx + 2 < n \<Longrightarrow>
            lt (d ! (idx + 1)) (d ! snd (ih_bc lt d idx)) \<Longrightarrow>
            I (fst (ih_bc lt d idx)) (ih_max_swap lt d idx)"
  shows "\<exists>idx' d'. ih_bubble_down_max_loop lt n idx d = Inr (idx', d') \<and> I idx' d' \<and>
           length d' = n \<and> idx' < n \<and>
           (2 * idx' + 2 < n \<longrightarrow> \<not> lt (d' ! (idx' + 1)) (d' ! snd (ih_bc lt d' idx')))"
  using assms
proof (induction lt n idx d rule: ih_bubble_down_max_loop.induct)
  case (1 lt n idx d)
  let ?c = "fst (ih_bc lt d idx)"
  let ?c1 = "snd (ih_bc lt d idx)"
  let ?d = "ih_max_swap lt d idx"
  show ?case
  proof (cases "2 * idx + 2 < n")
    case True
    then have c: "?c1 < length d" "?c < length d" "idx < ?c" "idx + 1 < length d"
      using ih_bc_bounds[of idx d lt] "1.prems" by auto
    have bc: "ih_bigger_child lt n (ih_get_left idx) d = Inr (?c, ?c1)"
      using ih_bigger_child_ok[of idx d lt] True "1.prems" by (simp add: ih_get_left_eq)
    show ?thesis
    proof (cases "lt (d ! (idx + 1)) (d ! ?c1)")
      case lt: True
      have fx: "ih_fix_after_max lt ?c1 (swp d (idx + 1) ?c1) = Inr ?d"
        using ih_fix_after_max_ok[of ?c1 "swp d (idx + 1) ?c1" lt] c "1.prems"
        by (simp add: ih_max_swap_def Let_def)
      have "ih_bubble_down_max_loop lt n idx d = ih_bubble_down_max_loop lt n ?c ?d"
        using True lt c bc fx "1.prems"
        by (subst ih_bubble_down_max_loop.simps) (simp add: Let_def ih_get_left_eq case_prod_beta)
      moreover have "\<exists>idx' d'. ih_bubble_down_max_loop lt n ?c ?d = Inr (idx', d') \<and> I idx' d' \<and>
           length d' = n \<and> idx' < n \<and>
           (2 * idx' + 2 < n \<longrightarrow> \<not> lt (d' ! (idx' + 1)) (d' ! snd (ih_bc lt d' idx')))"
      proof (rule "1.IH"[OF refl _ bc refl _ _ _ fx _ _ _ "1.prems"(4)])
        show "ih_get_left idx < n" using True by (simp add: ih_get_left_eq)
        show "cmp lt d (idx + 1) ?c1 = Inr True" using c lt "1.prems" by simp
        show True by simp
        show "sw d (idx + 1) ?c1 = Inr (swp d (idx + 1) ?c1)" using c "1.prems" by simp
        show "length ?d = n" using "1.prems" by simp
        show "?c < n" using c "1.prems" by simp
        show "I ?c ?d" using "1.prems"(4)[OF "1.prems"(1,2,3) True lt] .
      qed
      ultimately show ?thesis by simp
    next
      case False
      then show ?thesis using True bc c "1.prems"
        by (subst ih_bubble_down_max_loop.simps) (auto simp: Let_def ih_get_left_eq case_prod_beta)
    qed
  next
    case False
    then show ?thesis using "1.prems"
      by (subst ih_bubble_down_max_loop.simps) (auto simp: Let_def ih_get_left_eq case_prod_beta)
  qed
qed

lemma is_max_odd: "is_max i = odd i"
  by (simp add: is_max_def odd_iff_mod_2_eq_one)

lemma is_min_even: "is_min i = even i"
  by (simp add: is_min_def even_iff_mod_2_eq_zero)

lemma ih_up_local_total:
  assumes "idx < length d"
  shows "\<exists>i1 d1. ih_up_local lt cur idx d = Inr (i1, d1) \<and> i1 < length d \<and>
           length d1 = length d \<and> mset (d1[i1 := cur]) = mset (d[idx := cur])"
proof (cases "odd idx \<and> lt cur (d ! (idx - 1))")
  case True
  then have "1 \<le> idx" by (auto elim: oddE)
  then show ?thesis using True assms mset_hole_move[of idx d "idx - 1" cur]
    by (simp add: ih_up_local_def is_max_odd)
next
  case False
  then show ?thesis using assms
    by (cases "odd idx") (auto simp: ih_up_local_def is_max_odd elim: oddE)
qed

lemma ih_below_ok:
  "idx < length d \<Longrightarrow> ih_below lt cur idx d = Inr (1 < idx \<and> lt cur (d ! ipar idx))"
  using ipar_less[of idx] by (cases "1 < idx") (auto simp: ih_below_def Let_def)

lemma ih_above_ok:
  "idx < length d \<Longrightarrow> ih_above lt cur idx d = Inr (1 < idx \<and> lt (d ! (ipar idx + 1)) cur)"
  using ipar_less[of idx] by (cases "1 < idx") (auto simp: ih_above_def Let_def)

lemma ih_up_chain_total:
  assumes "idx < length d"
  shows "\<exists>i2 d2. ih_up_chain lt cur idx d = Inr (i2, d2) \<and> i2 < length d \<and>
           length d2 = length d \<and> mset (d2[i2 := cur]) = mset (d[idx := cur])"
proof -
  let ?I = "\<lambda>i e. length e = length d \<and> mset (e[i := cur]) = mset (d[idx := cur])"
  have st: "?I p (e[i := e ! p])" if "i < length e" "?I i e" "p < i" for i e p
    using that mset_hole_move[of i e p cur] by simp
  show ?thesis
  proof (cases "1 < idx \<and> lt cur (d ! ipar idx)")
    case True
    then have p: "ipar idx + 1 < idx" "2 \<le> idx" using ipar_less[of idx] by auto
    let ?d = "d[idx := d ! ipar idx]"
    have "\<exists>idx' d'. ih_up_min_loop lt cur (ipar idx) ?d = Inr (idx', d') \<and> ?I idx' d' \<and>
           idx' < length d' \<and> (idx' \<le> 1 \<or> \<not> lt cur (d' ! ipar idx'))"
    proof (rule ih_up_min_loop_rule[where I = ?I])
      show "ipar idx < length ?d" using p assms by simp
      show "?I (ipar idx) ?d" using st[of idx d "ipar idx"] assms p by simp
      fix i e assume "i < length e" "?I i e" "1 < i"
      then show "?I (ipar i) (e[i := e ! ipar i])" using st[of i e "ipar i"] ipar_less[of i] by simp
    qed
    then show ?thesis using True p assms
      by (auto simp: ih_up_chain_def ih_below_ok ih_up_step_def Let_def)
  next
    case nb: False
    show ?thesis
    proof (cases "1 < idx \<and> lt (d ! (ipar idx + 1)) cur")
      case True
      then have p: "ipar idx + 1 < idx" "2 \<le> idx" using ipar_less[of idx] by auto
      let ?d = "d[idx := d ! (ipar idx + 1)]"
      have "\<exists>idx' d'. ih_up_max_loop lt cur (ipar idx + 1) ?d = Inr (idx', d') \<and> ?I idx' d' \<and>
             idx' < length d' \<and> (idx' \<le> 1 \<or> \<not> lt (d' ! (ipar idx' + 1)) cur)"
      proof (rule ih_up_max_loop_rule[where I = ?I])
        show "ipar idx + 1 < length ?d" using p assms by simp
        show "?I (ipar idx + 1) ?d" using st[of idx d "ipar idx + 1"] assms p by simp
        fix i e assume "i < length e" "?I i e" "1 < i"
        then show "?I (ipar i + 1) (e[i := e ! (ipar i + 1)])"
          using st[of i e "ipar i + 1"] ipar_less[of i] by simp
      qed
      then show ?thesis using True nb p assms
        by (auto simp: ih_up_chain_def ih_below_ok ih_above_ok ih_up_step_def Let_def)
    next
      case False
      then show ?thesis using nb assms
        by (auto simp: ih_up_chain_def ih_below_ok ih_above_ok Let_def)
    qed
  qed
qed

lemma ih_bubble_up_total:
  assumes "idx < length d"
  shows "\<exists>d'. ih_bubble_up lt idx d = Inr d' \<and> mset d' = mset d \<and> length d' = length d"
proof -
  from ih_up_local_total[OF assms, of lt "d ! idx"] obtain i1 d1 where
    1: "ih_up_local lt (d ! idx) idx d = Inr (i1, d1)" "i1 < length d" "length d1 = length d"
       "mset (d1[i1 := d ! idx]) = mset d" by auto
  from ih_up_chain_total[of i1 d1 lt "d ! idx"] 1 obtain i2 d2 where
    2: "ih_up_chain lt (d ! idx) i1 d1 = Inr (i2, d2)" "i2 < length d" "length d2 = length d"
       "mset (d2[i2 := d ! idx]) = mset d" by auto
  show ?thesis using assms 1 2 by (simp add: ih_bubble_up_def)
qed

lemma ih_push_total:
  "\<exists>d'. ih_push lt x d = Inr d' \<and> mset d' = mset d + {#x#} \<and> length d' = length d + 1"
  using ih_bubble_up_total[of "length d" "d @ [x]" lt]
  by (auto simp: ih_push_def push_back_def Let_def)

lemma ih_bubble_down_min_total:
  assumes "idx < length d" "even idx"
  shows "\<exists>d'. ih_bubble_down_min lt idx d = Inr d' \<and> mset d' = mset d \<and> length d' = length d"
proof -
  let ?I = "\<lambda>(i::nat) e. mset e = mset d"
  have "\<exists>idx' d'. ih_bubble_down_min_loop lt (length d) idx d = Inr d' \<and> ?I idx' d' \<and>
           length d' = length d \<and> idx' < length d \<and>
           (2 * idx' + 2 < length d \<longrightarrow> \<not> lt (d' ! ih_sc lt d' idx') (d' ! idx'))"
  proof (rule ih_bubble_down_min_loop_rule[where I = ?I])
    show "length d = length d" "idx < length d" "?I idx d" using assms by simp_all
    fix i e assume a: "length e = length d" "i < length d" "?I i e" "2 * i + 2 < length d"
    then have "ih_sc lt e i < length e" using ih_sc_bounds[of i e lt] by simp
    then show "?I (ih_sc lt e i) (ih_min_swap lt e i)"
      using a by (simp add: ih_min_swap_def Let_def)
  qed
  then show ?thesis using assms by (auto simp: ih_bubble_down_min_def is_min_even)
qed

lemma ih_bubble_down_max_total:
  assumes "idx < length d" "odd idx"
  shows "\<exists>d'. ih_bubble_down_max lt idx d = Inr d' \<and> mset d' = mset d \<and> length d' = length d"
proof -
  let ?I = "\<lambda>(i::nat) e. mset e = mset d"
  have i: "1 \<le> idx" using assms(2) by (auto elim: oddE)
  have "\<exists>idx' d'. ih_bubble_down_max_loop lt (length d) (idx - 1) d = Inr (idx', d') \<and> ?I idx' d' \<and>
           length d' = length d \<and> idx' < length d \<and>
           (2 * idx' + 2 < length d \<longrightarrow> \<not> lt (d' ! (idx' + 1)) (d' ! snd (ih_bc lt d' idx')))"
  proof (rule ih_bubble_down_max_loop_rule[where I = ?I])
    show "length d = length d" "idx - 1 < length d" "?I (idx - 1) d" using assms by simp_all
    fix i e assume a: "length e = length d" "i < length d" "?I i e" "2 * i + 2 < length d"
    then have "snd (ih_bc lt e i) < length e" using ih_bc_bounds[of i e lt] by simp
    then show "?I (fst (ih_bc lt e i)) (ih_max_swap lt e i)"
      using a by (auto simp: ih_max_swap_def Let_def elim: oddE)
  qed
  then obtain idx' d' where r: "ih_bubble_down_max_loop lt (length d) (idx - 1) d = Inr (idx', d')"
    "mset d' = mset d" "length d' = length d" "idx' < length d" by blast
  then show ?thesis using assms i by (simp add: ih_bubble_down_max_def is_max_odd Let_def)
qed

lemma balance_node_ok:
  "idx + 1 < length d \<Longrightarrow>
   balance_node lt idx d = Inr (if lt (d ! (idx + 1)) (d ! idx) then swp d (idx + 1) idx else d)"
  by (simp add: balance_node_def)

lemma swp_Nil [simp]: "(swp d i j = []) = (d = [])"
  by (simp add: swp_def)

lemma len2: "d \<noteq> [] \<Longrightarrow> length d \<noteq> 1 \<Longrightarrow> 2 \<le> length d"
  by (cases d) (auto simp: Suc_le_eq)

lemma ih_balance_loop_total:
  "d \<noteq> [] \<Longrightarrow>
   \<exists>d'. ih_balance_loop lt i d = Inr d' \<and> mset d' = mset d \<and> length d' = length d"
proof (induction lt i d rule: ih_balance_loop.induct)
  case (1 lt i d)
  show ?case
  proof -
    have u: "usub (length d) 1 = length d - 1" using "1.prems" by (simp add: Suc_le_eq)
    show ?thesis
    proof (cases "i < length d - 1")
      case True
      then have i: "i + 1 < length d" by simp
      let ?d1 = "if lt (d ! (i + 1)) (d ! i) then swp d (i + 1) i else d"
      have b: "balance_node lt i d = Inr ?d1" using balance_node_ok[OF i] .
      have "?d1 \<noteq> []" using "1.prems" by auto
      then have "\<exists>d'. ih_balance_loop lt (i + 2) ?d1 = Inr d' \<and> mset d' = mset ?d1 \<and> length d' = length ?d1"
        using "1.IH"[OF _ b] True u by simp
      moreover have "ih_balance_loop lt i d = ih_balance_loop lt (i + 2) ?d1"
        using True u b by (subst ih_balance_loop.simps) simp
      ultimately show ?thesis using i by auto
    next
      case False
      then show ?thesis using u by (subst ih_balance_loop.simps) simp
    qed
  qed
qed

lemma ih_heapify_loop_total:
  "i + 1 < int (length d) \<Longrightarrow> even i \<Longrightarrow>
   \<exists>d'. ih_heapify_loop lt i d = Inr d' \<and> mset d' = mset d \<and> length d' = length d"
proof (induction lt i d rule: ih_heapify_loop.induct)
  case (1 lt i d)
  show ?case
  proof (cases "i \<ge> 0")
    case True
    then have a: "nat (i + 1) < length d" "odd (nat (i + 1))" using "1.prems"
      by (auto simp: even_nat_iff)
    from ih_bubble_down_max_total[OF a, of lt] obtain d1 where
      d1: "ih_bubble_down_max lt (nat (i + 1)) d = Inr d1" "mset d1 = mset d" "length d1 = length d"
      by blast
    have b: "nat i < length d1" "even (nat i)" using "1.prems" True d1 by (auto simp: even_nat_iff)
    from ih_bubble_down_min_total[OF b, of lt] obtain d2 where
      d2: "ih_bubble_down_min lt (nat i) d1 = Inr d2" "mset d2 = mset d1" "length d2 = length d1"
      by blast
    have "\<exists>d'. ih_heapify_loop lt (i - 2) d2 = Inr d' \<and> mset d' = mset d2 \<and> length d' = length d2"
      using "1.IH"[OF True d1(1) d2(1)] "1.prems" d1 d2 by simp
    moreover have "ih_heapify_loop lt i d = ih_heapify_loop lt (i - 2) d2"
      using True d1 d2 by (subst ih_heapify_loop.simps) simp
    ultimately show ?thesis using d1 d2 by simp
  next
    case False
    then show ?thesis by (subst ih_heapify_loop.simps) simp
  qed
qed

lemma ih_heapify_total:
  "\<exists>d'. ih_heapify lt d = Inr d' \<and> mset d' = mset d \<and> length d' = length d"
proof (cases "length d \<le> 2")
  case True
  then show ?thesis by (auto simp: ih_heapify_def)
next
  case False
  then have n: "3 \<le> length d" by simp
  have "d \<noteq> []" using n by auto
  from ih_balance_loop_total[OF this, of lt 0] obtain d1 where
    d1: "ih_balance_loop lt 0 d = Inr d1" "mset d1 = mset d" "length d1 = length d" by blast
  have u: "usub (length d1) 1 = length d - 1" using n d1 by simp
  have "int ((length d - 1) div 4 * 2) + 1 < int (length d1)" using n d1 by simp
  from ih_heapify_loop_total[OF this, of lt] obtain d' where
    "ih_heapify_loop lt (int ((length d - 1) div 4 * 2)) d1 = Inr d'" "mset d' = mset d1"
    "length d' = length d1" by auto
  then show ?thesis using False d1 u by (simp add: ih_heapify_def)
qed

section \<open>IntervalHeap: the structural invariant\<close>

definition ih_N :: "('a \<Rightarrow> 'a \<Rightarrow> bool) \<Rightarrow> 'a list \<Rightarrow> bool" where
  "ih_N lt d = (\<forall>i<length d. odd i \<longrightarrow> \<not> lt (d ! i) (d ! (i - 1)))"

definition ih_lo :: "('a \<Rightarrow> 'a \<Rightarrow> bool) \<Rightarrow> nat \<Rightarrow> 'a list \<Rightarrow> bool" where
  "ih_lo lt k d = (\<forall>i<length d. 2 \<le> i \<and> k \<le> ipar i \<longrightarrow> \<not> lt (d ! i) (d ! ipar i))"

definition ih_hi :: "('a \<Rightarrow> 'a \<Rightarrow> bool) \<Rightarrow> nat \<Rightarrow> 'a list \<Rightarrow> bool" where
  "ih_hi lt k d = (\<forall>i<length d. 2 \<le> i \<and> k \<le> ipar i \<longrightarrow> \<not> lt (d ! (ipar i + 1)) (d ! i))"

definition iheap_inv :: "('a \<Rightarrow> 'a \<Rightarrow> bool) \<Rightarrow> 'a list \<Rightarrow> bool" where
  "iheap_inv lt d = (ih_N lt d \<and> ih_lo lt 0 d \<and> ih_hi lt 0 d)"

lemma ih_ND: "ih_N lt d \<Longrightarrow> i < length d \<Longrightarrow> odd i \<Longrightarrow> \<not> lt (d ! i) (d ! (i - 1))"
  by (simp add: ih_N_def)

lemma ih_loD: "ih_lo lt k d \<Longrightarrow> i < length d \<Longrightarrow> 2 \<le> i \<Longrightarrow> k \<le> ipar i \<Longrightarrow> \<not> lt (d ! i) (d ! ipar i)"
  by (simp add: ih_lo_def)

lemma ih_hiD: "ih_hi lt k d \<Longrightarrow> i < length d \<Longrightarrow> 2 \<le> i \<Longrightarrow> k \<le> ipar i \<Longrightarrow> \<not> lt (d ! (ipar i + 1)) (d ! i)"
  by (simp add: ih_hi_def)

lemma ipar_neq: "2 \<le> i \<Longrightarrow> ipar i \<noteq> i" "2 \<le> i \<Longrightarrow> ipar i + 1 \<noteq> i" "2 \<le> i \<Longrightarrow> Suc (ipar i) \<noteq> i"
  using ipar_less[of i] by auto

lemma ih_min_exit:
  assumes s: "swo lt" and inv: "iheap_inv lt d" and ev: "even idx" and n: "idx < length d"
    and c: "\<not> lt (d ! idx) cur" and x: "idx < 2 \<or> \<not> lt cur (d ! ipar idx)"
  shows "iheap_inv lt (d[idx := cur])"
proof -
  let ?d = "d[idx := cur]"
  have N: "ih_N lt d" and lo: "ih_lo lt 0 d" and hi: "ih_hi lt 0 d"
    using inv by (auto simp: iheap_inv_def)
  have "ih_N lt ?d" unfolding ih_N_def
  proof (intro allI impI)
    fix i assume i: "i < length ?d" "odd i"
    then have ne: "i \<noteq> idx" using ev by auto
    have a: "\<not> lt (d ! i) (d ! (i - 1))" using ih_ND[OF N] i by simp
    show "\<not> lt (?d ! i) (?d ! (i - 1))"
    proof (cases "i - 1 = idx")
      case True
      then show ?thesis using swo_le_trans[OF s c] a ne n by simp
    next
      case False
      then show ?thesis using a ne by simp
    qed
  qed
  moreover have "ih_lo lt 0 ?d" unfolding ih_lo_def
  proof (intro allI impI)
    fix i assume i: "i < length ?d" "2 \<le> i \<and> 0 \<le> ipar i"
    have a: "\<not> lt (d ! i) (d ! ipar i)" using ih_loD[OF lo] i by simp
    show "\<not> lt (?d ! i) (?d ! ipar i)"
    proof (cases "i = idx")
      case True
      then show ?thesis using x i ipar_neq[of i] n by auto
    next
      case ne: False
      show ?thesis
      proof (cases "ipar i = idx")
        case True
        then show ?thesis using swo_le_trans[OF s c] a ne n by simp
      next
        case False
        then show ?thesis using a ne by simp
      qed
    qed
  qed
  moreover have "ih_hi lt 0 ?d" unfolding ih_hi_def
  proof (intro allI impI)
    fix i assume i: "i < length ?d" "2 \<le> i \<and> 0 \<le> ipar i"
    have a: "\<not> lt (d ! (ipar i + 1)) (d ! i)" using ih_hiD[OF hi] i by simp
    have ne: "ipar i + 1 \<noteq> idx" using ev by auto
    show "\<not> lt (?d ! (ipar i + 1)) (?d ! i)"
    proof (cases "i = idx")
      case True
      then show ?thesis using swo_le_trans[OF s c] a ne n by simp
    next
      case False
      then show ?thesis using a ne by simp
    qed
  qed
  ultimately show ?thesis by (simp add: iheap_inv_def)
qed

lemma ih_max_exit:
  assumes s: "swo lt" and inv: "iheap_inv lt d" and od: "odd idx" and n: "idx < length d"
    and c: "\<not> lt cur (d ! idx)" and x: "idx < 2 \<or> \<not> lt (d ! (ipar idx + 1)) cur"
  shows "iheap_inv lt (d[idx := cur])"
proof -
  let ?d = "d[idx := cur]"
  have N: "ih_N lt d" and lo: "ih_lo lt 0 d" and hi: "ih_hi lt 0 d"
    using inv by (auto simp: iheap_inv_def)
  have "ih_N lt ?d" unfolding ih_N_def
  proof (intro allI impI)
    fix i assume i: "i < length ?d" "odd i"
    have a: "\<not> lt (d ! i) (d ! (i - 1))" using ih_ND[OF N] i by simp
    have ne: "i - 1 \<noteq> idx" using i od by auto
    show "\<not> lt (?d ! i) (?d ! (i - 1))"
    proof (cases "i = idx")
      case True
      then show ?thesis using swo_le_trans[OF s a] c ne n by simp
    next
      case False
      then show ?thesis using a ne by simp
    qed
  qed
  moreover have "ih_lo lt 0 ?d" unfolding ih_lo_def
  proof (intro allI impI)
    fix i assume i: "i < length ?d" "2 \<le> i \<and> 0 \<le> ipar i"
    have a: "\<not> lt (d ! i) (d ! ipar i)" using ih_loD[OF lo] i by simp
    have ne: "ipar i \<noteq> idx" using od by auto
    show "\<not> lt (?d ! i) (?d ! ipar i)"
    proof (cases "i = idx")
      case True
      then show ?thesis using swo_le_trans[OF s a] c ne n by simp
    next
      case False
      then show ?thesis using a ne by simp
    qed
  qed
  moreover have "ih_hi lt 0 ?d" unfolding ih_hi_def
  proof (intro allI impI)
    fix i assume i: "i < length ?d" "2 \<le> i \<and> 0 \<le> ipar i"
    have a: "\<not> lt (d ! (ipar i + 1)) (d ! i)" using ih_hiD[OF hi] i by simp
    show "\<not> lt (?d ! (ipar i + 1)) (?d ! i)"
    proof (cases "i = idx")
      case True
      then show ?thesis using x i ipar_neq[of i] n by auto
    next
      case ne: False
      show ?thesis
      proof (cases "ipar i + 1 = idx")
        case True
        then show ?thesis using swo_le_trans[OF s a] c ne n by simp
      next
        case False
        then show ?thesis using a ne by simp
      qed
    qed
  qed
  ultimately show ?thesis by (simp add: iheap_inv_def)
qed

lemma ih_append:
  assumes s: "swo lt" and inv: "iheap_inv lt d"
    and a: "odd (length d) \<longrightarrow> \<not> lt v (d ! (length d - 1))"
    and b: "2 \<le> length d \<longrightarrow> \<not> lt v (d ! ipar (length d)) \<and> \<not> lt (d ! (ipar (length d) + 1)) v"
  shows "iheap_inv lt (d @ [v])"
proof -
  let ?d = "d @ [v]"
  have N: "ih_N lt d" and lo: "ih_lo lt 0 d" and hi: "ih_hi lt 0 d"
    using inv by (auto simp: iheap_inv_def)
  have "ih_N lt ?d" unfolding ih_N_def
  proof (intro allI impI)
    fix i assume i: "i < length ?d" "odd i"
    then have i1: "1 \<le> i" by (auto elim: oddE)
    show "\<not> lt (?d ! i) (?d ! (i - 1))"
    proof (cases "i = length d")
      case True
      then have "length d - 1 < length d" using i1 by simp
      then show ?thesis using a i True by (simp add: nth_append)
    next
      case False
      then have "i < length d" "i - 1 < length d" using i by auto
      then show ?thesis using ih_ND[OF N] i by (simp add: nth_append)
    qed
  qed
  moreover have "ih_lo lt 0 ?d" unfolding ih_lo_def
  proof (intro allI impI)
    fix i assume i: "i < length ?d" "2 \<le> i \<and> 0 \<le> ipar i"
    then have p: "ipar i < length d" using ipar_less[of i] by simp
    show "\<not> lt (?d ! i) (?d ! ipar i)"
    proof (cases "i = length d")
      case True
      then show ?thesis using b i p by (simp add: nth_append)
    next
      case False
      then have "i < length d" using i by auto
      then show ?thesis using ih_loD[OF lo] i p by (simp add: nth_append)
    qed
  qed
  moreover have "ih_hi lt 0 ?d" unfolding ih_hi_def
  proof (intro allI impI)
    fix i assume i: "i < length ?d" "2 \<le> i \<and> 0 \<le> ipar i"
    then have p: "ipar i + 1 < length d" using ipar_less[of i] by simp
    show "\<not> lt (?d ! (ipar i + 1)) (?d ! i)"
    proof (cases "i = length d")
      case True
      then show ?thesis using b i p by (simp add: nth_append)
    next
      case False
      then have "i < length d" using i by auto
      then show ?thesis using ih_hiD[OF hi] i p by (simp add: nth_append)
    qed
  qed
  ultimately show ?thesis by (simp add: iheap_inv_def)
qed

lemma ih_up_min_loop_inv:
  assumes s: "swo lt" and inv: "iheap_inv lt e" and ev: "even i" and n: "i < length e"
    and c: "\<not> lt (e ! i) cur"
  shows "\<exists>i2 d2. ih_up_min_loop lt cur i e = Inr (i2, d2) \<and> i2 < length d2 \<and>
           iheap_inv lt (d2[i2 := cur])"
proof -
  let ?I = "\<lambda>i e. iheap_inv lt e \<and> even i \<and> \<not> lt (e ! i) cur"
  have "\<exists>idx' d'. ih_up_min_loop lt cur i e = Inr (idx', d') \<and> ?I idx' d' \<and>
           idx' < length d' \<and> (idx' \<le> 1 \<or> \<not> lt cur (d' ! ipar idx'))"
  proof (rule ih_up_min_loop_rule[where I = ?I])
    show "i < length e" "?I i e" using assms by simp_all
    fix j f assume a: "j < length f" "?I j f" "1 < j" "lt cur (f ! ipar j)"
    have lo: "\<not> lt (f ! j) (f ! ipar j)" using a ih_loD[of lt 0 f j] by (simp add: iheap_inv_def)
    have "iheap_inv lt (f[j := f ! ipar j])"
      using ih_min_exit[OF s _ _ a(1) lo] a(2) swo_irrefl[OF s] by blast
    moreover have "\<not> lt (f[j := f ! ipar j] ! ipar j) cur"
      using ipar_neq[of j] a swo_asym[OF s a(4)] by simp
    ultimately show "?I (ipar j) (f[j := f ! ipar j])" by simp
  qed
  then obtain i2 d2 where r: "ih_up_min_loop lt cur i e = Inr (i2, d2)" "?I i2 d2" "i2 < length d2"
    "i2 \<le> 1 \<or> \<not> lt cur (d2 ! ipar i2)" by blast
  have "iheap_inv lt (d2[i2 := cur])"
    using ih_min_exit[OF s _ _ r(3), of cur] r(2,4) by auto
  then show ?thesis using r by blast
qed

lemma ih_up_max_loop_inv:
  assumes s: "swo lt" and inv: "iheap_inv lt e" and od: "odd i" and n: "i < length e"
    and c: "\<not> lt cur (e ! i)"
  shows "\<exists>i2 d2. ih_up_max_loop lt cur i e = Inr (i2, d2) \<and> i2 < length d2 \<and>
           iheap_inv lt (d2[i2 := cur])"
proof -
  let ?I = "\<lambda>i e. iheap_inv lt e \<and> odd i \<and> \<not> lt cur (e ! i)"
  have "\<exists>idx' d'. ih_up_max_loop lt cur i e = Inr (idx', d') \<and> ?I idx' d' \<and>
           idx' < length d' \<and> (idx' \<le> 1 \<or> \<not> lt (d' ! (ipar idx' + 1)) cur)"
  proof (rule ih_up_max_loop_rule[where I = ?I])
    show "i < length e" "?I i e" using assms by simp_all
    fix j f assume a: "j < length f" "?I j f" "1 < j" "lt (f ! (ipar j + 1)) cur"
    have hi: "\<not> lt (f ! (ipar j + 1)) (f ! j)" using a ih_hiD[of lt 0 f j] by (simp add: iheap_inv_def)
    have "iheap_inv lt (f[j := f ! (ipar j + 1)])"
      using ih_max_exit[OF s _ _ a(1) hi] a(2) swo_irrefl[OF s] by blast
    moreover have "\<not> lt cur (f[j := f ! (ipar j + 1)] ! (ipar j + 1))"
      using ipar_neq[of j] a swo_asym[OF s a(4)] by simp
    ultimately show "?I (ipar j + 1) (f[j := f ! (ipar j + 1)])" by simp
  qed
  then obtain i2 d2 where r: "ih_up_max_loop lt cur i e = Inr (i2, d2)" "?I i2 d2" "i2 < length d2"
    "i2 \<le> 1 \<or> \<not> lt (d2 ! (ipar i2 + 1)) cur" by blast
  have "iheap_inv lt (d2[i2 := cur])"
    using ih_max_exit[OF s _ _ r(3), of cur] r(2,4) by auto
  then show ?thesis using r by blast
qed

lemma ih_up_chain_inv:
  assumes s: "swo lt" and n: "i < length e"
    and p1: "1 < i \<and> lt cur (e ! ipar i) \<Longrightarrow> iheap_inv lt (e[i := e ! ipar i])"
    and p2: "\<not> (1 < i \<and> lt cur (e ! ipar i)) \<Longrightarrow> 1 < i \<and> lt (e ! (ipar i + 1)) cur \<Longrightarrow>
             iheap_inv lt (e[i := e ! (ipar i + 1)])"
    and p3: "\<not> (1 < i \<and> lt cur (e ! ipar i)) \<Longrightarrow> \<not> (1 < i \<and> lt (e ! (ipar i + 1)) cur) \<Longrightarrow>
             iheap_inv lt (e[i := cur])"
  shows "\<exists>i2 d2. ih_up_chain lt cur i e = Inr (i2, d2) \<and> i2 < length d2 \<and>
           iheap_inv lt (d2[i2 := cur])"
proof (cases "1 < i \<and> lt cur (e ! ipar i)")
  case True
  then have p: "ipar i + 1 < i" "2 \<le> i" using ipar_less[of i] by auto
  let ?e = "e[i := e ! ipar i]"
  have "\<not> lt (?e ! ipar i) cur" using p swo_asym[OF s] True by simp
  from ih_up_min_loop_inv[OF s p1[OF True] _ _ this] p n
  show ?thesis using True by (simp add: ih_up_chain_def ih_below_ok ih_up_step_def Let_def)
next
  case nb: False
  show ?thesis
  proof (cases "1 < i \<and> lt (e ! (ipar i + 1)) cur")
    case True
    then have p: "ipar i + 1 < i" "2 \<le> i" using ipar_less[of i] by auto
    let ?e = "e[i := e ! (ipar i + 1)]"
    have "\<not> lt cur (?e ! (ipar i + 1))" using p swo_asym[OF s] True by simp
    from ih_up_max_loop_inv[OF s p2[OF nb True] _ _ this] p n
    show ?thesis using True nb
      by (simp add: ih_up_chain_def ih_below_ok ih_above_ok ih_up_step_def Let_def)
  next
    case False
    have "ih_below lt cur i e = Inr False" "ih_above lt cur i e = Inr False"
      using nb False ih_below_ok[OF n, of lt cur] ih_above_ok[OF n, of lt cur] by auto
    then show ?thesis using n p3[OF nb False]
      by (simp add: ih_up_chain_def Let_def)
  qed
qed

lemma swo_trans: "swo lt \<Longrightarrow> lt a b \<Longrightarrow> lt b c \<Longrightarrow> lt a c"
  unfolding swo_def by blast

lemma ipar_odd: "odd i \<Longrightarrow> ipar (i - 1) = ipar i"
  unfolding ipar_def by (elim oddE) (simp, presburger)

lemma ih_push_inv:
  assumes s: "swo lt" and inv: "iheap_inv lt d"
  shows "\<exists>d'. ih_push lt x d = Inr d' \<and> iheap_inv lt d'"
proof -
  let ?n = "length d"
  let ?e = "d @ [x]"
  have N: "ih_N lt d" and lo: "ih_lo lt 0 d" and hi: "ih_hi lt 0 d"
    using inv by (auto simp: iheap_inv_def)
  have unf: "ih_push lt x d =
      bnd (ih_up_local lt x ?n ?e) (\<lambda>(i, e). bnd (ih_up_chain lt x i e) (\<lambda>(i, e). wr e i x))"
    by (simp add: ih_push_def push_back_def ih_bubble_up_def Let_def)
  have fin: "\<exists>d'. ih_push lt x d = Inr d' \<and> iheap_inv lt d'"
    if l: "ih_up_local lt x ?n ?e = Inr (i, e)"
      and c: "\<exists>i2 d2. ih_up_chain lt x i e = Inr (i2, d2) \<and> i2 < length d2 \<and> iheap_inv lt (d2[i2 := x])"
    for i e
  proof -
    from c obtain i2 d2 where "ih_up_chain lt x i e = Inr (i2, d2)" "i2 < length d2"
      "iheap_inv lt (d2[i2 := x])" by blast
    then show ?thesis using l unf by simp
  qed
  have pN: "\<not> lt (d ! (ipar ?n + 1)) (d ! ipar ?n)" if "2 \<le> ?n"
    using ih_ND[OF N, of "ipar ?n + 1"] ipar_less[OF that] by simp
  show ?thesis
  proof (cases "odd ?n \<and> lt x (d ! (?n - 1))")
    case True
    then have n1: "1 \<le> ?n" "?n - 1 < ?n" by (auto elim: oddE)
    let ?m = "d ! (?n - 1)"
    let ?e1 = "d @ [?m]"
    let ?i = "?n - 1"
    have l: "ih_up_local lt x ?n ?e = Inr (?i, ?e1)"
      using True n1 by (simp add: ih_up_local_def is_max_odd nth_append)
    have pm: "\<not> lt ?m (d ! ipar ?n) \<and> \<not> lt (d ! (ipar ?n + 1)) ?m" if "2 \<le> ?n"
    proof -
      have "2 \<le> ?n - 1" using that True by (auto elim: oddE)
      then show ?thesis using ih_loD[OF lo, of ?i] ih_hiD[OF hi, of ?i] ipar_odd[of ?n] True n1
        by simp
    qed
    have v1: "iheap_inv lt ?e1"
      using ih_append[OF s inv, of ?m] pm swo_irrefl[OF s] by blast
    have ev: "even ?i" using True n1 by auto
    have il: "?i < length ?e1" by simp
    have ei: "?e1 ! ?i = ?m" using n1 by (simp add: nth_append)
    have c: "\<not> lt (?e1 ! ?i) x" using True swo_asym[OF s] ei by simp
    have "\<exists>i2 d2. ih_up_chain lt x ?i ?e1 = Inr (i2, d2) \<and> i2 < length d2 \<and>
            iheap_inv lt (d2[i2 := x])"
    proof (rule ih_up_chain_inv[OF s il])
      assume a: "1 < ?i \<and> lt x (?e1 ! ipar ?i)"
      have "\<not> lt (?e1 ! ?i) (?e1 ! ipar ?i)"
        using ih_loD[of lt 0 ?e1 ?i] v1 a by (simp add: iheap_inv_def)
      from ih_min_exit[OF s v1 ev il this] swo_irrefl[OF s]
      show "iheap_inv lt (?e1[?i := ?e1 ! ipar ?i])" by blast
    next
      assume a: "1 < ?i \<and> lt (?e1 ! (ipar ?i + 1)) x"
      then have "lt (?e1 ! (ipar ?i + 1)) ?m" using swo_trans[OF s] True by blast
      moreover have "\<not> lt (?e1 ! (ipar ?i + 1)) (?e1 ! ?i)"
        using ih_hiD[of lt 0 ?e1 ?i] v1 a by (simp add: iheap_inv_def)
      ultimately have False using ei by simp
      then show "iheap_inv lt (?e1[?i := ?e1 ! (ipar ?i + 1)])" ..
    next
      assume "\<not> (1 < ?i \<and> lt x (?e1 ! ipar ?i))"
      then have "?i < 2 \<or> \<not> lt x (?e1 ! ipar ?i)" by linarith
      from ih_min_exit[OF s v1 ev il c this] show "iheap_inv lt (?e1[?i := x])" .
    qed
    from fin[OF l this] show ?thesis .
  next
    case False
    have l: "ih_up_local lt x ?n ?e = Inr (?n, ?e)"
    proof (cases "odd ?n")
      case True
      then have "1 \<le> ?n" "?n - 1 < ?n" by (auto elim: oddE)
      then show ?thesis using False True by (simp add: ih_up_local_def is_max_odd nth_append)
    next
      case False
      then show ?thesis by (simp add: ih_up_local_def is_max_odd)
    qed
    have il: "?n < length ?e" by simp
    have pe: "?e ! ipar ?n = d ! ipar ?n" "?e ! (ipar ?n + 1) = d ! (ipar ?n + 1)" if "1 < ?n"
      using ipar_less[of ?n] that by (simp_all add: nth_append)
    have od: "\<not> lt (d ! (?n - 1)) (d ! ipar ?n) \<and> \<not> lt (d ! (ipar ?n + 1)) (d ! (?n - 1))"
      if "odd ?n" "1 < ?n"
    proof -
      have "2 \<le> ?n - 1" "?n - 1 < ?n" using that by (auto elim: oddE)
      then show ?thesis using ih_loD[OF lo, of "?n - 1"] ih_hiD[OF hi, of "?n - 1"] ipar_odd[OF that(1)]
        by simp
    qed
    have "\<exists>i2 d2. ih_up_chain lt x ?n ?e = Inr (i2, d2) \<and> i2 < length d2 \<and>
            iheap_inv lt (d2[i2 := x])"
    proof (rule ih_up_chain_inv[OF s il])
      assume a: "1 < ?n \<and> lt x (?e ! ipar ?n)"
      have ev: "even ?n"
      proof (rule ccontr)
        assume o: "odd ?n"
        then have "\<not> lt x (d ! (?n - 1))" using False by simp
        with od[OF o] a have "\<not> lt x (d ! ipar ?n)" using swo_le_trans[OF s] by blast
        then show False using a pe by simp
      qed
      have "iheap_inv lt (d @ [d ! ipar ?n])"
        using ih_append[OF s inv, of "d ! ipar ?n"] ev pN a swo_irrefl[OF s] by auto
      then show "iheap_inv lt (?e[?n := ?e ! ipar ?n])" using pe a by simp
    next
      assume a: "1 < ?n \<and> lt (?e ! (ipar ?n + 1)) x"
      have "iheap_inv lt (d @ [d ! (ipar ?n + 1)])"
        using ih_append[OF s inv, of "d ! (ipar ?n + 1)"] od pN a swo_irrefl[OF s] by auto
      then show "iheap_inv lt (?e[?n := ?e ! (ipar ?n + 1)])" using pe a by simp
    next
      assume a: "\<not> (1 < ?n \<and> lt x (?e ! ipar ?n))" "\<not> (1 < ?n \<and> lt (?e ! (ipar ?n + 1)) x)"
      have "2 \<le> ?n \<longrightarrow> \<not> lt x (d ! ipar ?n) \<and> \<not> lt (d ! (ipar ?n + 1)) x"
        using a pe by auto
      then have "iheap_inv lt (d @ [x])"
        using ih_append[OF s inv, of x] False by blast
      then show "iheap_inv lt (?e[?n := x])" by simp
    qed
    from fin[OF l this] show ?thesis .
  qed
qed

lemma ipar_child_iff:
  "even idx \<Longrightarrow> 2 \<le> i \<Longrightarrow> (ipar i = idx) = (2 * idx + 2 \<le> i \<and> i \<le> 2 * idx + 5)"
  unfolding ipar_def by (elim evenE) (simp, presburger)

lemma ipar_children:
  "even idx \<Longrightarrow> ipar (2 * idx + 2) = idx \<and> ipar (2 * idx + 3) = idx \<and>
                 ipar (2 * idx + 4) = idx \<and> ipar (2 * idx + 5) = idx"
  using ipar_child_iff[of idx] by simp

definition ih_lo_ex :: "('a \<Rightarrow> 'a \<Rightarrow> bool) \<Rightarrow> nat \<Rightarrow> nat \<Rightarrow> 'a list \<Rightarrow> bool" where
  "ih_lo_ex lt k idx d =
     (\<forall>i<length d. 2 \<le> i \<and> k \<le> ipar i \<and> ipar i \<noteq> idx \<longrightarrow> \<not> lt (d ! i) (d ! ipar i))"

definition dmin_inv :: "('a \<Rightarrow> 'a \<Rightarrow> bool) \<Rightarrow> nat \<Rightarrow> nat \<Rightarrow> 'a list \<Rightarrow> bool" where
  "dmin_inv lt k idx d =
     (even idx \<and> k \<le> idx \<and> idx < length d \<and> ih_N lt d \<and> ih_hi lt k d \<and> ih_lo_ex lt k idx d \<and>
      (2 \<le> idx \<and> k \<le> ipar idx \<longrightarrow>
         (\<forall>c<length d. 2 \<le> c \<and> ipar c = idx \<longrightarrow> \<not> lt (d ! c) (d ! ipar idx))))"

lemma ih_lo_exD:
  "ih_lo_ex lt k idx d \<Longrightarrow> i < length d \<Longrightarrow> 2 \<le> i \<Longrightarrow> k \<le> ipar i \<Longrightarrow> ipar i \<noteq> idx \<Longrightarrow>
   \<not> lt (d ! i) (d ! ipar i)"
  by (simp add: ih_lo_ex_def)

lemma ih_sc_cases:
  "2 * idx + 2 < length d \<Longrightarrow>
   ih_sc lt d idx = 2 * idx + 2 \<or> (ih_sc lt d idx = 2 * idx + 4 \<and> 2 * idx + 4 < length d)"
  by (simp add: ih_sc_def)

lemma ih_sc_least:
  assumes "swo lt" "s = 2 * idx + 2 \<or> s = 2 * idx + 4" "s < length d"
  shows "\<not> lt (d ! s) (d ! ih_sc lt d idx)"
  using assms swo_irrefl[OF assms(1)] swo_asym[OF assms(1)]
  by (auto simp: ih_sc_def)

lemma ih_min_swap_nth:
  assumes "idx < c" "c < length d" "c = ih_sc lt d idx"
  shows "ih_min_swap lt d idx ! idx = d ! c"
    and "\<And>i. i < length d \<Longrightarrow> i \<noteq> idx \<Longrightarrow> i \<noteq> c \<Longrightarrow> i \<noteq> c + 1 \<Longrightarrow> ih_min_swap lt d idx ! i = d ! i"
    and "c + 1 < length d \<Longrightarrow> lt (d ! (c + 1)) (d ! idx) \<Longrightarrow>
           ih_min_swap lt d idx ! c = d ! (c + 1) \<and> ih_min_swap lt d idx ! (c + 1) = d ! idx"
    and "\<not> (c + 1 < length d \<and> lt (d ! (c + 1)) (d ! idx)) \<Longrightarrow>
           ih_min_swap lt d idx ! c = d ! idx \<and>
           (c + 1 < length d \<longrightarrow> ih_min_swap lt d idx ! (c + 1) = d ! (c + 1))"
  using assms by (auto simp: ih_min_swap_def Let_def swp_def nth_list_update)

lemma dmin_step_core:
  assumes s: "swo lt" and inv: "dmin_inv lt k idx d"
    and c: "c = 2 * idx + 2 \<or> c = 2 * idx + 4" and cn: "c < length d"
    and least: "\<And>s. s = 2 * idx + 2 \<or> s = 2 * idx + 4 \<Longrightarrow> s < length d \<Longrightarrow> \<not> lt (d ! s) (d ! c)"
    and lt: "lt (d ! c) (d ! idx)"
    and len: "length d' = length d"
    and v0: "d' ! idx = d ! c"
    and vo: "\<And>i. i < length d \<Longrightarrow> i \<noteq> idx \<Longrightarrow> i \<noteq> c \<Longrightarrow> i \<noteq> c + 1 \<Longrightarrow> d' ! i = d ! i"
    and v1: "c + 1 < length d \<Longrightarrow> lt (d ! (c + 1)) (d ! idx) \<Longrightarrow>
               d' ! c = d ! (c + 1) \<and> d' ! (c + 1) = d ! idx"
    and v2: "\<not> (c + 1 < length d \<and> lt (d ! (c + 1)) (d ! idx)) \<Longrightarrow>
               d' ! c = d ! idx \<and> (c + 1 < length d \<longrightarrow> d' ! (c + 1) = d ! (c + 1))"
  shows "dmin_inv lt k c d'"
proof -
  let ?n = "length d"
  let ?v = "d ! idx" and ?m = "d ! c"
  have ev: "even idx" and k: "k \<le> idx" and n: "idx < ?n" and N: "ih_N lt d" and hi: "ih_hi lt k d"
    and lo: "ih_lo_ex lt k idx d"
    and D: "\<And>g. 2 \<le> idx \<Longrightarrow> k \<le> ipar idx \<Longrightarrow> g < ?n \<Longrightarrow> 2 \<le> g \<Longrightarrow> ipar g = idx \<Longrightarrow>
              \<not> lt (d ! g) (d ! ipar idx)"
    using inv by (auto simp: dmin_inv_def)
  have cev: "even c" and ic: "idx < c" and c2: "2 \<le> c" using c by auto
  have "2 * idx + 2 \<le> c \<and> c \<le> 2 * idx + 5" "2 * idx + 2 \<le> c + 1 \<and> c + 1 \<le> 2 * idx + 5"
    using c by linarith+
  then have pc: "ipar c = idx" "ipar (c + 1) = idx"
    using ipar_child_iff[OF ev, of c] ipar_child_iff[OF ev, of "c + 1"] c2 by simp_all
  have i1: "idx + 1 < ?n" using ic cn by simp
  have "odd (idx + 1)" using ev by simp
  then have "idx + 1 \<noteq> c" using cev by metis
  then have top: "d' ! (idx + 1) = d ! (idx + 1)" using vo[of "idx + 1"] i1 ic by simp
  have tr: "\<And>a b c. \<not> lt b a \<Longrightarrow> \<not> lt c b \<Longrightarrow> \<not> lt c a" using swo_le_trans[OF s] by blast
  have asym: "\<And>a b. lt a b \<Longrightarrow> \<not> lt b a" using swo_asym[OF s] by blast
  have irr: "\<And>a. \<not> lt a a" using swo_irrefl[OF s] by blast
  \<comment> \<open>facts about the old values\<close>
  have v_top: "\<not> lt (d ! (idx + 1)) ?v" using ih_ND[OF N i1] ev by simp
  have m_top: "\<not> lt (d ! (idx + 1)) ?m" using ih_hiD[OF hi cn c2] pc k by simp
  have M_top: "\<not> lt (d ! (idx + 1)) (d ! (c + 1))" if "c + 1 < ?n"
    using ih_hiD[OF hi that] pc k c2 by simp
  have m_M: "\<not> lt (d ! (c + 1)) ?m" if "c + 1 < ?n" using ih_ND[OF N that] cev by simp
  \<comment> \<open>the new values at the child node\<close>
  have nc: "(d' ! c = ?v \<or> (c + 1 < ?n \<and> d' ! c = d ! (c + 1)))"
    using v1 v2 by blast
  have nc1: "d' ! (c + 1) = ?v \<or> d' ! (c + 1) = d ! (c + 1)" if "c + 1 < ?n"
    using v1 v2 that by blast
  have m_nc: "\<not> lt (d' ! c) ?m" using nc asym[OF lt] m_M by auto
  have m_nc1: "\<not> lt (d' ! (c + 1)) ?m" if "c + 1 < ?n"
    using nc1[OF that] asym[OF lt] m_M[OF that] by auto
  have nc_top: "\<not> lt (d ! (idx + 1)) (d' ! c)" using nc v_top M_top by auto
  have nc1_top: "\<not> lt (d ! (idx + 1)) (d' ! (c + 1))" if "c + 1 < ?n"
    using nc1[OF that] v_top M_top[OF that] by auto
  have node: "\<not> lt (d' ! (c + 1)) (d' ! c)" if "c + 1 < ?n"
  proof (cases "lt (d ! (c + 1)) ?v")
    case True
    then show ?thesis using v1[OF that True] asym by simp
  next
    case False
    then show ?thesis using v2 that by simp
  qed
  have N': "ih_N lt d'" unfolding ih_N_def len
  proof (intro allI impI)
    fix i assume i: "i < ?n" "odd i"
    then have e1: "even (i - 1)" "1 \<le> i" by (auto elim: oddE)
    have "odd (c + 1)" using cev by simp
    then have "i - 1 \<noteq> c + 1" using e1(1) by metis
    then have i0: "1 \<le> i" "i \<noteq> idx" "i \<noteq> c" "i - 1 \<noteq> c + 1" "i - 1 < ?n"
      using ev cev i e1 by auto
    consider "i = c + 1" | "i = idx + 1" | "i \<noteq> c + 1" "i \<noteq> idx + 1" by blast
    then show "\<not> lt (d' ! i) (d' ! (i - 1))"
    proof cases
      case 1
      then show ?thesis using node i by simp
    next
      case 2
      then show ?thesis using top v0 m_top by simp
    next
      case 3
      then have "i - 1 \<noteq> idx" "i - 1 \<noteq> c" using i0 by auto
      then have "d' ! i = d ! i" "d' ! (i - 1) = d ! (i - 1)"
        using vo[of i] vo[of "i - 1"] i i0 3 by auto
      then show ?thesis using ih_ND[OF N i] by simp
    qed
  qed
  have hi': "ih_hi lt k d'" unfolding ih_hi_def len
  proof (intro allI impI)
    fix i assume i: "i < ?n" "2 \<le> i \<and> k \<le> ipar i"
    then have p: "ipar i + 1 < i" "ipar i + 1 \<noteq> idx" "ipar i + 1 \<noteq> c" "ipar i + 1 < ?n"
      using ipar_less[of i] ev cev by auto
    have old: "\<not> lt (d ! (ipar i + 1)) (d ! i)" using ih_hiD[OF hi] i by simp
    consider "i = idx" | "i = c" | "i = c + 1" | "i \<noteq> idx" "i \<noteq> c" "i \<noteq> c + 1" by blast
    then show "\<not> lt (d' ! (ipar i + 1)) (d' ! i)"
    proof cases
      case 1
      then have "ipar i + 1 \<noteq> c + 1" using p ic by simp
      then have e: "d' ! (ipar i + 1) = d ! (ipar idx + 1)" using vo[of "ipar i + 1"] p 1 by simp
      have "ipar (idx + 1) = ipar idx" using ipar_odd[of "idx + 1"] ev by simp
      then have "\<not> lt (d ! (ipar idx + 1)) (d ! (idx + 1))"
        using ih_hiD[OF hi i1] i 1 by simp
      then have "\<not> lt (d ! (ipar idx + 1)) ?m" using tr[OF m_top] by blast
      then show ?thesis using e 1 v0 by simp
    next
      case 2
      then show ?thesis using top pc nc_top by simp
    next
      case 3
      then show ?thesis using top pc nc1_top i by simp
    next
      case 4
      then have ei: "d' ! i = d ! i" using vo i by simp
      show ?thesis
      proof (cases "ipar i + 1 = c + 1")
        case True
        then have c1: "c + 1 < ?n" using p by simp
        show ?thesis
        proof (cases "lt (d ! (c + 1)) ?v")
          case b: True
          have "\<not> lt ?v (d ! i)"
          proof
            assume "lt ?v (d ! i)"
            then have "lt (d ! (c + 1)) (d ! i)" using swo_trans[OF s b] by blast
            then show False using old True by simp
          qed
          then show ?thesis using v1[OF c1 b] True ei by simp
        next
          case False
          then show ?thesis using v2 c1 True ei old by simp
        qed
      next
        case False
        then have "d' ! (ipar i + 1) = d ! (ipar i + 1)" using vo[of "ipar i + 1"] p by simp
        then show ?thesis using ei old by simp
      qed
    qed
  qed
  have lo': "ih_lo_ex lt k c d'" unfolding ih_lo_ex_def len
  proof (intro allI impI)
    fix i assume i: "i < ?n" "2 \<le> i \<and> k \<le> ipar i \<and> ipar i \<noteq> c"
    have "odd (c + 1)" using cev by simp
    then have "ipar i \<noteq> c + 1" using ipar_even[of i] by metis
    then have p: "ipar i + 1 < i" "ipar i < ?n" "ipar i \<noteq> c + 1"
      using ipar_less[of i] i by auto
    consider "i = idx" | "i \<noteq> idx" "ipar i = idx" | "i \<noteq> idx" "ipar i \<noteq> idx" by blast
    then show "\<not> lt (d' ! i) (d' ! ipar i)"
    proof cases
      case 1
      then have "ipar idx \<noteq> idx" "ipar idx \<noteq> c" "ipar idx \<noteq> c + 1" using p ic by auto
      then have "d' ! ipar idx = d ! ipar idx" using vo[of "ipar idx"] p 1 by simp
      moreover have "\<not> lt ?m (d ! ipar idx)" using D[of c] i 1 cn c2 pc by simp
      ultimately show ?thesis using 1 v0 by simp
    next
      case 2
      then have r: "2 * idx + 2 \<le> i \<and> i \<le> 2 * idx + 5" using ipar_child_iff[OF ev, of i] i by simp
      consider "i = c" | "i = c + 1" | "i \<noteq> c" "i \<noteq> c + 1" by blast
      then have "\<not> lt (d' ! i) ?m"
      proof cases
        case 1
        then show ?thesis using m_nc by simp
      next
        case 2
        then show ?thesis using m_nc1 i by simp
      next
        case 3
        then have ei: "d' ! i = d ! i" using vo[of i] i 2 by simp
        show ?thesis
        proof (cases "even i")
          case True
          then have "i = 2 * idx + 2 \<or> i = 2 * idx + 4" using r by presburger
          then show ?thesis using least[of i] i ei by simp
        next
          case False
          then have "i - 1 = 2 * idx + 2 \<or> i - 1 = 2 * idx + 4" using r by presburger
          then have "\<not> lt (d ! (i - 1)) ?m" using least[of "i - 1"] i by simp
          then show ?thesis using tr[OF _ ih_ND[OF N i(1)]] False ei by auto
        qed
      qed
      then show ?thesis using 2 v0 by simp
    next
      case 3
      then have "i \<noteq> c" "i \<noteq> c + 1" using pc by auto
      then have "d' ! i = d ! i" "d' ! ipar i = d ! ipar i"
        using vo[of i] vo[of "ipar i"] i p 3 by auto
      then show ?thesis using ih_lo_exD[OF lo i(1)] i 3 by simp
    qed
  qed
  have D': "\<forall>g<?n. 2 \<le> g \<and> ipar g = c \<longrightarrow> \<not> lt (d' ! g) (d' ! ipar c)"
  proof (intro allI impI)
    fix g assume g: "g < ?n" "2 \<le> g \<and> ipar g = c"
    then have "c + 1 < g" using ipar_less[of g] by simp
    then have "d' ! g = d ! g" using vo[of g] g ic by simp
    moreover have "\<not> lt (d ! g) (d ! c)" using ih_lo_exD[OF lo g(1)] g k ic by simp
    ultimately show "\<not> lt (d' ! g) (d' ! ipar c)" using pc v0 by simp
  qed
  show ?thesis unfolding dmin_inv_def len using cev k ic cn N' hi' lo' D' by simp
qed

lemma dmin_step:
  assumes s: "swo lt" and inv: "dmin_inv lt k idx d" and ch: "2 * idx + 2 < length d"
    and lt: "lt (d ! ih_sc lt d idx) (d ! idx)"
  shows "dmin_inv lt k (ih_sc lt d idx) (ih_min_swap lt d idx)"
proof -
  let ?c = "ih_sc lt d idx"
  have c: "?c = 2 * idx + 2 \<or> ?c = 2 * idx + 4" using ih_sc_cases[OF ch, of lt] by blast
  have cn: "?c < length d" "idx < ?c" using ih_sc_bounds[OF ch, of lt] by auto
  note v = ih_min_swap_nth[OF cn(2) cn(1) refl]
  show ?thesis
    by (rule dmin_step_core[OF s inv c cn(1) ih_sc_least[OF s] lt _ v(1) v(2) v(3) v(4)]) simp_all
qed

lemma dmin_exit:
  assumes s: "swo lt" and inv: "dmin_inv lt k idx d"
    and x: "2 * idx + 2 < length d \<longrightarrow> \<not> lt (d ! ih_sc lt d idx) (d ! idx)"
  shows "ih_N lt d \<and> ih_hi lt k d \<and> ih_lo lt k d"
proof -
  have ev: "even idx" and N: "ih_N lt d" and hi: "ih_hi lt k d" and lo: "ih_lo_ex lt k idx d"
    using inv by (auto simp: dmin_inv_def)
  have "ih_lo lt k d" unfolding ih_lo_def
  proof (intro allI impI)
    fix i assume i: "i < length d" "2 \<le> i \<and> k \<le> ipar i"
    show "\<not> lt (d ! i) (d ! ipar i)"
    proof (cases "ipar i = idx")
      case True
      then have r: "2 * idx + 2 \<le> i \<and> i \<le> 2 * idx + 5" using ipar_child_iff[OF ev, of i] i by simp
      then have ch: "2 * idx + 2 < length d" using i
        by (cases "i = 2 * idx + 2") auto
      then have a: "\<not> lt (d ! ih_sc lt d idx) (d ! idx)" using x by simp
      have b: "\<not> lt (d ! j) (d ! idx)" if "j = 2 * idx + 2 \<or> j = 2 * idx + 4" "j < length d" for j
        using swo_le_trans[OF s a ih_sc_least[OF s that]] .
      show ?thesis
      proof (cases "even i")
        case e: True
        then have "i = 2 * idx + 2 \<or> i = 2 * idx + 4" using r by presburger
        then show ?thesis using b[of i] i True by simp
      next
        case False
        then have "i - 1 = 2 * idx + 2 \<or> i - 1 = 2 * idx + 4" using r by presburger
        then have "\<not> lt (d ! (i - 1)) (d ! idx)" using b[of "i - 1"] i by simp
        then show ?thesis using swo_le_trans[OF s _ ih_ND[OF N i(1)]] False True by auto
      qed
    next
      case False
      then show ?thesis using ih_lo_exD[OF lo i(1)] i by simp
    qed
  qed
  then show ?thesis using N hi by simp
qed

lemma ih_bubble_down_min_inv:
  assumes s: "swo lt" and inv: "dmin_inv lt k idx d"
  shows "\<exists>d'. ih_bubble_down_min lt idx d = Inr d' \<and> ih_N lt d' \<and> ih_hi lt k d' \<and> ih_lo lt k d'"
proof -
  let ?I = "\<lambda>i e. dmin_inv lt k i e"
  have n: "idx < length d" "even idx" using inv by (auto simp: dmin_inv_def)
  have "\<exists>idx' d'. ih_bubble_down_min_loop lt (length d) idx d = Inr d' \<and> ?I idx' d' \<and>
           length d' = length d \<and> idx' < length d \<and>
           (2 * idx' + 2 < length d \<longrightarrow> \<not> lt (d' ! ih_sc lt d' idx') (d' ! idx'))"
  proof (rule ih_bubble_down_min_loop_rule[where I = ?I])
    show "length d = length d" "idx < length d" "?I idx d" using n inv by simp_all
    fix i e assume "length e = length d" "?I i e" "2 * i + 2 < length d" "lt (e ! ih_sc lt e i) (e ! i)"
    then show "?I (ih_sc lt e i) (ih_min_swap lt e i)" using dmin_step[OF s, of k i e] by simp
  qed
  then obtain idx' d' where r: "ih_bubble_down_min_loop lt (length d) idx d = Inr d'"
    "dmin_inv lt k idx' d'" "length d' = length d"
    "2 * idx' + 2 < length d' \<longrightarrow> \<not> lt (d' ! ih_sc lt d' idx') (d' ! idx')" by auto
  from dmin_exit[OF s r(2) r(4)] r(1) n show ?thesis
    by (simp add: ih_bubble_down_min_def is_min_even)
qed

definition ih_hi_ex :: "('a \<Rightarrow> 'a \<Rightarrow> bool) \<Rightarrow> nat \<Rightarrow> nat \<Rightarrow> 'a list \<Rightarrow> bool" where
  "ih_hi_ex lt k idx d =
     (\<forall>i<length d. 2 \<le> i \<and> k \<le> ipar i \<and> ipar i \<noteq> idx \<longrightarrow> \<not> lt (d ! (ipar i + 1)) (d ! i))"

definition dmax_inv :: "('a \<Rightarrow> 'a \<Rightarrow> bool) \<Rightarrow> nat \<Rightarrow> nat \<Rightarrow> nat \<Rightarrow> 'a list \<Rightarrow> bool" where
  "dmax_inv lt kl ku idx d =
     (even idx \<and> ku \<le> idx \<and> idx < length d \<and> ih_N lt d \<and> ih_lo lt kl d \<and> ih_hi_ex lt ku idx d \<and>
      (2 \<le> idx \<and> ku \<le> ipar idx \<longrightarrow>
         (\<forall>c<length d. 2 \<le> c \<and> ipar c = idx \<longrightarrow> \<not> lt (d ! (ipar idx + 1)) (d ! c))))"

lemma ih_hi_exD:
  "ih_hi_ex lt k idx d \<Longrightarrow> i < length d \<Longrightarrow> 2 \<le> i \<Longrightarrow> k \<le> ipar i \<Longrightarrow> ipar i \<noteq> idx \<Longrightarrow>
   \<not> lt (d ! (ipar i + 1)) (d ! i)"
  by (simp add: ih_hi_ex_def)

lemma nlt_up: "swo lt \<Longrightarrow> \<not> lt v p \<Longrightarrow> lt v M \<Longrightarrow> \<not> lt M p"
  using swo_trans by fastforce

lemma nlt_down: "swo lt \<Longrightarrow> \<not> lt x m \<Longrightarrow> lt v m \<Longrightarrow> \<not> lt x v"
  using swo_trans by fastforce

lemma dmax_step_core:
  assumes s: "swo lt" and inv: "dmax_inv lt kl ku idx d" and klu: "kl \<le> ku + 2"
    and c: "c = 2 * idx + 2 \<or> c = 2 * idx + 4" and cn: "c < length d"
    and c1: "c1 = (if c + 1 < length d then c + 1 else c)"
    and most: "\<And>s. s = 2 * idx + 2 \<or> s = 2 * idx + 4 \<Longrightarrow> s < length d \<Longrightarrow>
                 \<not> lt (d ! c1) (d ! (if s + 1 < length d then s + 1 else s))"
    and lt: "lt (d ! (idx + 1)) (d ! c1)"
    and len: "length d' = length d"
    and v0: "d' ! (idx + 1) = d ! c1"
    and vo: "\<And>i. i < length d \<Longrightarrow> i \<noteq> idx + 1 \<Longrightarrow> i \<noteq> c \<Longrightarrow> i \<noteq> c + 1 \<Longrightarrow> d' ! i = d ! i"
    and vl: "\<not> c + 1 < length d \<Longrightarrow> d' ! c = d ! (idx + 1)"
    and v1: "c + 1 < length d \<Longrightarrow> lt (d ! (idx + 1)) (d ! c) \<Longrightarrow>
               d' ! c = d ! (idx + 1) \<and> d' ! (c + 1) = d ! c"
    and v2: "c + 1 < length d \<Longrightarrow> \<not> lt (d ! (idx + 1)) (d ! c) \<Longrightarrow>
               d' ! c = d ! c \<and> d' ! (c + 1) = d ! (idx + 1)"
  shows "dmax_inv lt kl ku c d'"
proof -
  let ?n = "length d"
  let ?v = "d ! (idx + 1)" and ?M = "d ! c1"
  have ev: "even idx" and k: "ku \<le> idx" and n: "idx < ?n" and N: "ih_N lt d" and lo: "ih_lo lt kl d"
    and hi: "ih_hi_ex lt ku idx d"
    and U: "\<And>g. 2 \<le> idx \<Longrightarrow> ku \<le> ipar idx \<Longrightarrow> g < ?n \<Longrightarrow> 2 \<le> g \<Longrightarrow> ipar g = idx \<Longrightarrow>
              \<not> lt (d ! (ipar idx + 1)) (d ! g)"
    using inv by (auto simp: dmax_inv_def)
  have cev: "even c" and ic: "idx < c" "idx + 1 < c" and c2: "2 \<le> c" using c by auto
  have "2 * idx + 2 \<le> c \<and> c \<le> 2 * idx + 5" "2 * idx + 2 \<le> c + 1 \<and> c + 1 \<le> 2 * idx + 5"
    using c by linarith+
  then have pc: "ipar c = idx" "ipar (c + 1) = idx"
    using ipar_child_iff[OF ev, of c] ipar_child_iff[OF ev, of "c + 1"] c2 by simp_all
  have pc1: "ipar c1 = idx" "c1 < ?n" "2 \<le> c1" using pc c1 cn c2 by auto
  have i1: "idx + 1 < ?n" using ic cn by simp
  have klc: "kl \<le> c" using klu k ic by simp
  have oi: "odd (idx + 1)" and oc: "odd (c + 1)" using ev cev by simp_all
  have idxv: "d' ! idx = d ! idx" using vo[of idx] n ic by simp
  have tr: "\<And>a b c. \<not> lt b a \<Longrightarrow> \<not> lt c b \<Longrightarrow> \<not> lt c a" using swo_le_trans[OF s] by blast
  have asym: "\<And>a b. lt a b \<Longrightarrow> \<not> lt b a" using swo_asym[OF s] by blast
  \<comment> \<open>facts about the old values\<close>
  have v_bot: "\<not> lt ?v (d ! idx)" using ih_ND[OF N i1] ev by simp
  have M_bot: "\<not> lt ?M (d ! idx)" using nlt_up[OF s v_bot lt] .
  have m_M: "\<not> lt ?M (d ! c)"
    using ih_ND[OF N, of "c + 1"] c1 cev swo_irrefl[OF s] by (cases "c + 1 < ?n") auto
  \<comment> \<open>the new values at the child node\<close>
  have nc: "d' ! c = ?v \<or> d' ! c = d ! c" using vl v1 v2 by blast
  have nc1: "d' ! (c + 1) = ?v \<or> d' ! (c + 1) = d ! c" if "c + 1 < ?n" using v1 v2 that by blast
  have nc_M: "\<not> lt ?M (d' ! c)" using nc asym[OF lt] m_M by auto
  have nc1_M: "\<not> lt ?M (d' ! (c + 1))" if "c + 1 < ?n" using nc1[OF that] asym[OF lt] m_M by auto
  have c_bot: "\<not> lt (d ! c) (d ! idx)" if "kl \<le> idx" using ih_loD[OF lo cn c2] pc that by simp
  have nc_bot: "\<not> lt (d' ! c) (d ! idx)" if "kl \<le> idx" using nc v_bot c_bot[OF that] by auto
  have nc1_bot: "\<not> lt (d' ! (c + 1)) (d ! idx)" if "kl \<le> idx" "c + 1 < ?n"
    using nc1[OF that(2)] v_bot c_bot[OF that(1)] by auto
  have node: "\<not> lt (d' ! (c + 1)) (d' ! c)" if "c + 1 < ?n"
  proof (cases "lt ?v (d ! c)")
    case True
    then show ?thesis using v1[OF that True] asym by simp
  next
    case False
    then show ?thesis using v2[OF that False] by simp
  qed
  have N': "ih_N lt d'" unfolding ih_N_def len
  proof (intro allI impI)
    fix i assume i: "i < ?n" "odd i"
    then have e1: "even (i - 1)" "1 \<le> i" "i - 1 < ?n" by (auto elim: oddE)
    have "i - 1 \<noteq> c + 1" "i - 1 \<noteq> idx + 1" "i \<noteq> c" using e1(1) oc oi i(2) cev by metis+
    note ne = this
    consider "i = c + 1" | "i = idx + 1" | "i \<noteq> c + 1" "i \<noteq> idx + 1" by blast
    then show "\<not> lt (d' ! i) (d' ! (i - 1))"
    proof cases
      case 1
      then show ?thesis using node i by simp
    next
      case 2
      then show ?thesis using v0 idxv M_bot by simp
    next
      case 3
      then have "i - 1 \<noteq> c" using e1 by auto
      then have "d' ! i = d ! i" "d' ! (i - 1) = d ! (i - 1)"
        using vo[of i] vo[of "i - 1"] i e1 ne 3 by auto
      then show ?thesis using ih_ND[OF N i] by simp
    qed
  qed
  have lo': "ih_lo lt kl d'" unfolding ih_lo_def len
  proof (intro allI impI)
    fix i assume i: "i < ?n" "2 \<le> i \<and> kl \<le> ipar i"
    have "ipar i \<noteq> c + 1" "ipar i \<noteq> idx + 1" using ipar_even[of i] oc oi by metis+
    then have p: "ipar i + 1 < i" "ipar i < ?n" "ipar i \<noteq> c + 1" "ipar i \<noteq> idx + 1"
      using ipar_less[of i] i by auto
    have old: "\<not> lt (d ! i) (d ! ipar i)" using ih_loD[OF lo i(1)] i by simp
    consider "i = idx + 1" | "i = c" | "i = c + 1" | "i \<noteq> idx + 1" "i \<noteq> c" "i \<noteq> c + 1" by blast
    then show "\<not> lt (d' ! i) (d' ! ipar i)"
    proof cases
      case 1
      then have "ipar i \<noteq> c" using p ic by simp
      then have "d' ! ipar i = d ! ipar i" using vo[of "ipar i"] p by simp
      then show ?thesis using 1 v0 nlt_up[OF s _ lt, of "d ! ipar i"] old by simp
    next
      case 2
      then show ?thesis using pc idxv nc_bot i by simp
    next
      case 3
      then show ?thesis using pc idxv nc1_bot i by simp
    next
      case 4
      then have ei: "d' ! i = d ! i" using vo[of i] i by simp
      show ?thesis
      proof (cases "ipar i = c")
        case True
        then have c1n: "c + 1 < ?n" using p i by simp
        show ?thesis
        proof (cases "lt ?v (d ! c)")
          case b: True
          then show ?thesis using v1[OF c1n b] nlt_down[OF s _ b, of "d ! i"] old True ei by simp
        next
          case False
          then show ?thesis using v2[OF c1n False] old True ei by simp
        qed
      next
        case False
        then have "d' ! ipar i = d ! ipar i" using vo[of "ipar i"] p by simp
        then show ?thesis using ei old by simp
      qed
    qed
  qed
  have hi': "ih_hi_ex lt ku c d'" unfolding ih_hi_ex_def len
  proof (intro allI impI)
    fix i assume i: "i < ?n" "2 \<le> i \<and> ku \<le> ipar i \<and> ipar i \<noteq> c"
    have "odd (ipar i + 1)" by simp
    then have "ipar i + 1 \<noteq> c" using cev by metis
    then have p: "ipar i + 1 < i" "ipar i + 1 < ?n" "ipar i + 1 \<noteq> c + 1" "ipar i + 1 \<noteq> c"
      using ipar_less[of i] i by auto
    consider "i = idx + 1" | "ipar i = idx" | "i \<noteq> idx + 1" "ipar i \<noteq> idx" by blast
    then show "\<not> lt (d' ! (ipar i + 1)) (d' ! i)"
    proof cases
      case 1
      then have e: "ipar i = ipar idx" using ipar_odd[OF oi] by simp
      have "ipar i + 1 \<noteq> idx + 1" using p 1 by simp
      then have "d' ! (ipar i + 1) = d ! (ipar idx + 1)" using vo[of "ipar i + 1"] p e by simp
      moreover have "2 \<le> idx" using 1 i ev by auto
      then have "\<not> lt (d ! (ipar idx + 1)) ?M" using U[of c1] pc1 i e by simp
      ultimately show ?thesis using 1 v0 by simp
    next
      case 2
      then have r: "2 * idx + 2 \<le> i \<and> i \<le> 2 * idx + 5" using ipar_child_iff[OF ev, of i] i by simp
      consider "i = c" | "i = c + 1" | "i \<noteq> c" "i \<noteq> c + 1" by blast
      then have "\<not> lt ?M (d' ! i)"
      proof cases
        case 1
        then show ?thesis using nc_M by simp
      next
        case 2
        then show ?thesis using nc1_M i by simp
      next
        case 3
        then have ei: "d' ! i = d ! i" using vo[of i] i r by simp
        show ?thesis
        proof (cases "even i")
          case True
          then have "i = 2 * idx + 2 \<or> i = 2 * idx + 4" using r by presburger
          from most[OF this i(1)] have m: "\<not> lt ?M (d ! (if i + 1 < ?n then i + 1 else i))" .
          show ?thesis
          proof (cases "i + 1 < ?n")
            case t: True
            have "\<not> lt (d ! (i + 1)) (d ! i)" using ih_ND[OF N t] True by simp
            then show ?thesis using tr[OF _ m] t ei by simp
          next
            case False
            then show ?thesis using m ei by simp
          qed
        next
          case False
          then have "i - 1 = 2 * idx + 2 \<or> i - 1 = 2 * idx + 4" using r by presburger
          from most[OF this] i have "\<not> lt ?M (d ! (if i - 1 + 1 < ?n then i - 1 + 1 else i - 1))"
            by simp
          then show ?thesis using i ei by simp
        qed
      qed
      then show ?thesis using 2 v0 by simp
    next
      case 3
      then have "i \<noteq> c" "i \<noteq> c + 1" using pc by auto
      then have "d' ! i = d ! i" "d' ! (ipar i + 1) = d ! (ipar i + 1)"
        using vo[of i] vo[of "ipar i + 1"] i p 3 by auto
      then show ?thesis using ih_hi_exD[OF hi i(1)] i 3 by simp
    qed
  qed
  have U': "\<forall>g<?n. 2 \<le> g \<and> ipar g = c \<longrightarrow> \<not> lt (d' ! (ipar c + 1)) (d' ! g)"
  proof (intro allI impI)
    fix g assume g: "g < ?n" "2 \<le> g \<and> ipar g = c"
    then have cg: "c + 1 < g" using ipar_less[of g] by simp
    then have "d' ! g = d ! g" using vo[of g] g ic by simp
    moreover have "\<not> lt (d ! (c + 1)) (d ! g)" using ih_hi_exD[OF hi g(1)] g k ic by simp
    moreover have "c1 = c + 1" using c1 cg g by simp
    ultimately show "\<not> lt (d' ! (ipar c + 1)) (d' ! g)" using pc v0 by simp
  qed
  show ?thesis unfolding dmax_inv_def len using cev k ic cn N' hi' lo' U' by simp
qed

lemma ih_bc_facts:
  assumes s: "swo lt" and ch: "2 * idx + 2 < length d"
  shows "fst (ih_bc lt d idx) = 2 * idx + 2 \<or> fst (ih_bc lt d idx) = 2 * idx + 4"
    and "fst (ih_bc lt d idx) < length d"
    and "snd (ih_bc lt d idx) =
           (if fst (ih_bc lt d idx) + 1 < length d then fst (ih_bc lt d idx) + 1
            else fst (ih_bc lt d idx))"
    and "\<And>j. j = 2 * idx + 2 \<or> j = 2 * idx + 4 \<Longrightarrow> j < length d \<Longrightarrow>
           \<not> lt (d ! snd (ih_bc lt d idx)) (d ! (if j + 1 < length d then j + 1 else j))"
proof -
  let ?n = "length d"
  define c1 where "c1 = (if 2 * idx + 2 + 1 < ?n then 2 * idx + 2 + 1 else 2 * idx + 2)"
  define c2 where "c2 = (if 2 * idx + 2 + 3 < ?n then 2 * idx + 2 + 3 else 2 * idx + 2 + 2)"
  have e: "ih_bc lt d idx = (if c2 < ?n \<and> lt (d ! c1) (d ! c2) then (2 * idx + 4, c2)
                             else (2 * idx + 2, c1))"
    by (simp add: ih_bc_def Let_def c1_def c2_def)
  have t1: "(if 2 * idx + 2 + 1 < ?n then 2 * idx + 2 + 1 else 2 * idx + 2) = c1"
    by (simp add: c1_def)
  have t2: "(if 2 * idx + 4 + 1 < ?n then 2 * idx + 4 + 1 else 2 * idx + 4) = c2"
    by (simp add: c2_def)
  have c2n: "2 * idx + 4 < ?n \<Longrightarrow> c2 < ?n" by (simp add: c2_def)
  have c2n': "c2 < ?n \<Longrightarrow> 2 * idx + 4 < ?n" by (simp add: c2_def split: if_splits)
  show "fst (ih_bc lt d idx) = 2 * idx + 2 \<or> fst (ih_bc lt d idx) = 2 * idx + 4"
    unfolding e by simp
  show "fst (ih_bc lt d idx) < length d" unfolding e using ch c2n' by simp
  show "snd (ih_bc lt d idx) =
           (if fst (ih_bc lt d idx) + 1 < length d then fst (ih_bc lt d idx) + 1
            else fst (ih_bc lt d idx))"
    unfolding e by (auto simp: c1_def c2_def)
  fix j assume j: "j = 2 * idx + 2 \<or> j = 2 * idx + 4" "j < ?n"
  have tj: "(if j + 1 < ?n then j + 1 else j) = (if j = 2 * idx + 2 then c1 else c2)"
    using j(1) t1 t2 by auto
  show "\<not> lt (d ! snd (ih_bc lt d idx)) (d ! (if j + 1 < ?n then j + 1 else j))"
    unfolding tj
  proof (cases "c2 < ?n \<and> lt (d ! c1) (d ! c2)")
    case True
    then have "snd (ih_bc lt d idx) = c2" using e by auto
    then show "\<not> lt (d ! snd (ih_bc lt d idx)) (d ! (if j = 2 * idx + 2 then c1 else c2))"
      using True swo_asym[OF s] swo_irrefl[OF s] by auto
  next
    case False
    then have sn: "snd (ih_bc lt d idx) = c1" using e by auto
    show "\<not> lt (d ! snd (ih_bc lt d idx)) (d ! (if j = 2 * idx + 2 then c1 else c2))"
    proof (cases "j = 2 * idx + 2")
      case True
      then show ?thesis using sn swo_irrefl[OF s] by simp
    next
      case nj: False
      then have "c2 < ?n" using j c2n by auto
      then show ?thesis using sn False nj by simp
    qed
  qed
qed

lemma ih_max_swap_nth:
  assumes "c1 = snd (ih_bc lt d idx)" "c1 = (if c + 1 < length d then c + 1 else c)"
    "idx + 1 < c" "c < length d" "even c"
  shows "ih_max_swap lt d idx ! (idx + 1) = d ! c1"
    and "\<And>i. i < length d \<Longrightarrow> i \<noteq> idx + 1 \<Longrightarrow> i \<noteq> c \<Longrightarrow> i \<noteq> c + 1 \<Longrightarrow>
           ih_max_swap lt d idx ! i = d ! i"
    and "\<not> c + 1 < length d \<Longrightarrow> ih_max_swap lt d idx ! c = d ! (idx + 1)"
    and "c + 1 < length d \<Longrightarrow> lt (d ! (idx + 1)) (d ! c) \<Longrightarrow>
           ih_max_swap lt d idx ! c = d ! (idx + 1) \<and> ih_max_swap lt d idx ! (c + 1) = d ! c"
    and "c + 1 < length d \<Longrightarrow> \<not> lt (d ! (idx + 1)) (d ! c) \<Longrightarrow>
           ih_max_swap lt d idx ! c = d ! c \<and> ih_max_swap lt d idx ! (c + 1) = d ! (idx + 1)"
proof -
  have e: "ih_max_swap lt d idx =
     (let d1 = swp d (idx + 1) c1
      in if odd c1 \<and> lt (d1 ! c1) (d1 ! (c1 - 1)) then swp d1 c1 (c1 - 1) else d1)"
    using assms(1) by (simp add: ih_max_swap_def Let_def)
  show "ih_max_swap lt d idx ! (idx + 1) = d ! c1"
    unfolding e using assms(2-5) by (auto simp: Let_def swp_def nth_list_update)
  show "\<And>i. i < length d \<Longrightarrow> i \<noteq> idx + 1 \<Longrightarrow> i \<noteq> c \<Longrightarrow> i \<noteq> c + 1 \<Longrightarrow>
           ih_max_swap lt d idx ! i = d ! i"
    unfolding e using assms(2-5) by (auto simp: Let_def swp_def nth_list_update)
  show "\<not> c + 1 < length d \<Longrightarrow> ih_max_swap lt d idx ! c = d ! (idx + 1)"
    unfolding e using assms(2-5) by (auto simp: Let_def swp_def nth_list_update)
  show "c + 1 < length d \<Longrightarrow> lt (d ! (idx + 1)) (d ! c) \<Longrightarrow>
           ih_max_swap lt d idx ! c = d ! (idx + 1) \<and> ih_max_swap lt d idx ! (c + 1) = d ! c"
    unfolding e using assms(2-5) by (auto simp: Let_def swp_def nth_list_update)
  show "c + 1 < length d \<Longrightarrow> \<not> lt (d ! (idx + 1)) (d ! c) \<Longrightarrow>
           ih_max_swap lt d idx ! c = d ! c \<and> ih_max_swap lt d idx ! (c + 1) = d ! (idx + 1)"
    unfolding e using assms(2-5) by (auto simp: Let_def swp_def nth_list_update)
qed

lemma dmax_step:
  assumes s: "swo lt" and inv: "dmax_inv lt kl ku idx d" and klu: "kl \<le> ku + 2"
    and ch: "2 * idx + 2 < length d"
    and lt: "lt (d ! (idx + 1)) (d ! snd (ih_bc lt d idx))"
  shows "dmax_inv lt kl ku (fst (ih_bc lt d idx)) (ih_max_swap lt d idx)"
proof -
  let ?c = "fst (ih_bc lt d idx)" and ?c1 = "snd (ih_bc lt d idx)"
  note f = ih_bc_facts[OF s ch]
  have ce: "even ?c" "idx + 1 < ?c" using f(1) by auto
  note v = ih_max_swap_nth[OF refl f(3) ce(2) f(2) ce(1)]
  show ?thesis
    by (rule dmax_step_core[OF s inv klu f(1) f(2) f(3) f(4) lt _ v(1) v(2) v(3) v(4) v(5)])
       simp_all
qed

lemma dmax_exit:
  assumes s: "swo lt" and inv: "dmax_inv lt kl ku idx d"
    and x: "2 * idx + 2 < length d \<longrightarrow> \<not> lt (d ! (idx + 1)) (d ! snd (ih_bc lt d idx))"
  shows "ih_N lt d \<and> ih_lo lt kl d \<and> ih_hi lt ku d"
proof -
  have ev: "even idx" and N: "ih_N lt d" and lo: "ih_lo lt kl d" and hi: "ih_hi_ex lt ku idx d"
    using inv by (auto simp: dmax_inv_def)
  have "ih_hi lt ku d" unfolding ih_hi_def
  proof (intro allI impI)
    fix i assume i: "i < length d" "2 \<le> i \<and> ku \<le> ipar i"
    show "\<not> lt (d ! (ipar i + 1)) (d ! i)"
    proof (cases "ipar i = idx")
      case True
      then have r: "2 * idx + 2 \<le> i \<and> i \<le> 2 * idx + 5" using ipar_child_iff[OF ev, of i] i by simp
      then have ch: "2 * idx + 2 < length d" using i
        by (cases "i = 2 * idx + 2") auto
      then have a: "\<not> lt (d ! (idx + 1)) (d ! snd (ih_bc lt d idx))" using x by simp
      note f = ih_bc_facts[OF s ch]
      have b: "\<not> lt (d ! (idx + 1)) (d ! (if j + 1 < length d then j + 1 else j))"
        if "j = 2 * idx + 2 \<or> j = 2 * idx + 4" "j < length d" for j
        using swo_le_trans[OF s f(4)[OF that] a] .
      have "\<not> lt (d ! (idx + 1)) (d ! i)"
      proof (cases "even i")
        case e: True
        then have j: "i = 2 * idx + 2 \<or> i = 2 * idx + 4" using r by presburger
        show ?thesis
        proof (cases "i + 1 < length d")
          case t: True
          have "\<not> lt (d ! (i + 1)) (d ! i)" using ih_ND[OF N t] e by simp
          then show ?thesis using swo_le_trans[OF s _ b[OF j i(1)]] t by simp
        next
          case False
          then show ?thesis using b[OF j i(1)] by simp
        qed
      next
        case False
        then have "i - 1 = 2 * idx + 2 \<or> i - 1 = 2 * idx + 4" using r by presburger
        from b[OF this] i show ?thesis by simp
      qed
      then show ?thesis using True by simp
    next
      case False
      then show ?thesis using ih_hi_exD[OF hi i(1)] i by simp
    qed
  qed
  then show ?thesis using N lo by simp
qed

lemma ih_bubble_down_max_inv:
  assumes s: "swo lt" and inv: "dmax_inv lt kl ku idx d" and klu: "kl \<le> ku + 2"
    and n1: "idx + 1 < length d"
  shows "\<exists>d'. ih_bubble_down_max lt (idx + 1) d = Inr d' \<and> ih_N lt d' \<and> ih_lo lt kl d' \<and>
           ih_hi lt ku d'"
proof -
  let ?I = "\<lambda>i e. dmax_inv lt kl ku i e"
  have n: "idx < length d" "even idx" using inv by (auto simp: dmax_inv_def)
  have "\<exists>idx' d'. ih_bubble_down_max_loop lt (length d) idx d = Inr (idx', d') \<and> ?I idx' d' \<and>
           length d' = length d \<and> idx' < length d \<and>
           (2 * idx' + 2 < length d \<longrightarrow> \<not> lt (d' ! (idx' + 1)) (d' ! snd (ih_bc lt d' idx')))"
  proof (rule ih_bubble_down_max_loop_rule[where I = ?I])
    show "length d = length d" "idx < length d" "?I idx d" using n inv by simp_all
    fix i e assume "length e = length d" "?I i e" "2 * i + 2 < length d"
      "lt (e ! (i + 1)) (e ! snd (ih_bc lt e i))"
    then show "?I (fst (ih_bc lt e i)) (ih_max_swap lt e i)"
      using dmax_step[OF s _ klu, of i e] by simp
  qed
  then obtain idx' d' where r: "ih_bubble_down_max_loop lt (length d) idx d = Inr (idx', d')"
    "dmax_inv lt kl ku idx' d'" "length d' = length d" "idx' < length d"
    "2 * idx' + 2 < length d' \<longrightarrow> \<not> lt (d' ! (idx' + 1)) (d' ! snd (ih_bc lt d' idx'))" by auto
  note e = dmax_exit[OF s r(2) r(5)]
  have ev: "even idx'" using r(2) by (simp add: dmax_inv_def)
  have "\<not> lt (d' ! (idx' + 1)) (d' ! idx')" if "idx' + 1 < length d"
    using ih_ND[of lt d' "idx' + 1"] e that r(3) ev by simp
  then have "(if idx' + 1 < length d
       then bnd (cmp lt d' (idx' + 1) idx') (\<lambda>b. if b then sw d' idx' (idx' + 1) else Inr d')
       else Inr d') = Inr d'"
    using r(3,4) by simp
  then show ?thesis using r(1) n n1 e
    by (simp add: ih_bubble_down_max_def is_max_odd Let_def)
qed

definition pm_pre :: "'a list \<Rightarrow> 'a list" where
  "pm_pre d =
     butlast (if odd (length d) then d[0 := d ! (length d - 1)]
              else d[0 := d ! (length d - 2), length d - 2 := d ! (length d - 1)])"

definition px_pre :: "'a list \<Rightarrow> 'a list" where
  "px_pre d = butlast (d[1 := d ! (length d - 1)])"

definition rmin_pre :: "('a \<Rightarrow> 'a \<Rightarrow> bool) \<Rightarrow> 'a \<Rightarrow> 'a list \<Rightarrow> 'a list" where
  "rmin_pre lt v d = (if 1 < length d \<and> lt (d ! 1) v then swp (d[0 := v]) 1 0 else d[0 := v])"

definition rmax_pre :: "('a \<Rightarrow> 'a \<Rightarrow> bool) \<Rightarrow> 'a \<Rightarrow> 'a list \<Rightarrow> 'a list" where
  "rmax_pre lt v d = (if lt v (d ! 0) then swp (d[1 := v]) 1 0 else d[1 := v])"

lemma ih_pop_min_move_ok:
  assumes "2 \<le> length d"
  shows "ih_pop_min_move d = Inr (pm_pre d)"
proof -
  have ne: "d \<noteq> []" using assms by auto
  show ?thesis
  proof (cases "odd (length d)")
    case True
    then show ?thesis using assms ne
      by (simp add: ih_pop_min_move_def pm_pre_def Let_def pop_back_def odd_iff_mod_2_eq_one)
  next
    case False
    then have "length d mod 2 = 0" by presburger
    then show ?thesis using assms ne False
      by (cases "length d = 2")
         (auto simp: ih_pop_min_move_def pm_pre_def Let_def pop_back_def nth_list_update)
  qed
qed

lemma ih_pop_max_move_ok:
  assumes "2 \<le> length d"
  shows "ih_pop_max_move d = Inr (px_pre d)"
proof -
  have ne: "d \<noteq> []" using assms by auto
  then show ?thesis using assms
    by (simp add: ih_pop_max_move_def px_pre_def Let_def pop_back_def)
qed

lemma ih_replace_min_store_ok:
  assumes "d \<noteq> []"
  shows "ih_replace_min_store lt v d = Inr (rmin_pre lt v d)"
proof -
  have "0 < length d" using assms by simp
  then show ?thesis
    by (cases "1 < length d")
       (simp_all add: ih_replace_min_store_def rmin_pre_def balance_node_check_def balance_node_ok)
qed

lemma ih_replace_max_store_ok:
  assumes "2 \<le> length d"
  shows "ih_replace_max_store lt v d = Inr (rmax_pre lt v d)"
proof -
  have "1 < length d" "0 + 1 < length (d[1 := v])" using assms by simp_all
  then show ?thesis using balance_node_ok[of 0 "d[1 := v]" lt]
    by (simp add: ih_replace_max_store_def rmax_pre_def)
qed

lemma length_pm_pre [simp]: "length (pm_pre d) = length d - 1"
  by (simp add: pm_pre_def)

lemma length_px_pre [simp]: "length (px_pre d) = length d - 1"
  by (simp add: px_pre_def)

lemma length_rmin_pre [simp]: "length (rmin_pre lt v d) = length d"
  by (simp add: rmin_pre_def)

lemma length_rmax_pre [simp]: "length (rmax_pre lt v d) = length d"
  by (simp add: rmax_pre_def)

lemma pm_pre_nth:
  assumes "2 \<le> length d"
  shows "pm_pre d ! 0 = (if odd (length d) then d ! (length d - 1) else
                           if length d = 2 then d ! 1 else d ! (length d - 2))"
    and "\<And>i. 0 < i \<Longrightarrow> i < length d - 1 \<Longrightarrow>
           pm_pre d ! i = (if even (length d) \<and> i = length d - 2 then d ! (length d - 1) else d ! i)"
proof -
  have ne: "d \<noteq> []" "0 < length d" using assms by auto
  show "pm_pre d ! 0 = (if odd (length d) then d ! (length d - 1) else
                           if length d = 2 then d ! 1 else d ! (length d - 2))"
    using assms ne by (auto simp: pm_pre_def nth_butlast nth_list_update)
  show "\<And>i. 0 < i \<Longrightarrow> i < length d - 1 \<Longrightarrow>
           pm_pre d ! i = (if even (length d) \<and> i = length d - 2 then d ! (length d - 1) else d ! i)"
    using assms ne by (auto simp: pm_pre_def nth_butlast nth_list_update)
qed

lemma px_pre_nth:
  assumes "2 \<le> length d" "i < length d - 1"
  shows "px_pre d ! i = (if i = 1 then d ! (length d - 1) else d ! i)"
  using assms by (auto simp: px_pre_def nth_butlast nth_list_update)

lemma mset_pm_pre:
  assumes "2 \<le> length d"
  shows "mset (pm_pre d) = mset d - {#d ! 0#}"
proof -
  let ?n = "length d"
  have ne: "d \<noteq> []" using assms by auto
  show ?thesis
  proof (cases "odd ?n")
    case True
    have "last (d[0 := d ! (?n - 1)]) = d ! (?n - 1)" using assms ne by (simp add: last_conv_nth)
    then show ?thesis using True assms ne mset_butlast[of "d[0 := d ! (?n - 1)]"]
      by (simp add: pm_pre_def mset_update)
  next
    case False
    let ?e = "d[0 := d ! (?n - 2), ?n - 2 := d ! (?n - 1)]"
    have "last ?e = d ! (?n - 1)" using assms ne by (simp add: last_conv_nth)
    moreover have "mset ?e = mset d - {#d ! 0#} + {#d ! (?n - 1)#}"
    proof (cases "?n = 2")
      case True
      then obtain a b where "d = [a, b]" by (cases d; cases "tl d") auto
      then show ?thesis by simp
    next
      case False
      then have "0 < ?n - 2" "?n - 2 < ?n" using assms by auto
      then show ?thesis using assms ne by (simp add: mset_update)
    qed
    ultimately have "mset (butlast ?e) = mset d - {#d ! 0#}"
      using mset_butlast[of ?e] assms ne by simp
    then show ?thesis using False by (simp add: pm_pre_def)
  qed
qed

lemma mset_px_pre:
  assumes "2 \<le> length d"
  shows "mset (px_pre d) = mset d - {#d ! 1#}"
proof (cases "length d = 2")
  case True
  then obtain a b where "d = [a, b]" by (cases d; cases "tl d") auto
  then show ?thesis by (simp add: px_pre_def)
next
  case False
  have ne: "d \<noteq> []" using assms by auto
  have "last (d[1 := d ! (length d - 1)]) = d ! (length d - 1)"
    using False assms ne by (simp add: last_conv_nth)
  then show ?thesis using mset_butlast[of "d[1 := d ! (length d - 1)]"] assms ne
    by (simp add: px_pre_def mset_update)
qed

lemma mset_rmin_pre:
  "d \<noteq> [] \<Longrightarrow> mset (rmin_pre lt v d) = mset d - {#d ! 0#} + {#v#}"
  by (auto simp: rmin_pre_def mset_update)

lemma mset_rmax_pre:
  assumes "2 \<le> length d"
  shows "mset (rmax_pre lt v d) = mset d - {#d ! 1#} + {#v#}"
proof -
  have "1 < length (d[1 := v])" "0 < length (d[1 := v])" "1 < length d" using assms by auto
  then show ?thesis using mset_swp[of 1 "d[1 := v]" 0] by (simp add: rmax_pre_def mset_update)
qed

lemma ih_pop_min_total:
  assumes "d \<noteq> []"
  shows "\<exists>d'. ih_pop_min lt d = Inr d' \<and> mset d' = mset d - {#d ! 0#} \<and> length d' = length d - 1"
proof (cases "length d = 1")
  case True
  then obtain x where "d = [x]" by (cases d) auto
  then show ?thesis by (simp add: ih_pop_min_def ih_empty_def pop_back_def)
next
  case False
  then have n: "2 \<le> length d" using assms len2 by blast
  then have "0 < length (pm_pre d)" by simp
  from ih_bubble_down_min_total[OF this, of lt] obtain d' where
    "ih_bubble_down_min lt 0 (pm_pre d) = Inr d'" "mset d' = mset (pm_pre d)"
    "length d' = length (pm_pre d)" by auto
  then show ?thesis using False assms n
    by (simp add: ih_pop_min_def ih_empty_def ih_pop_min_move_ok mset_pm_pre)
qed

lemma ih_pop_max_total:
  assumes "d \<noteq> []"
  shows "\<exists>d'. ih_pop_max lt d = Inr d' \<and>
           mset d' = mset d - {#d ! (if length d > 1 then 1 else 0)#} \<and> length d' = length d - 1"
proof (cases "length d = 1")
  case True
  then obtain x where "d = [x]" by (cases d) auto
  then show ?thesis by (simp add: ih_pop_max_def ih_empty_def pop_back_def)
next
  case False
  then have n: "2 \<le> length d" using assms len2 by blast
  show ?thesis
  proof (cases "length d > 2")
    case True
    then have "1 < length (px_pre d)" by simp
    from ih_bubble_down_max_total[OF this, of lt] obtain d' where
      "ih_bubble_down_max lt 1 (px_pre d) = Inr d'" "mset d' = mset (px_pre d)"
      "length d' = length (px_pre d)" by auto
    then show ?thesis using True False assms n
      by (simp add: ih_pop_max_def ih_empty_def ih_pop_max_move_ok mset_px_pre)
  next
    case False
    then show ?thesis using n assms \<open>length d \<noteq> 1\<close>
      by (simp add: ih_pop_max_def ih_empty_def ih_pop_max_move_ok mset_px_pre)
  qed
qed

lemma ih_replace_min_total:
  assumes "d \<noteq> []"
  shows "\<exists>d'. ih_replace_min lt v d = Inr d' \<and> mset d' = mset d - {#d ! 0#} + {#v#} \<and>
           length d' = length d"
proof -
  have "0 < length (rmin_pre lt v d)" using assms by simp
  from ih_bubble_down_min_total[OF this, of lt] obtain d' where
    "ih_bubble_down_min lt 0 (rmin_pre lt v d) = Inr d'" "mset d' = mset (rmin_pre lt v d)"
    "length d' = length (rmin_pre lt v d)" by auto
  then show ?thesis using assms
    by (simp add: ih_replace_min_def ih_empty_def ih_replace_min_store_ok mset_rmin_pre)
qed

lemma ih_replace_max_total:
  assumes "d \<noteq> []"
  shows "\<exists>d'. ih_replace_max lt v d = Inr d' \<and>
           mset d' = mset d - {#d ! (if length d > 1 then 1 else 0)#} + {#v#} \<and>
           length d' = length d"
proof (cases "length d = 1")
  case True
  then show ?thesis using assms by (simp add: ih_replace_max_def ih_empty_def mset_update)
next
  case False
  then have n: "2 \<le> length d" using assms len2 by blast
  then have "1 < length (rmax_pre lt v d)" by simp
  from ih_bubble_down_max_total[OF this, of lt] obtain d' where
    "ih_bubble_down_max lt 1 (rmax_pre lt v d) = Inr d'" "mset d' = mset (rmax_pre lt v d)"
    "length d' = length (rmax_pre lt v d)" by auto
  then show ?thesis using False assms n
    by (simp add: ih_replace_max_def ih_empty_def ih_replace_max_store_ok mset_rmax_pre)
qed

lemma ih_root_ext:
  assumes s: "swo lt" and inv: "iheap_inv lt d"
  shows "i < length d \<Longrightarrow> \<not> lt (d ! i) (d ! 0) \<and> (1 < length d \<longrightarrow> \<not> lt (d ! 1) (d ! i))"
proof (induction i rule: less_induct)
  case (less i)
  have N: "ih_N lt d" and lo: "ih_lo lt 0 d" and hi: "ih_hi lt 0 d"
    using inv by (auto simp: iheap_inv_def)
  have n01: "\<not> lt (d ! 1) (d ! 0)" if "1 < length d" using ih_ND[OF N that] by simp
  consider "i = 0" | "i = 1" | "2 \<le> i" by linarith
  then show ?case
  proof cases
    case 1
    then show ?thesis using swo_irrefl[OF s] n01 by simp
  next
    case 2
    then show ?thesis using swo_irrefl[OF s] n01 less.prems by simp
  next
    case 3
    then have p: "ipar i + 1 < i" "ipar i < i" using ipar_less[of i] by auto
    then have pl: "ipar i < length d" "ipar i + 1 < length d" "1 < length d" using less.prems by auto
    have a: "\<not> lt (d ! i) (d ! ipar i)" using ih_loD[OF lo less.prems 3] by simp
    have b: "\<not> lt (d ! (ipar i + 1)) (d ! i)" using ih_hiD[OF hi less.prems 3] by simp
    have "\<not> lt (d ! ipar i) (d ! 0)" using less.IH[OF p(2) pl(1)] by simp
    then have 1: "\<not> lt (d ! i) (d ! 0)" using swo_le_trans[OF s _ a] by blast
    have "\<not> lt (d ! 1) (d ! (ipar i + 1))" using less.IH[OF p(1) pl(2)] pl by simp
    then have "\<not> lt (d ! 1) (d ! i)" using swo_le_trans[OF s b] by blast
    then show ?thesis using 1 by simp
  qed
qed

lemma iheap_inv_parts: "iheap_inv lt d = (ih_N lt d \<and> ih_hi lt 0 d \<and> ih_lo lt 0 d)"
  by (auto simp: iheap_inv_def)

lemma ih_pop_min_pre_inv:
  assumes s: "swo lt" and inv: "iheap_inv lt d" and n: "2 \<le> length d"
  shows "dmin_inv lt 0 0 (pm_pre d)"
proof -
  let ?n = "length d"
  let ?e = "pm_pre d"
  have N: "ih_N lt d" and lo: "ih_lo lt 0 d" and hi: "ih_hi lt 0 d"
    using inv by (auto simp: iheap_inv_def)
  have e0: "\<exists>j<?n. ?e ! 0 = d ! j"
  proof -
    have "?n - 1 < ?n" "1 < ?n" "?n - 2 < ?n" using n by auto
    then show ?thesis using pm_pre_nth(1)[OF n] by metis
  qed
  have eo: "?e ! i = d ! i" if "0 < i" "i < ?n - 1" "\<not> (even ?n \<and> i = ?n - 2)" for i
    using pm_pre_nth(2)[OF n that(1,2)] that(3) by auto
  have el: "?e ! i = d ! (?n - 1)" if "0 < i" "i < ?n - 1" "even ?n \<and> i = ?n - 2" for i
    using pm_pre_nth(2)[OF n that(1,2)] that(3) by auto
  have last_par: "ipar (?n - 1) = ipar (?n - 2)" if "even ?n"
    using that n unfolding ipar_def by presburger
  have "ih_N lt ?e" unfolding ih_N_def
  proof (intro allI impI)
    fix i assume i: "i < length ?e" "odd i"
    then have i1: "0 < i" "i < ?n - 1" "i < ?n" "1 < ?n" by (auto elim: oddE)
    have "\<not> (even ?n \<and> i = ?n - 2)" using i(2) n by auto
    then have a: "?e ! i = d ! i" using eo[OF i1(1,2)] by simp
    show "\<not> lt (?e ! i) (?e ! (i - 1))"
    proof (cases "i = 1")
      case True
      from e0 obtain j where "j < ?n" "?e ! 0 = d ! j" by blast
      then show ?thesis using ih_root_ext[OF s inv, of j] a True i1 by simp
    next
      case False
      then have "0 < i - 1" "i - 1 < ?n - 1" "i - 1 \<noteq> ?n - 2" using i1 by auto
      then have "?e ! (i - 1) = d ! (i - 1)" using eo[of "i - 1"] by simp
      then show ?thesis using a ih_ND[OF N i1(3) i(2)] by simp
    qed
  qed
  moreover have "ih_hi lt 0 ?e" unfolding ih_hi_def
  proof (intro allI impI)
    fix i assume i: "i < length ?e" "2 \<le> i \<and> 0 \<le> ipar i"
    then have i1: "0 < i" "i < ?n - 1" "i < ?n" by auto
    have p: "ipar i + 1 < i" using ipar_less[of i] i by simp
    have "odd (ipar i + 1)" by simp
    moreover have "even ?n \<Longrightarrow> even (?n - 2)" using n by simp
    ultimately have "\<not> (even ?n \<and> ipar i + 1 = ?n - 2)" by metis
    then have a: "?e ! (ipar i + 1) = d ! (ipar i + 1)" using eo[of "ipar i + 1"] p i1 by simp
    show "\<not> lt (?e ! (ipar i + 1)) (?e ! i)"
    proof (cases "even ?n \<and> i = ?n - 2")
      case True
      then have "?e ! i = d ! (?n - 1)" using el[OF i1(1,2)] by simp
      moreover have "\<not> lt (d ! (ipar (?n - 1) + 1)) (d ! (?n - 1))"
        using ih_hiD[OF hi, of "?n - 1"] n i True by simp
      ultimately show ?thesis using a True last_par by simp
    next
      case False
      then have "?e ! i = d ! i" using eo[OF i1(1,2)] by simp
      then show ?thesis using a ih_hiD[OF hi i1(3)] i by simp
    qed
  qed
  moreover have "ih_lo_ex lt 0 0 ?e" unfolding ih_lo_ex_def
  proof (intro allI impI)
    fix i assume i: "i < length ?e" "2 \<le> i \<and> 0 \<le> ipar i \<and> ipar i \<noteq> 0"
    then have i1: "0 < i" "i < ?n - 1" "i < ?n" by auto
    have p: "ipar i + 1 < i" using ipar_less[of i] i by simp
    then have "ipar i \<noteq> ?n - 2" "0 < ipar i" "ipar i < ?n - 1" using i i1 by auto
    then have a: "?e ! ipar i = d ! ipar i" using eo[of "ipar i"] by simp
    show "\<not> lt (?e ! i) (?e ! ipar i)"
    proof (cases "even ?n \<and> i = ?n - 2")
      case True
      then have "?e ! i = d ! (?n - 1)" using el[OF i1(1,2)] by simp
      moreover have "\<not> lt (d ! (?n - 1)) (d ! ipar (?n - 1))"
        using ih_loD[OF lo, of "?n - 1"] n i True by simp
      ultimately show ?thesis using a True last_par by simp
    next
      case False
      then have "?e ! i = d ! i" using eo[OF i1(1,2)] by simp
      then show ?thesis using a ih_loD[OF lo i1(3)] i by simp
    qed
  qed
  ultimately show ?thesis using n by (simp add: dmin_inv_def)
qed

lemma ih_pop_min_inv:
  assumes s: "swo lt" and inv: "iheap_inv lt d" and ne: "d \<noteq> []"
  shows "\<exists>d'. ih_pop_min lt d = Inr d' \<and> iheap_inv lt d'"
proof (cases "length d = 1")
  case True
  then obtain x where "d = [x]" by (cases d) auto
  then show ?thesis
    by (simp add: ih_pop_min_def ih_empty_def pop_back_def iheap_inv_def ih_N_def ih_lo_def ih_hi_def)
next
  case False
  then have n: "2 \<le> length d" using ne len2 by blast
  from ih_bubble_down_min_inv[OF s ih_pop_min_pre_inv[OF s inv n]]
  show ?thesis using False ne n
    by (simp add: ih_pop_min_def ih_empty_def ih_pop_min_move_ok iheap_inv_parts)
qed

lemma iheap_inv_short: "length d \<le> 1 \<Longrightarrow> iheap_inv lt d"
  by (auto simp: iheap_inv_def ih_N_def ih_lo_def ih_hi_def elim: oddE)

lemma ih_pop_max_pre_inv:
  assumes s: "swo lt" and inv: "iheap_inv lt d" and n: "3 \<le> length d"
  shows "dmax_inv lt 0 0 0 (px_pre d)"
proof -
  let ?n = "length d"
  let ?e = "px_pre d"
  have N: "ih_N lt d" and lo: "ih_lo lt 0 d" and hi: "ih_hi lt 0 d"
    using inv by (auto simp: iheap_inv_def)
  have n2: "2 \<le> ?n" using n by simp
  have e1: "?e ! 1 = d ! (?n - 1)" using px_pre_nth[OF n2, of 1] n by simp
  have eo: "?e ! i = d ! i" if "i < ?n - 1" "i \<noteq> 1" for i using px_pre_nth[OF n2 that(1)] that by simp
  have "ih_N lt ?e" unfolding ih_N_def
  proof (intro allI impI)
    fix i assume i: "i < length ?e" "odd i"
    then have i1: "1 \<le> i" "i < ?n - 1" "i < ?n" by (auto elim: oddE)
    have "even (i - 1)" using i by simp
    then have "i - 1 \<noteq> 1" by (metis odd_one)
    then have i0: "i - 1 \<noteq> 1" "i - 1 < ?n - 1" using i1 by auto
    show "\<not> lt (?e ! i) (?e ! (i - 1))"
    proof (cases "i = 1")
      case True
      then show ?thesis using e1 eo[of 0] ih_root_ext[OF s inv, of "?n - 1"] n by simp
    next
      case False
      then show ?thesis using eo[of i] eo[of "i - 1"] i0 i1 ih_ND[OF N i1(3) i(2)] by simp
    qed
  qed
  moreover have "ih_lo lt 0 ?e" unfolding ih_lo_def
  proof (intro allI impI)
    fix i assume i: "i < length ?e" "2 \<le> i \<and> 0 \<le> ipar i"
    then have i1: "i < ?n - 1" "i < ?n" "i \<noteq> 1" by auto
    have "ipar i \<noteq> 1" using ipar_even[of i] by (metis odd_one)
    moreover have "ipar i < ?n - 1" using ipar_less[of i] i by simp
    ultimately show "\<not> lt (?e ! i) (?e ! ipar i)"
      using eo[of i] eo[of "ipar i"] i1 ih_loD[OF lo i1(2)] i by simp
  qed
  moreover have "ih_hi_ex lt 0 0 ?e" unfolding ih_hi_ex_def
  proof (intro allI impI)
    fix i assume i: "i < length ?e" "2 \<le> i \<and> 0 \<le> ipar i \<and> ipar i \<noteq> 0"
    then have i1: "i < ?n - 1" "i < ?n" "i \<noteq> 1" by auto
    have "ipar i + 1 \<noteq> 1" using i by simp
    moreover have "ipar i + 1 < ?n - 1" using ipar_less[of i] i by simp
    ultimately show "\<not> lt (?e ! (ipar i + 1)) (?e ! i)"
      using eo[of i] eo[of "ipar i + 1"] i1 ih_hiD[OF hi i1(2)] i by simp
  qed
  ultimately show ?thesis using n by (simp add: dmax_inv_def)
qed

lemma ih_pop_max_inv:
  assumes s: "swo lt" and inv: "iheap_inv lt d" and ne: "d \<noteq> []"
  shows "\<exists>d'. ih_pop_max lt d = Inr d' \<and> iheap_inv lt d'"
proof (cases "length d \<le> 2")
  case True
  have "iheap_inv lt (butlast d)" "iheap_inv lt (px_pre d)"
    using True by (auto intro!: iheap_inv_short)
  then show ?thesis using True ne len2[OF ne]
    by (cases "length d = 1")
       (auto simp: ih_pop_max_def ih_empty_def pop_back_def ih_pop_max_move_ok)
next
  case False
  then have n: "3 \<le> length d" by simp
  have "0 + 1 < length (px_pre d)" using n by simp
  from ih_bubble_down_max_inv[OF s ih_pop_max_pre_inv[OF s inv n] _ this]
  show ?thesis using False ne n
    by (simp add: ih_pop_max_def ih_empty_def ih_pop_max_move_ok iheap_inv_def)
qed

lemma rmin_pre_nth:
  assumes "2 \<le> length d"
  shows "rmin_pre lt v d ! 0 = (if lt (d ! 1) v then d ! 1 else v)"
    and "rmin_pre lt v d ! 1 = (if lt (d ! 1) v then v else d ! 1)"
    and "\<And>i. 2 \<le> i \<Longrightarrow> i < length d \<Longrightarrow> rmin_pre lt v d ! i = d ! i"
proof -
  have l: "0 < length d" "1 < length d" using assms by auto
  show "rmin_pre lt v d ! 0 = (if lt (d ! 1) v then d ! 1 else v)"
    using l by (simp add: rmin_pre_def swp_def)
  show "rmin_pre lt v d ! 1 = (if lt (d ! 1) v then v else d ! 1)"
    using l by (simp add: rmin_pre_def swp_def)
  show "\<And>i. 2 \<le> i \<Longrightarrow> i < length d \<Longrightarrow> rmin_pre lt v d ! i = d ! i"
    using l by (simp add: rmin_pre_def swp_def)
qed

lemma rmax_pre_nth:
  assumes "2 \<le> length d"
  shows "rmax_pre lt v d ! 0 = (if lt v (d ! 0) then v else d ! 0)"
    and "rmax_pre lt v d ! 1 = (if lt v (d ! 0) then d ! 0 else v)"
    and "\<And>i. 2 \<le> i \<Longrightarrow> i < length d \<Longrightarrow> rmax_pre lt v d ! i = d ! i"
proof -
  have l: "0 < length d" "1 < length d" using assms by auto
  show "rmax_pre lt v d ! 0 = (if lt v (d ! 0) then v else d ! 0)"
    using l by (simp add: rmax_pre_def swp_def)
  show "rmax_pre lt v d ! 1 = (if lt v (d ! 0) then d ! 0 else v)"
    using l by (simp add: rmax_pre_def swp_def)
  show "\<And>i. 2 \<le> i \<Longrightarrow> i < length d \<Longrightarrow> rmax_pre lt v d ! i = d ! i"
    using l by (simp add: rmax_pre_def swp_def)
qed

lemma ih_replace_min_pre_inv:
  assumes s: "swo lt" and inv: "iheap_inv lt d" and ne: "d \<noteq> []"
  shows "dmin_inv lt 0 0 (rmin_pre lt v d)"
proof (cases "length d = 1")
  case True
  then have "length (rmin_pre lt v d) = 1" by simp
  then show ?thesis
    by (auto simp: dmin_inv_def ih_N_def ih_hi_def ih_lo_ex_def elim: oddE)
next
  case False
  then have n: "2 \<le> length d" using ne len2 by blast
  let ?e = "rmin_pre lt v d"
  have N: "ih_N lt d" and lo: "ih_lo lt 0 d" and hi: "ih_hi lt 0 d"
    using inv by (auto simp: iheap_inv_def)
  note e = rmin_pre_nth[OF n, where lt = lt and v = v]
  have "ih_N lt ?e" unfolding ih_N_def
  proof (intro allI impI)
    fix i assume i: "i < length ?e" "odd i"
    show "\<not> lt (?e ! i) (?e ! (i - 1))"
    proof (cases "i = 1")
      case True
      then show ?thesis using e(1,2) swo_asym[OF s] by auto
    next
      case False
      then have "3 \<le> i" using i by (auto elim: oddE)
      then show ?thesis using e(3)[of i] e(3)[of "i - 1"] i ih_ND[OF N _ i(2)] by simp
    qed
  qed
  moreover have "ih_hi lt 0 ?e" unfolding ih_hi_def
  proof (intro allI impI)
    fix i assume i: "i < length ?e" "2 \<le> i \<and> 0 \<le> ipar i"
    then have ei: "?e ! i = d ! i" and il: "i < length d" using e(3) by simp_all
    have old: "\<not> lt (d ! (ipar i + 1)) (d ! i)" using ih_hiD[OF hi il] i by simp
    show "\<not> lt (?e ! (ipar i + 1)) (?e ! i)"
    proof (cases "ipar i = 0")
      case True
      show ?thesis
      proof (cases "lt (d ! 1) v")
        case b: True
        have "\<not> lt v (d ! i)"
        proof
          assume "lt v (d ! i)"
          then have "lt (d ! 1) (d ! i)" using swo_trans[OF s b] by blast
          then show False using old True by simp
        qed
        then show ?thesis using True e(2) b ei by simp
      next
        case False
        then show ?thesis using True e(2) ei old by simp
      qed
    next
      case False
      then have "2 \<le> ipar i + 1" "ipar i + 1 < length d" using ipar_less[of i] i il by auto
      then show ?thesis using e(3)[of "ipar i + 1"] ei old by simp
    qed
  qed
  moreover have "ih_lo_ex lt 0 0 ?e" unfolding ih_lo_ex_def
  proof (intro allI impI)
    fix i assume i: "i < length ?e" "2 \<le> i \<and> 0 \<le> ipar i \<and> ipar i \<noteq> 0"
    then have ei: "?e ! i = d ! i" and il: "i < length d" using e(3) by simp_all
    have "even (ipar i)" by simp
    then have "ipar i \<noteq> 1" by (metis odd_one)
    then have "2 \<le> ipar i" "ipar i < length d" using ipar_less[of i] i il by auto
    then show "\<not> lt (?e ! i) (?e ! ipar i)"
      using e(3)[of "ipar i"] ei ih_loD[OF lo il] i by simp
  qed
  ultimately show ?thesis using n ne by (simp add: dmin_inv_def)
qed

lemma ih_replace_min_inv:
  assumes s: "swo lt" and inv: "iheap_inv lt d" and ne: "d \<noteq> []"
  shows "\<exists>d'. ih_replace_min lt v d = Inr d' \<and> iheap_inv lt d'"
  using ih_bubble_down_min_inv[OF s ih_replace_min_pre_inv[OF s inv ne, of v]] ne
  by (simp add: ih_replace_min_def ih_empty_def ih_replace_min_store_ok iheap_inv_parts)

lemma ih_replace_max_pre_inv:
  assumes s: "swo lt" and inv: "iheap_inv lt d" and n: "2 \<le> length d"
  shows "dmax_inv lt 0 0 0 (rmax_pre lt v d)"
proof -
  let ?e = "rmax_pre lt v d"
  have N: "ih_N lt d" and lo: "ih_lo lt 0 d" and hi: "ih_hi lt 0 d"
    using inv by (auto simp: iheap_inv_def)
  note e = rmax_pre_nth[OF n, where lt = lt and v = v]
  have "ih_N lt ?e" unfolding ih_N_def
  proof (intro allI impI)
    fix i assume i: "i < length ?e" "odd i"
    show "\<not> lt (?e ! i) (?e ! (i - 1))"
    proof (cases "i = 1")
      case True
      then show ?thesis using e(1,2) swo_asym[OF s] by auto
    next
      case False
      then have "3 \<le> i" using i by (auto elim: oddE)
      then show ?thesis using e(3)[of i] e(3)[of "i - 1"] i ih_ND[OF N _ i(2)] by simp
    qed
  qed
  moreover have "ih_lo lt 0 ?e" unfolding ih_lo_def
  proof (intro allI impI)
    fix i assume i: "i < length ?e" "2 \<le> i \<and> 0 \<le> ipar i"
    then have ei: "?e ! i = d ! i" and il: "i < length d" using e(3) by simp_all
    have old: "\<not> lt (d ! i) (d ! ipar i)" using ih_loD[OF lo il] i by simp
    show "\<not> lt (?e ! i) (?e ! ipar i)"
    proof (cases "ipar i = 0")
      case True
      show ?thesis
      proof (cases "lt v (d ! 0)")
        case b: True
        then show ?thesis using nlt_down[OF s _ b, of "d ! i"] old True e(1) ei by simp
      next
        case False
        then show ?thesis using True e(1) ei old by simp
      qed
    next
      case False
      have "even (ipar i)" by simp
      then have "ipar i \<noteq> 1" by (metis odd_one)
      then have "2 \<le> ipar i" "ipar i < length d" using False ipar_less[of i] i il by auto
      then show ?thesis using e(3)[of "ipar i"] ei old by simp
    qed
  qed
  moreover have "ih_hi_ex lt 0 0 ?e" unfolding ih_hi_ex_def
  proof (intro allI impI)
    fix i assume i: "i < length ?e" "2 \<le> i \<and> 0 \<le> ipar i \<and> ipar i \<noteq> 0"
    then have ei: "?e ! i = d ! i" and il: "i < length d" using e(3) by simp_all
    have "2 \<le> ipar i + 1" "ipar i + 1 < length d" using ipar_less[of i] i il by auto
    then show "\<not> lt (?e ! (ipar i + 1)) (?e ! i)"
      using e(3)[of "ipar i + 1"] ei ih_hiD[OF hi il] i by simp
  qed
  moreover have "d \<noteq> []" using n by auto
  ultimately show ?thesis using n by (simp add: dmax_inv_def)
qed

lemma ih_replace_max_inv:
  assumes s: "swo lt" and inv: "iheap_inv lt d" and ne: "d \<noteq> []"
  shows "\<exists>d'. ih_replace_max lt v d = Inr d' \<and> iheap_inv lt d'"
proof (cases "length d = 1")
  case True
  then have "iheap_inv lt (d[0 := v])" by (auto intro!: iheap_inv_short)
  then show ?thesis using True ne by (simp add: ih_replace_max_def ih_empty_def)
next
  case False
  then have n: "2 \<le> length d" using ne len2 by blast
  then have "0 + 1 < length (rmax_pre lt v d)" by simp
  from ih_bubble_down_max_inv[OF s ih_replace_max_pre_inv[OF s inv n] _ this]
  show ?thesis using False ne n
    by (simp add: ih_replace_max_def ih_empty_def ih_replace_max_store_ok iheap_inv_def)
qed

lemma ih_balance_loop_inv:
  "swo lt \<Longrightarrow> d \<noteq> [] \<Longrightarrow> even i \<Longrightarrow>
   (\<forall>j<i. odd j \<longrightarrow> j < length d \<longrightarrow> \<not> lt (d ! j) (d ! (j - 1))) \<Longrightarrow>
   \<exists>d'. ih_balance_loop lt i d = Inr d' \<and> ih_N lt d' \<and> length d' = length d"
proof (induction lt i d rule: ih_balance_loop.induct)
  case (1 lt i d)
  have u: "usub (length d) 1 = length d - 1" using "1.prems" by (simp add: Suc_le_eq)
  show ?case
  proof (cases "i < length d - 1")
    case True
    then have i: "i + 1 < length d" "i < length d" by simp_all
    let ?d1 = "if lt (d ! (i + 1)) (d ! i) then swp d (i + 1) i else d"
    have b: "balance_node lt i d = Inr ?d1" using balance_node_ok[OF i(1)] .
    have ne: "?d1 \<noteq> []" using "1.prems" by auto
    have pre: "\<forall>j<i + 2. odd j \<longrightarrow> j < length ?d1 \<longrightarrow> \<not> lt (?d1 ! j) (?d1 ! (j - 1))"
    proof (intro allI impI)
      fix j assume j: "j < i + 2" "odd j" "j < length ?d1"
      show "\<not> lt (?d1 ! j) (?d1 ! (j - 1))"
      proof (cases "j = i + 1")
        case True
        then show ?thesis using i swo_asym[OF "1.prems"(1)] by (auto simp: swp_def)
      next
        case False
        then have "j < i" using j "1.prems"(3) by (cases "j = i") auto
        moreover from this have "j - 1 < i" by simp
        ultimately show ?thesis using "1.prems"(4) j i by (auto simp: swp_def)
      qed
    qed
    have "\<exists>d'. ih_balance_loop lt (i + 2) ?d1 = Inr d' \<and> ih_N lt d' \<and> length d' = length ?d1"
      using "1.IH"[OF _ b "1.prems"(1) ne _ pre] True u "1.prems"(3) by simp
    moreover have "ih_balance_loop lt i d = ih_balance_loop lt (i + 2) ?d1"
      using True u b by (subst ih_balance_loop.simps) simp
    ultimately show ?thesis by auto
  next
    case False
    have "ih_N lt d" unfolding ih_N_def
    proof (intro allI impI)
      fix j assume j: "j < length d" "odd j"
      then have "j < i" using False "1.prems"(3) by (cases "j = i") auto
      then show "\<not> lt (d ! j) (d ! (j - 1))" using "1.prems"(4) j by simp
    qed
    then show ?thesis using False u by (subst ih_balance_loop.simps) simp
  qed
qed

lemma even_gt_step: "even (a::nat) \<Longrightarrow> even b \<Longrightarrow> a \<le> b \<Longrightarrow> a \<noteq> b \<Longrightarrow> a + 2 \<le> b"
  by (elim evenE) auto

lemma ih_heapify_step_max:
  assumes "even j" "j < length d" "ih_N lt d" "ih_lo lt (j + 2) d" "ih_hi lt (j + 2) d"
  shows "dmax_inv lt (j + 2) j j d"
proof -
  have "ih_hi_ex lt j j d" unfolding ih_hi_ex_def
  proof (intro allI impI)
    fix i assume i: "i < length d" "2 \<le> i \<and> j \<le> ipar i \<and> ipar i \<noteq> j"
    then have "j + 2 \<le> ipar i" using even_gt_step[OF assms(1) ipar_even[of i]] by simp
    then show "\<not> lt (d ! (ipar i + 1)) (d ! i)" using ih_hiD[OF assms(5) i(1)] i by simp
  qed
  moreover have "\<not> (2 \<le> j \<and> j \<le> ipar j)" using ipar_less[of j] by auto
  ultimately show ?thesis using assms by (auto simp: dmax_inv_def)
qed

lemma ih_heapify_step_min:
  assumes "even j" "j < length d" "ih_N lt d" "ih_lo lt (j + 2) d" "ih_hi lt j d"
  shows "dmin_inv lt j j d"
proof -
  have "ih_lo_ex lt j j d" unfolding ih_lo_ex_def
  proof (intro allI impI)
    fix i assume i: "i < length d" "2 \<le> i \<and> j \<le> ipar i \<and> ipar i \<noteq> j"
    then have "j + 2 \<le> ipar i" using even_gt_step[OF assms(1) ipar_even[of i]] by simp
    then show "\<not> lt (d ! i) (d ! ipar i)" using ih_loD[OF assms(4) i(1)] i by simp
  qed
  moreover have "\<not> (2 \<le> j \<and> j \<le> ipar j)" using ipar_less[of j] by auto
  ultimately show ?thesis using assms by (auto simp: dmin_inv_def)
qed

lemma ih_heapify_loop_inv:
  "swo lt \<Longrightarrow> even i \<Longrightarrow> - 2 \<le> i \<Longrightarrow> i + 1 < int (length d) \<Longrightarrow>
   ih_N lt d \<Longrightarrow> ih_lo lt (nat (i + 2)) d \<Longrightarrow> ih_hi lt (nat (i + 2)) d \<Longrightarrow>
   \<exists>d'. ih_heapify_loop lt i d = Inr d' \<and> iheap_inv lt d'"
proof (induction lt i d rule: ih_heapify_loop.induct)
  case (1 lt i d)
  show ?case
  proof (cases "i \<ge> 0")
    case True
    define j where "j = nat i"
    have j: "even j" "j < length d" "j + 1 < length d" "nat (i + 1) = j + 1" "nat (i + 2) = j + 2"
      using True "1.prems" by (auto simp: j_def even_nat_iff nat_add_distrib)
    from ih_bubble_down_max_inv[OF "1.prems"(1)
        ih_heapify_step_max[OF j(1,2) "1.prems"(5)] _ j(3)] "1.prems"(6,7) j(5)
    obtain d1 where d1: "ih_bubble_down_max lt (j + 1) d = Inr d1" "ih_N lt d1"
      "ih_lo lt (j + 2) d1" "ih_hi lt j d1" by auto
    have l1: "length d1 = length d"
      using ih_bubble_down_max_total[of "j + 1" d lt] d1(1) j by auto
    from ih_bubble_down_min_inv[OF "1.prems"(1) ih_heapify_step_min[OF j(1) _ d1(2,3,4)]] j l1
    obtain d2 where d2: "ih_bubble_down_min lt j d1 = Inr d2" "ih_N lt d2"
      "ih_hi lt j d2" "ih_lo lt j d2" by auto
    have l2: "length d2 = length d"
      using ih_bubble_down_min_total[of j d1 lt] d2(1) j l1 by auto
    have n2: "nat (i - 2 + 2) = j" by (simp add: j_def)
    have "\<exists>d'. ih_heapify_loop lt (i - 2) d2 = Inr d' \<and> iheap_inv lt d'"
      using "1.IH"[OF True _ _ "1.prems"(1), of d1 d2] d1(1) d2 j(4) l2 "1.prems" True n2
      by (simp add: j_def)
    moreover have "ih_heapify_loop lt i d = ih_heapify_loop lt (i - 2) d2"
      using True d1(1) d2(1) j(4) by (subst ih_heapify_loop.simps) (simp add: j_def)
    ultimately show ?thesis by simp
  next
    case False
    then have "i = - 2" using "1.prems"(2,3) by presburger
    then show ?thesis using "1.prems" by (subst ih_heapify_loop.simps) (simp add: iheap_inv_def)
  qed
qed

lemma ih_heapify_inv:
  assumes s: "swo lt"
  shows "\<exists>d'. ih_heapify lt d = Inr d' \<and> iheap_inv lt d'"
proof (cases "length d \<le> 2")
  case True
  show ?thesis
  proof (cases "length d = 2")
    case two: True
    then obtain a b where d: "d = [a, b]" by (cases d; cases "tl d") auto
    have "iheap_inv lt [a, b]" if "\<not> lt b a" for a b
      using that by (auto simp: iheap_inv_def ih_N_def ih_lo_def ih_hi_def less_Suc_eq)
    then show ?thesis using d swo_asym[OF s]
      by (cases "lt b a") (auto simp: ih_heapify_def swp_def)
  next
    case False
    then have "length d \<le> 1" using True by simp
    then show ?thesis using iheap_inv_short[of d lt] by (simp add: ih_heapify_def)
  qed
next
  case False
  then have n: "3 \<le> length d" by simp
  then have ne: "d \<noteq> []" by auto
  from ih_balance_loop_inv[OF s ne, of 0] obtain d1 where
    d1: "ih_balance_loop lt 0 d = Inr d1" "ih_N lt d1" "length d1 = length d" by auto
  have u: "usub (length d1) 1 = length d - 1" using n d1 by simp
  let ?i = "(length d - 1) div 4 * 2"
  have vac: "\<not> (i < length d1 \<and> 2 \<le> i \<and> ?i + 2 \<le> ipar i)" for i
    using d1(3) unfolding ipar_def by presburger
  have nn: "nat (int ?i + 2) = ?i + 2" by simp
  have "ih_lo lt (nat (int ?i + 2)) d1" "ih_hi lt (nat (int ?i + 2)) d1"
    unfolding nn ih_lo_def ih_hi_def using vac by blast+
  moreover have "int ?i + 1 < int (length d1)" "even (int ?i)" "- 2 \<le> int ?i"
    using n d1 by simp_all
  ultimately obtain d' where "ih_heapify_loop lt (int ?i) d1 = Inr d'" "iheap_inv lt d'"
    using ih_heapify_loop_inv[OF s _ _ _ d1(2), of "int ?i"] by blast
  then show ?thesis using False d1 u by (simp add: ih_heapify_def)
qed

section \<open>The invariants as the specification states them, and runs of operations\<close>

definition ih_invariant :: "('a \<Rightarrow> 'a \<Rightarrow> bool) \<Rightarrow> 'a list \<Rightarrow> bool" where
  "ih_invariant lt d =
     ((\<forall>k. 2 * k + 1 < length d \<longrightarrow> \<not> lt (d ! (2 * k + 1)) (d ! (2 * k))) \<and>
      (\<forall>k. 1 \<le> k \<and> 2 * k < length d \<longrightarrow> \<not> lt (d ! (2 * k)) (d ! (2 * ((k - 1) div 2)))) \<and>
      (\<forall>k. 1 \<le> k \<and> 2 * k + 1 < length d \<longrightarrow>
           \<not> lt (d ! (2 * ((k - 1) div 2) + 1)) (d ! (2 * k + 1))) \<and>
      (\<forall>k. 1 \<le> k \<and> 2 * k + 1 = length d \<longrightarrow>
           \<not> lt (d ! (2 * ((k - 1) div 2) + 1)) (d ! (2 * k))))"

lemma ipar_node: "1 \<le> k \<Longrightarrow> ipar (2 * k) = 2 * ((k - 1) div 2) \<and> ipar (2 * k + 1) = 2 * ((k - 1) div 2)"
  unfolding ipar_def by presburger

lemma ih_invariant_iff:
  assumes s: "swo lt"
  shows "ih_invariant lt d = iheap_inv lt d"
proof
  assume a: "ih_invariant lt d"
  have iN: "\<And>k. 2 * k + 1 < length d \<Longrightarrow> \<not> lt (d ! (2 * k + 1)) (d ! (2 * k))"
    and imin: "\<And>k. 1 \<le> k \<Longrightarrow> 2 * k < length d \<Longrightarrow> \<not> lt (d ! (2 * k)) (d ! (2 * ((k - 1) div 2)))"
    and imax: "\<And>k. 1 \<le> k \<Longrightarrow> 2 * k + 1 < length d \<Longrightarrow>
           \<not> lt (d ! (2 * ((k - 1) div 2) + 1)) (d ! (2 * k + 1))"
    and ilone: "\<And>k. 1 \<le> k \<Longrightarrow> 2 * k + 1 = length d \<Longrightarrow>
           \<not> lt (d ! (2 * ((k - 1) div 2) + 1)) (d ! (2 * k))"
    using a unfolding ih_invariant_def by blast+
  have "ih_N lt d" unfolding ih_N_def
  proof (intro allI impI)
    fix i assume "i < length d" "odd i"
    then obtain k where "i = 2 * k + 1" by (auto elim: oddE)
    then show "\<not> lt (d ! i) (d ! (i - 1))" using iN[of k] \<open>i < length d\<close> by simp
  qed
  moreover have "ih_lo lt 0 d" unfolding ih_lo_def
  proof (intro allI impI)
    fix i assume i: "i < length d" "2 \<le> i \<and> 0 \<le> ipar i"
    show "\<not> lt (d ! i) (d ! ipar i)"
    proof (cases "even i")
      case True
      then obtain k where k: "i = 2 * k" by (auto elim: evenE)
      then have "1 \<le> k" using i by simp
      then show ?thesis using imin[of k] ipar_node[of k] i k by simp
    next
      case False
      then obtain k where k: "i = 2 * k + 1" by (auto elim: oddE)
      then have k1: "1 \<le> k" using i by simp
      have "\<not> lt (d ! (2 * k)) (d ! ipar i)" using imin[of k] ipar_node[OF k1] i k by simp
      moreover have "\<not> lt (d ! i) (d ! (2 * k))" using iN[of k] i k by simp
      ultimately show ?thesis using swo_le_trans[OF s] by blast
    qed
  qed
  moreover have "ih_hi lt 0 d" unfolding ih_hi_def
  proof (intro allI impI)
    fix i assume i: "i < length d" "2 \<le> i \<and> 0 \<le> ipar i"
    show "\<not> lt (d ! (ipar i + 1)) (d ! i)"
    proof (cases "even i")
      case True
      then obtain k where k: "i = 2 * k" by (auto elim: evenE)
      then have k1: "1 \<le> k" using i by simp
      show ?thesis
      proof (cases "2 * k + 1 < length d")
        case t: True
        have "\<not> lt (d ! (ipar i + 1)) (d ! (2 * k + 1))" using imax[OF k1 t] ipar_node[OF k1] k by simp
        moreover have "\<not> lt (d ! (2 * k + 1)) (d ! i)" using iN[OF t] k by simp
        ultimately show ?thesis using swo_le_trans[OF s] by blast
      next
        case False
        then have "2 * k + 1 = length d" using i k by simp
        then show ?thesis using ilone[OF k1] ipar_node[OF k1] k by simp
      qed
    next
      case False
      then obtain k where k: "i = 2 * k + 1" by (auto elim: oddE)
      then have k1: "1 \<le> k" using i by simp
      then show ?thesis using imax[of k] ipar_node[OF k1] i k by simp
    qed
  qed
  ultimately show "iheap_inv lt d" by (simp add: iheap_inv_def)
next
  assume a: "iheap_inv lt d"
  have N: "ih_N lt d" and lo: "ih_lo lt 0 d" and hi: "ih_hi lt 0 d"
    using a by (auto simp: iheap_inv_def)
  show "ih_invariant lt d" unfolding ih_invariant_def
  proof (intro conjI allI impI)
    fix k assume "2 * k + 1 < length d"
    then show "\<not> lt (d ! (2 * k + 1)) (d ! (2 * k))" using ih_ND[OF N, of "2 * k + 1"] by simp
  next
    fix k assume k: "1 \<le> k \<and> 2 * k < length d"
    then show "\<not> lt (d ! (2 * k)) (d ! (2 * ((k - 1) div 2)))"
      using ih_loD[OF lo, of "2 * k"] ipar_node[of k] by simp
  next
    fix k assume k: "1 \<le> k \<and> 2 * k + 1 < length d"
    then show "\<not> lt (d ! (2 * ((k - 1) div 2) + 1)) (d ! (2 * k + 1))"
      using ih_hiD[OF hi, of "2 * k + 1"] ipar_node[of k] by simp
  next
    fix k assume k: "1 \<le> k \<and> 2 * k + 1 = length d"
    then have "2 * k < length d" by simp
    then show "\<not> lt (d ! (2 * ((k - 1) div 2) + 1)) (d ! (2 * k))"
      using ih_hiD[OF hi, of "2 * k"] ipar_node[of k] k by simp
  qed
qed

lemma bh_root_min:
  assumes s: "swo lt" and inv: "bheap_inv lt d"
  shows "i < length d \<Longrightarrow> \<not> lt (d ! i) (d ! 0)"
proof (induction i rule: less_induct)
  case (less i)
  show ?case
  proof (cases "i = 0")
    case True
    then show ?thesis using swo_irrefl[OF s] by simp
  next
    case False
    then have p: "(i - 1) div 2 < i" by simp
    then have "\<not> lt (d ! ((i - 1) div 2)) (d ! 0)" using less.IH[OF p] less.prems by simp
    moreover have "\<not> lt (d ! i) (d ! ((i - 1) div 2))"
      using inv False less.prems by (simp add: bheap_inv_def)
    ultimately show ?thesis using swo_le_trans[OF s] by blast
  qed
qed

definition int_less :: "int \<Rightarrow> int \<Rightarrow> bool" where
  "int_less a b = (a < b)"

lemma swo_int_less: "swo int_less"
  by (auto simp: swo_def int_less_def)

lemma ih_up_local_push:
  "ih_up_local lt x (length d) (d @ [x]) =
     Inr (if odd (length d) \<and> lt x (d ! (length d - 1))
          then (length d - 1, d @ [d ! (length d - 1)]) else (length d, d @ [x]))"
proof (cases "odd (length d)")
  case True
  then have "1 \<le> length d" "length d - 1 < length d" by (auto elim: oddE)
  then show ?thesis using True by (simp add: ih_up_local_def is_max_odd nth_append)
next
  case False
  then show ?thesis by (simp add: ih_up_local_def is_max_odd)
qed



datatype 'a bh_op = BPush 'a | BEmplace 'a | BPop | BReplaceTop 'a

fun bh_apply ::
  "('a \<Rightarrow> 'a \<Rightarrow> bool) \<Rightarrow> 'a bh_op \<Rightarrow> 'a list \<times> 'a multiset \<Rightarrow> error + ('a list \<times> 'a multiset)" where
  "bh_apply lt (BPush x) (d, m) = bnd (bh_push lt x d) (\<lambda>d'. Inr (d', m + {#x#}))"
| "bh_apply lt (BEmplace x) (d, m) = bnd (bh_emplace lt x d) (\<lambda>d'. Inr (d', m + {#x#}))"
| "bh_apply lt BPop (d, m) =
     bnd (bh_top d) (\<lambda>t. bnd (bh_pop lt d) (\<lambda>d'. Inr (d', m - {#t#})))"
| "bh_apply lt (BReplaceTop x) (d, m) =
     bnd (bh_top d) (\<lambda>t. bnd (bh_replace_top lt x d) (\<lambda>d'. Inr (d', m - {#t#} + {#x#})))"

fun bh_run ::
  "('a \<Rightarrow> 'a \<Rightarrow> bool) \<Rightarrow> 'a bh_op list \<Rightarrow> 'a list \<times> 'a multiset \<Rightarrow>
   error + ('a list \<times> 'a multiset)" where
  "bh_run lt [] s = Inr s"
| "bh_run lt (op # ops) s = bnd (bh_apply lt op s) (bh_run lt ops)"

datatype 'a ih_op = IPush 'a | IEmplace 'a | IPopMin | IPopMax | IReplaceMin 'a | IReplaceMax 'a

fun ih_apply ::
  "('a \<Rightarrow> 'a \<Rightarrow> bool) \<Rightarrow> 'a ih_op \<Rightarrow> 'a list \<times> 'a multiset \<Rightarrow> error + ('a list \<times> 'a multiset)" where
  "ih_apply lt (IPush x) (d, m) = bnd (ih_push lt x d) (\<lambda>d'. Inr (d', m + {#x#}))"
| "ih_apply lt (IEmplace x) (d, m) = bnd (ih_emplace lt x d) (\<lambda>d'. Inr (d', m + {#x#}))"
| "ih_apply lt IPopMin (d, m) =
     bnd (ih_min d) (\<lambda>t. bnd (ih_pop_min lt d) (\<lambda>d'. Inr (d', m - {#t#})))"
| "ih_apply lt IPopMax (d, m) =
     bnd (ih_max d) (\<lambda>t. bnd (ih_pop_max lt d) (\<lambda>d'. Inr (d', m - {#t#})))"
| "ih_apply lt (IReplaceMin x) (d, m) =
     bnd (ih_min d) (\<lambda>t. bnd (ih_replace_min lt x d) (\<lambda>d'. Inr (d', m - {#t#} + {#x#})))"
| "ih_apply lt (IReplaceMax x) (d, m) =
     bnd (ih_max d) (\<lambda>t. bnd (ih_replace_max lt x d) (\<lambda>d'. Inr (d', m - {#t#} + {#x#})))"

fun ih_run ::
  "('a \<Rightarrow> 'a \<Rightarrow> bool) \<Rightarrow> 'a ih_op list \<Rightarrow> 'a list \<times> 'a multiset \<Rightarrow>
   error + ('a list \<times> 'a multiset)" where
  "ih_run lt [] s = Inr s"
| "ih_run lt (op # ops) s = bnd (ih_apply lt op s) (ih_run lt ops)"

lemma bh_top_ok: "d \<noteq> [] \<Longrightarrow> bh_top d = Inr (d ! 0)"
  by (simp add: bh_top_def bh_empty_def)

lemma bh_top_empty: "bh_top [] = Inl AssertionFailed"
  by (simp add: bh_top_def bh_empty_def)

lemma ih_min_ok: "d \<noteq> [] \<Longrightarrow> ih_min d = Inr (d ! 0)"
  by (simp add: ih_min_def ih_empty_def)

lemma ih_max_ok: "d \<noteq> [] \<Longrightarrow> ih_max d = Inr (d ! (if length d > 1 then 1 else 0))"
  by (simp add: ih_max_def ih_empty_def ih_size_def)

lemma ih_min_empty: "ih_min [] = Inl AssertionFailed" "ih_max [] = Inl AssertionFailed"
  by (simp_all add: ih_min_def ih_max_def ih_empty_def)

lemma bh_apply_inv:
  assumes s: "swo lt" and inv: "bheap_inv lt d" and r: "bh_apply lt op (d, mset d) = Inr (d', m')"
  shows "bheap_inv lt d' \<and> m' = mset d'"
proof (cases op)
  case (BPush x)
  then show ?thesis using r bh_push_inv[OF s inv, of x] bh_push_total[of lt x d] by auto
next
  case (BEmplace x)
  then show ?thesis using r bh_push_inv[OF s inv, of x] bh_push_total[of lt x d]
    by (auto simp: bh_emplace_def bh_push_def)
next
  case BPop
  show ?thesis
  proof (cases "d = []")
    case True
    then show ?thesis using r BPop by (simp add: bh_top_empty)
  next
    case False
    then show ?thesis using r BPop bh_pop_inv[OF s inv False] bh_pop_total[OF False, of lt]
      by (auto simp: bh_top_ok)
  qed
next
  case (BReplaceTop x)
  show ?thesis
  proof (cases "d = []")
    case True
    then show ?thesis using r BReplaceTop by (simp add: bh_top_empty)
  next
    case False
    then show ?thesis using r BReplaceTop bh_replace_top_inv[OF s inv False, of x]
        bh_replace_top_total[OF False, of lt x]
      by (auto simp: bh_top_ok)
  qed
qed

lemma bh_run_inv:
  "swo lt \<Longrightarrow> bheap_inv lt d \<Longrightarrow> bh_run lt ops (d, mset d) = Inr (d', m') \<Longrightarrow>
   bheap_inv lt d' \<and> m' = mset d'"
proof (induction ops arbitrary: d)
  case Nil
  then show ?case by auto
next
  case (Cons op ops)
  from Cons.prems(3) obtain d1 m1 where a: "bh_apply lt op (d, mset d) = Inr (d1, m1)"
    "bh_run lt ops (d1, m1) = Inr (d', m')"
    by (cases "bh_apply lt op (d, mset d)") auto
  from bh_apply_inv[OF Cons.prems(1,2) a(1)] have "bheap_inv lt d1" "m1 = mset d1" by auto
  then show ?case using Cons.IH[OF Cons.prems(1), of d1] a(2) by simp
qed

lemma ih_apply_inv:
  assumes s: "swo lt" and inv: "iheap_inv lt d" and r: "ih_apply lt op (d, mset d) = Inr (d', m')"
  shows "iheap_inv lt d' \<and> m' = mset d'"
proof (cases "d = []")
  case True
  show ?thesis
  proof (cases op)
    case (IPush x)
    then show ?thesis using r ih_push_inv[OF s inv, of x] ih_push_total[of lt x d] by auto
  next
    case (IEmplace x)
    then show ?thesis using r ih_push_inv[OF s inv, of x] ih_push_total[of lt x d]
      by (auto simp: ih_emplace_def ih_push_def)
  qed (use r True in \<open>simp_all add: ih_min_empty\<close>)
next
  case False
  show ?thesis
  proof (cases op)
    case (IPush x)
    then show ?thesis using r ih_push_inv[OF s inv, of x] ih_push_total[of lt x d] by auto
  next
    case (IEmplace x)
    then show ?thesis using r ih_push_inv[OF s inv, of x] ih_push_total[of lt x d]
      by (auto simp: ih_emplace_def ih_push_def)
  next
    case IPopMin
    then show ?thesis using r ih_pop_min_inv[OF s inv False] ih_pop_min_total[OF False, of lt]
      by (auto simp: ih_min_ok[OF False])
  next
    case IPopMax
    then show ?thesis using r ih_pop_max_inv[OF s inv False] ih_pop_max_total[OF False, of lt]
      by (auto simp: ih_max_ok[OF False])
  next
    case (IReplaceMin x)
    then show ?thesis using r ih_replace_min_inv[OF s inv False, of x]
        ih_replace_min_total[OF False, of lt x]
      by (auto simp: ih_min_ok[OF False])
  next
    case (IReplaceMax x)
    then show ?thesis using r ih_replace_max_inv[OF s inv False, of x]
        ih_replace_max_total[OF False, of lt x]
      by (auto simp: ih_max_ok[OF False])
  qed
qed

lemma ih_run_inv:
  "swo lt \<Longrightarrow> iheap_inv lt d \<Longrightarrow> ih_run lt ops (d, mset d) = Inr (d', m') \<Longrightarrow>
   iheap_inv lt d' \<and> m' = mset d'"
proof (induction ops arbitrary: d)
  case Nil
  then show ?case by auto
next
  case (Cons op ops)
  from Cons.prems(3) obtain d1 m1 where a: "ih_apply lt op (d, mset d) = Inr (d1, m1)"
    "ih_run lt ops (d1, m1) = Inr (d', m')"
    by (cases "ih_apply lt op (d, mset d)") auto
  from ih_apply_inv[OF Cons.prems(1,2) a(1)] have "iheap_inv lt d1" "m1 = mset d1" by auto
  then show ?case using Cons.IH[OF Cons.prems(1), of d1] a(2) by simp
qed


text \<open>Reading the extreme and removing it, \<open>n\<close> times over: the elements read, in order.\<close>

fun bh_drain :: "('a \<Rightarrow> 'a \<Rightarrow> bool) \<Rightarrow> nat \<Rightarrow> 'a list \<Rightarrow> error + 'a list" where
  "bh_drain lt 0 d = Inr []"
| "bh_drain lt (Suc n) d =
     bnd (bh_top d) (\<lambda>t. bnd (bh_pop lt d) (\<lambda>d'. bnd (bh_drain lt n d') (\<lambda>ys. Inr (t # ys))))"

datatype side = SMin | SMax

fun ih_drain :: "('a \<Rightarrow> 'a \<Rightarrow> bool) \<Rightarrow> side list \<Rightarrow> 'a list \<Rightarrow> error + 'a list" where
  "ih_drain lt [] d = Inr []"
| "ih_drain lt (SMin # cs) d =
     bnd (ih_min d) (\<lambda>t. bnd (ih_pop_min lt d) (\<lambda>d'. bnd (ih_drain lt cs d') (\<lambda>ys. Inr (t # ys))))"
| "ih_drain lt (SMax # cs) d =
     bnd (ih_max d) (\<lambda>t. bnd (ih_pop_max lt d) (\<lambda>d'. bnd (ih_drain lt cs d') (\<lambda>ys. Inr (t # ys))))"

lemma bh_drain_sorted:
  "swo lt \<Longrightarrow> bheap_inv lt d \<Longrightarrow> n = length d \<Longrightarrow>
   \<exists>ys. bh_drain lt n d = Inr ys \<and> mset ys = mset d \<and> sorted_wrt (\<lambda>a b. \<not> lt b a) ys"
proof (induction n arbitrary: d)
  case 0
  then show ?case by simp
next
  case (Suc n)
  then have ne: "d \<noteq> []" by auto
  from bh_pop_total[OF ne, of lt] bh_pop_inv[OF Suc.prems(1,2) ne] obtain d' where
    p: "bh_pop lt d = Inr d'" "mset d' = mset d - {#d ! 0#}" "length d' = length d - 1"
      "bheap_inv lt d'" by auto
  have "n = length d'" using p(3) Suc.prems(3) by simp
  from Suc.IH[OF Suc.prems(1) p(4) this] obtain ys where
    y: "bh_drain lt n d' = Inr ys" "mset ys = mset d'" "sorted_wrt (\<lambda>a b. \<not> lt b a) ys" by auto
  have "\<not> lt y (d ! 0)" if "y \<in> set ys" for y
  proof -
    from that have "y \<in># mset d'" using y(2) by (metis set_mset_mset)
    then have "y \<in># mset d" using p(2) by (auto dest: in_diffD)
    then obtain i where "i < length d" "y = d ! i" by (auto simp: in_set_conv_nth)
    then show ?thesis using bh_root_min[OF Suc.prems(1,2)] by simp
  qed
  moreover have "add_mset (d ! 0) (mset d - {#d ! 0#}) = mset d" using ne by simp
  ultimately show ?case using y p(1,2) bh_top_ok[OF ne] by simp
qed

lemma ih_drain_min_sorted:
  "swo lt \<Longrightarrow> iheap_inv lt d \<Longrightarrow> n = length d \<Longrightarrow>
   \<exists>ys. ih_drain lt (replicate n SMin) d = Inr ys \<and> mset ys = mset d \<and>
        sorted_wrt (\<lambda>a b. \<not> lt b a) ys"
proof (induction n arbitrary: d)
  case 0
  then show ?case by simp
next
  case (Suc n)
  then have ne: "d \<noteq> []" by auto
  from ih_pop_min_total[OF ne, of lt] ih_pop_min_inv[OF Suc.prems(1,2) ne] obtain d' where
    p: "ih_pop_min lt d = Inr d'" "mset d' = mset d - {#d ! 0#}" "length d' = length d - 1"
      "iheap_inv lt d'" by auto
  have "n = length d'" using p(3) Suc.prems(3) by simp
  from Suc.IH[OF Suc.prems(1) p(4) this] obtain ys where
    y: "ih_drain lt (replicate n SMin) d' = Inr ys" "mset ys = mset d'"
      "sorted_wrt (\<lambda>a b. \<not> lt b a) ys" by auto
  have "\<not> lt y (d ! 0)" if "y \<in> set ys" for y
  proof -
    from that have "y \<in># mset d'" using y(2) by (metis set_mset_mset)
    then have "y \<in># mset d" using p(2) by (auto dest: in_diffD)
    then obtain i where "i < length d" "y = d ! i" by (auto simp: in_set_conv_nth)
    then show ?thesis using ih_root_ext[OF Suc.prems(1,2)] by simp
  qed
  moreover have "add_mset (d ! 0) (mset d - {#d ! 0#}) = mset d" using ne by simp
  ultimately show ?case using y p(1,2) ih_min_ok[OF ne] by simp
qed

lemma ih_drain_max_sorted:
  "swo lt \<Longrightarrow> iheap_inv lt d \<Longrightarrow> n = length d \<Longrightarrow>
   \<exists>ys. ih_drain lt (replicate n SMax) d = Inr ys \<and> mset ys = mset d \<and>
        sorted_wrt (\<lambda>a b. \<not> lt a b) ys"
proof (induction n arbitrary: d)
  case 0
  then show ?case by simp
next
  case (Suc n)
  then have ne: "d \<noteq> []" by auto
  let ?k = "if length d > 1 then 1 else 0 :: nat"
  have k: "?k < length d" using ne by simp
  from ih_pop_max_total[OF ne, of lt] ih_pop_max_inv[OF Suc.prems(1,2) ne] obtain d' where
    p: "ih_pop_max lt d = Inr d'" "mset d' = mset d - {#d ! ?k#}" "length d' = length d - 1"
      "iheap_inv lt d'" by auto
  have "n = length d'" using p(3) Suc.prems(3) by simp
  from Suc.IH[OF Suc.prems(1) p(4) this] obtain ys where
    y: "ih_drain lt (replicate n SMax) d' = Inr ys" "mset ys = mset d'"
      "sorted_wrt (\<lambda>a b. \<not> lt a b) ys" by auto
  have "\<not> lt (d ! ?k) y" if "y \<in> set ys" for y
  proof -
    from that have "y \<in># mset d'" using y(2) by (metis set_mset_mset)
    then have "y \<in># mset d" using p(2) by (auto dest: in_diffD)
    then obtain i where i: "i < length d" "y = d ! i" by (auto simp: in_set_conv_nth)
    show ?thesis
    proof (cases "1 < length d")
      case True
      then show ?thesis using ih_root_ext[OF Suc.prems(1,2) i(1)] i(2) by simp
    next
      case False
      then have "i = 0" using i(1) by simp
      then show ?thesis using False i(2) swo_irrefl[OF Suc.prems(1)] by simp
    qed
  qed
  moreover have "d ! ?k \<in># mset d" using k by (metis nth_mem set_mset_mset)
  then have "add_mset (d ! ?k) (mset d - {#d ! ?k#}) = mset d" by simp
  ultimately show ?case using y p(1,2) ih_max_ok[OF ne] by simp
qed

text \<open>A call that returns in the build with assertions returns the same in the build
  without them: every assertion on its way held.\<close>

lemma assert_that_Inr: "bnd (assert_that c) f = Inr r \<Longrightarrow> f () = Inr r"
  by (cases c) simp_all

lemma bh_top_ndebug_eq: "bh_top d = Inr r \<Longrightarrow> bh_top_ndebug d = Inr r"
  unfolding bh_top_def bh_top_ndebug_def by (rule assert_that_Inr)

lemma bh_bubble_up_ndebug_eq:
  "bh_bubble_up lt idx d = Inr r \<Longrightarrow> bh_bubble_up_ndebug lt idx d = Inr r"
  unfolding bh_bubble_up_def bh_bubble_up_ndebug_def by (rule assert_that_Inr)

lemma bh_bubble_down_ndebug_eq:
  "bh_bubble_down lt idx d = Inr r \<Longrightarrow> bh_bubble_down_ndebug lt idx d = Inr r"
  unfolding bh_bubble_down_def bh_bubble_down_ndebug_def by (rule assert_that_Inr)

lemma bh_move_hole_down_ndebug_eq:
  "bh_move_hole_down lt idx d = Inr r \<Longrightarrow> bh_move_hole_down_ndebug lt idx d = Inr r"
  unfolding bh_move_hole_down_def bh_move_hole_down_ndebug_def by (rule assert_that_Inr)

lemma ih_bubble_down_min_ndebug_eq:
  "ih_bubble_down_min lt idx d = Inr r \<Longrightarrow> ih_bubble_down_min_ndebug lt idx d = Inr r"
  unfolding ih_bubble_down_min_def ih_bubble_down_min_ndebug_def by (rule assert_that_Inr)

lemma ih_bubble_down_max_ndebug_eq:
  "ih_bubble_down_max lt idx d = Inr r \<Longrightarrow> ih_bubble_down_max_ndebug lt idx d = Inr r"
  unfolding ih_bubble_down_max_def ih_bubble_down_max_ndebug_def by (rule assert_that_Inr)

lemma bnd_InrE: "bnd m f = Inr r \<Longrightarrow> (\<And>x. m = Inr x \<Longrightarrow> f x = Inr r \<Longrightarrow> P) \<Longrightarrow> P"
  by (cases m) simp_all

lemma bh_pop_ndebug_eq:
  assumes "bh_pop lt d = Inr r"
  shows "bh_pop_ndebug lt d = Inr r"
proof -
  from assert_that_Inr[OF assms[unfolded bh_pop_def]]
  have a: "bnd (bh_move_hole_down lt ROOT d) (\<lambda>(idx, d1).
       if idx + 1 = length d1 then pop_back d1
       else bnd (vec_back d1) (\<lambda>b.
            bnd (wr d1 idx b) (\<lambda>d2.
            bnd (pop_back d2) (\<lambda>d3.
            bh_bubble_up lt idx d3)))) = Inr r" .
  from a obtain idx d1 where h: "bh_move_hole_down lt ROOT d = Inr (idx, d1)"
    and b: "(if idx + 1 = length d1 then pop_back d1
       else bnd (vec_back d1) (\<lambda>b.
            bnd (wr d1 idx b) (\<lambda>d2.
            bnd (pop_back d2) (\<lambda>d3.
            bh_bubble_up lt idx d3)))) = Inr r"
    by (cases "bh_move_hole_down lt ROOT d") auto
  note h' = bh_move_hole_down_ndebug_eq[OF h]
  show ?thesis
  proof (cases "idx + 1 = length d1")
    case True
    then show ?thesis using b h' by (simp add: bh_pop_ndebug_def)
  next
    case False
    with b obtain x d2 d3 where c: "vec_back d1 = Inr x" "wr d1 idx x = Inr d2"
      "pop_back d2 = Inr d3" "bh_bubble_up lt idx d3 = Inr r"
      by (auto elim!: bnd_InrE)
    then show ?thesis using False h' bh_bubble_up_ndebug_eq[OF c(4)]
      by (simp add: bh_pop_ndebug_def)
  qed
qed

lemma bh_replace_top_ndebug_eq:
  assumes "bh_replace_top lt v d = Inr r"
  shows "bh_replace_top_ndebug lt v d = Inr r"
proof -
  from assert_that_Inr[OF assms[unfolded bh_replace_top_def]]
  obtain d1 where "wr d ROOT v = Inr d1" "bh_bubble_down lt ROOT d1 = Inr r"
    by (auto elim!: bnd_InrE)
  then show ?thesis using bh_bubble_down_ndebug_eq by (simp add: bh_replace_top_ndebug_def)
qed

lemma ih_min_ndebug_eq: "ih_min d = Inr r \<Longrightarrow> ih_min_ndebug d = Inr r"
  unfolding ih_min_def ih_min_ndebug_def by (rule assert_that_Inr)

lemma ih_max_ndebug_eq: "ih_max d = Inr r \<Longrightarrow> ih_max_ndebug d = Inr r"
  unfolding ih_max_def ih_max_ndebug_def by (rule assert_that_Inr)

lemma ih_pop_min_ndebug_eq:
  assumes "ih_pop_min lt d = Inr r"
  shows "ih_pop_min_ndebug lt d = Inr r"
proof -
  from assert_that_Inr[OF assms[unfolded ih_pop_min_def]]
  have a: "(let n = length d in
     if n = 1 then pop_back d
     else bnd (ih_pop_min_move d) (\<lambda>d2. ih_bubble_down_min lt ROOT d2)) = Inr r" .
  show ?thesis
  proof (cases "length d = 1")
    case True
    then show ?thesis using a by (simp add: ih_pop_min_ndebug_def)
  next
    case False
    with a obtain d2 where "ih_pop_min_move d = Inr d2" "ih_bubble_down_min lt ROOT d2 = Inr r"
      by (auto elim!: bnd_InrE)
    then show ?thesis using False ih_bubble_down_min_ndebug_eq by (simp add: ih_pop_min_ndebug_def)
  qed
qed

lemma ih_pop_max_ndebug_eq:
  assumes "ih_pop_max lt d = Inr r"
  shows "ih_pop_max_ndebug lt d = Inr r"
proof -
  from assert_that_Inr[OF assms[unfolded ih_pop_max_def]]
  have a: "(let n = length d in
     if n = 1 then pop_back d
     else bnd (ih_pop_max_move d) (\<lambda>d2.
          if n > 2 then ih_bubble_down_max lt (ROOT + 1) d2 else Inr d2)) = Inr r" .
  show ?thesis
  proof (cases "length d = 1")
    case True
    then show ?thesis using a by (simp add: ih_pop_max_ndebug_def)
  next
    case False
    with a obtain d2 where c: "ih_pop_max_move d = Inr d2"
      "(if length d > 2 then ih_bubble_down_max lt (ROOT + 1) d2 else Inr d2) = Inr r"
      by (auto elim!: bnd_InrE)
    show ?thesis
    proof (cases "length d > 2")
      case True
      then show ?thesis using c False ih_bubble_down_max_ndebug_eq[of lt "ROOT + 1" d2 r]
        by (simp add: ih_pop_max_ndebug_def)
    next
      case F: False
      then show ?thesis using c False by (simp add: ih_pop_max_ndebug_def)
    qed
  qed
qed

lemma ih_replace_min_ndebug_eq:
  assumes "ih_replace_min lt v d = Inr r"
  shows "ih_replace_min_ndebug lt v d = Inr r"
proof -
  from assert_that_Inr[OF assms[unfolded ih_replace_min_def]]
  obtain d2 where "ih_replace_min_store lt v d = Inr d2" "ih_bubble_down_min lt ROOT d2 = Inr r"
    by (auto elim!: bnd_InrE)
  then show ?thesis using ih_bubble_down_min_ndebug_eq by (simp add: ih_replace_min_ndebug_def)
qed

lemma ih_replace_max_ndebug_eq:
  assumes "ih_replace_max lt v d = Inr r"
  shows "ih_replace_max_ndebug lt v d = Inr r"
proof -
  from assert_that_Inr[OF assms[unfolded ih_replace_max_def]]
  have a: "(if length d = 1 then wr d ROOT v
     else bnd (ih_replace_max_store lt v d) (\<lambda>d2.
          ih_bubble_down_max lt (ROOT + 1) d2)) = Inr r" .
  show ?thesis
  proof (cases "length d = 1")
    case True
    then show ?thesis using a by (simp add: ih_replace_max_ndebug_def)
  next
    case False
    with a obtain d2 where c: "ih_replace_max_store lt v d = Inr d2"
      "ih_bubble_down_max lt (ROOT + 1) d2 = Inr r"
      by (auto elim!: bnd_InrE)
    then show ?thesis using False ih_bubble_down_max_ndebug_eq[of lt "ROOT + 1" d2 r]
      by (simp add: ih_replace_max_ndebug_def)
  qed
qed

lemma bheap_inv_upt:
  "bheap_inv lt d = (\<forall>i \<in> set [1..<length d]. \<not> lt (d ! i) (d ! ((i - 1) div 2)))"
  by (auto simp: bheap_inv_def)

lemma ih_invariant_upt:
  "ih_invariant lt d =
     (\<forall>k \<in> set [0..<length d].
        (2 * k + 1 < length d \<longrightarrow> \<not> lt (d ! (2 * k + 1)) (d ! (2 * k))) \<and>
        (1 \<le> k \<and> 2 * k < length d \<longrightarrow> \<not> lt (d ! (2 * k)) (d ! (2 * ((k - 1) div 2)))) \<and>
        (1 \<le> k \<and> 2 * k + 1 < length d \<longrightarrow>
           \<not> lt (d ! (2 * ((k - 1) div 2) + 1)) (d ! (2 * k + 1))) \<and>
        (1 \<le> k \<and> 2 * k + 1 = length d \<longrightarrow>
           \<not> lt (d ! (2 * ((k - 1) div 2) + 1)) (d ! (2 * k))))"
  unfolding ih_invariant_def
proof (intro iffI ballI conjI allI impI)
qed (auto simp: Ball_def)

section \<open>An operation fused from two, and the two in sequence\<close>

text \<open>
  \<^verbatim>\<open>pop()\<close> immediately followed by \<^verbatim>\<open>push(v)\<close>, and the same for the two ends of the
  IntervalHeap. Two sequences of extremes are compared element by element up to
  equivalence under the comparator (neither element less than the other); \<open>total_on_eqv\<close>
  says that equivalent elements are equal, as for \<^verbatim>\<open>std::less\<close> on numbers or strings.
  \<open>pair_less\<close> compares pairs by their first component only.
\<close>

definition bh_pop_push :: "('a \<Rightarrow> 'a \<Rightarrow> bool) \<Rightarrow> 'a \<Rightarrow> 'a list \<Rightarrow> error + 'a list" where
  "bh_pop_push lt v d = bnd (bh_pop lt d) (\<lambda>d1. bh_push lt v d1)"

definition ih_pop_min_push :: "('a \<Rightarrow> 'a \<Rightarrow> bool) \<Rightarrow> 'a \<Rightarrow> 'a list \<Rightarrow> error + 'a list" where
  "ih_pop_min_push lt v d = bnd (ih_pop_min lt d) (\<lambda>d1. ih_push lt v d1)"

definition ih_pop_max_push :: "('a \<Rightarrow> 'a \<Rightarrow> bool) \<Rightarrow> 'a \<Rightarrow> 'a list \<Rightarrow> error + 'a list" where
  "ih_pop_max_push lt v d = bnd (ih_pop_max lt d) (\<lambda>d1. ih_push lt v d1)"

definition eqv :: "('a \<Rightarrow> 'a \<Rightarrow> bool) \<Rightarrow> 'a \<Rightarrow> 'a \<Rightarrow> bool" where
  "eqv lt a b = (\<not> lt a b \<and> \<not> lt b a)"

fun same_extremes :: "('a \<Rightarrow> 'a \<Rightarrow> bool) \<Rightarrow> error + 'a list \<Rightarrow> error + 'a list \<Rightarrow> bool" where
  "same_extremes lt (Inr ys) (Inr zs) = list_all2 (eqv lt) ys zs"
| "same_extremes lt (Inl e) (Inl f) = (e = f)"
| "same_extremes lt (Inr ys) (Inl f) = False"
| "same_extremes lt (Inl e) (Inr zs) = False"

definition total_on_eqv :: "('a \<Rightarrow> 'a \<Rightarrow> bool) \<Rightarrow> bool" where
  "total_on_eqv lt = (\<forall>a b. eqv lt a b \<longrightarrow> a = b)"

definition pair_less :: "int \<times> int \<Rightarrow> int \<times> int \<Rightarrow> bool" where
  "pair_less a b = (fst a < fst b)"

definition eq_cnt :: "('a \<Rightarrow> 'a \<Rightarrow> bool) \<Rightarrow> 'a multiset \<Rightarrow> 'a \<Rightarrow> nat" where
  "eq_cnt lt M x = size (filter_mset (eqv lt x) M)"

lemma swo_pair_less: "swo pair_less"
  by (auto simp: swo_def pair_less_def)

lemma eqv_refl: "swo lt \<Longrightarrow> eqv lt a a"
  using swo_irrefl[of lt a] by (simp add: eqv_def)

lemma eqv_sym: "eqv lt a b \<Longrightarrow> eqv lt b a"
  by (auto simp: eqv_def)

lemma eqv_trans:
  assumes s: "swo lt" and "eqv lt a b" and "eqv lt b c"
  shows "eqv lt a c"
  using swo_le_trans[OF s, of b c a] swo_le_trans[OF s, of b a c] assms(2,3) by (simp add: eqv_def)

lemma eq_cnt_remove:
  "t \<in># M \<Longrightarrow> eq_cnt lt (M - {#t#}) x = eq_cnt lt M x - (if eqv lt x t then 1 else 0)"
  by (simp add: eq_cnt_def size_Diff_singleton)

lemma eq_cnt_pos:
  assumes "swo lt" "t \<in># M"
  shows "0 < eq_cnt lt M t"
proof -
  have "t \<in># filter_mset (eqv lt t) M" using assms eqv_refl[of lt t] by simp
  then have "filter_mset (eqv lt t) M \<noteq> {#}" by force
  then show ?thesis unfolding eq_cnt_def using nonempty_has_size by blast
qed

lemma eq_cnt_ex:
  assumes "0 < eq_cnt lt M t"
  shows "\<exists>y. y \<in># M \<and> eqv lt t y"
proof -
  from assms have "filter_mset (eqv lt t) M \<noteq> {#}"
    unfolding eq_cnt_def using nonempty_has_size by blast
  then obtain y where "y \<in># filter_mset (eqv lt t) M" by (rule multiset_nonemptyE)
  then show ?thesis by auto
qed

lemma min_eqv:
  assumes s: "swo lt" and t: "t \<in># M" "\<forall>x \<in># M. \<not> lt x t" and u: "u \<in># N" "\<forall>x \<in># N. \<not> lt x u"
    and c: "\<forall>x. eq_cnt lt M x = eq_cnt lt N x"
  shows "eqv lt t u"
proof -
  from eq_cnt_pos[OF s t(1)] c eq_cnt_ex[of lt N t] obtain y where y: "y \<in># N" "eqv lt t y" by auto
  from eq_cnt_pos[OF s u(1)] c eq_cnt_ex[of lt M u] obtain z where z: "z \<in># M" "eqv lt u z" by auto
  have "\<not> lt y u" using u(2) y(1) by blast
  moreover have "\<not> lt t y" using y(2) by (simp add: eqv_def)
  ultimately have 1: "\<not> lt t u" using swo_le_trans[OF s] by blast
  have "\<not> lt z t" using t(2) z(1) by blast
  moreover have "\<not> lt u z" using z(2) by (simp add: eqv_def)
  ultimately have 2: "\<not> lt u t" using swo_le_trans[OF s] by blast
  show ?thesis using 1 2 by (simp add: eqv_def)
qed

lemma max_eqv:
  assumes s: "swo lt" and t: "t \<in># M" "\<forall>x \<in># M. \<not> lt t x" and u: "u \<in># N" "\<forall>x \<in># N. \<not> lt u x"
    and c: "\<forall>x. eq_cnt lt M x = eq_cnt lt N x"
  shows "eqv lt t u"
proof -
  from eq_cnt_pos[OF s t(1)] c eq_cnt_ex[of lt N t] obtain y where y: "y \<in># N" "eqv lt t y" by auto
  from eq_cnt_pos[OF s u(1)] c eq_cnt_ex[of lt M u] obtain z where z: "z \<in># M" "eqv lt u z" by auto
  have "\<not> lt u y" using u(2) y(1) by blast
  moreover have "\<not> lt y t" using y(2) by (simp add: eqv_def)
  ultimately have 1: "\<not> lt u t" using swo_le_trans[OF s] by blast
  have "\<not> lt t z" using t(2) z(1) by blast
  moreover have "\<not> lt z u" using z(2) by (simp add: eqv_def)
  ultimately have 2: "\<not> lt t u" using swo_le_trans[OF s] by blast
  show ?thesis using 1 2 by (simp add: eqv_def)
qed

lemma eq_cnt_step:
  assumes s: "swo lt" and e: "eqv lt t u" and t: "t \<in># M" and u: "u \<in># N"
    and c: "\<forall>x. eq_cnt lt M x = eq_cnt lt N x"
  shows "\<forall>x. eq_cnt lt (M - {#t#}) x = eq_cnt lt (N - {#u#}) x"
proof
  fix x
  have "eqv lt x t \<longleftrightarrow> eqv lt x u"
    using eqv_trans[OF s, of x t u] eqv_trans[OF s, of x u t] e eqv_sym[OF e] by blast
  then show "eq_cnt lt (M - {#t#}) x = eq_cnt lt (N - {#u#}) x"
    using c by (simp add: eq_cnt_remove[OF t] eq_cnt_remove[OF u])
qed

lemma same_extremes_Cons:
  "eqv lt t u \<Longrightarrow> same_extremes lt r1 r2 \<Longrightarrow>
   same_extremes lt (bnd r1 (\<lambda>ys. Inr (t # ys))) (bnd r2 (\<lambda>ys. Inr (u # ys)))"
  by (cases r1; cases r2) auto

lemma same_extremes_total:
  "total_on_eqv lt \<Longrightarrow> same_extremes lt r1 r2 \<Longrightarrow> r1 = r2"
proof (cases r1; cases r2)
  fix ys zs
  assume a: "total_on_eqv lt" "same_extremes lt r1 r2" "r1 = Inr ys" "r2 = Inr zs"
  then have "list_all2 (eqv lt) ys zs" by simp
  then have "list_all2 (=) ys zs"
    by (rule list_all2_mono) (use a(1) in \<open>simp add: total_on_eqv_def\<close>)
  then show "r1 = r2" using a by (simp add: list_all2_eq)
qed auto

lemma bh_drain_same:
  "swo lt \<Longrightarrow> bheap_inv lt d \<Longrightarrow> bheap_inv lt e \<Longrightarrow> length d = length e \<Longrightarrow>
   \<forall>x. eq_cnt lt (mset d) x = eq_cnt lt (mset e) x \<Longrightarrow>
   same_extremes lt (bh_drain lt n d) (bh_drain lt n e)"
proof (induction n arbitrary: d e)
  case 0
  then show ?case by simp
next
  case (Suc n)
  note s = Suc.prems(1)
  show ?case
  proof (cases "d = []")
    case True
    then have "e = []" using Suc.prems(4) by simp
    then show ?thesis using True by (simp add: bh_top_empty)
  next
    case False
    then have ne: "d \<noteq> []" "e \<noteq> []" using Suc.prems(4) by auto
    from bh_pop_total[OF ne(1), of lt] bh_pop_inv[OF s Suc.prems(2) ne(1)] obtain d' where
      pd: "bh_pop lt d = Inr d'" "mset d' = mset d - {#d ! 0#}" "length d' = length d - 1"
        "bheap_inv lt d'" by auto
    from bh_pop_total[OF ne(2), of lt] bh_pop_inv[OF s Suc.prems(3) ne(2)] obtain e' where
      pe: "bh_pop lt e = Inr e'" "mset e' = mset e - {#e ! 0#}" "length e' = length e - 1"
        "bheap_inv lt e'" by auto
    have md: "d ! 0 \<in># mset d" "\<forall>x \<in># mset d. \<not> lt x (d ! 0)"
      using ne(1) bh_root_min[OF s Suc.prems(2)] by (auto simp: in_set_conv_nth)
    have me: "e ! 0 \<in># mset e" "\<forall>x \<in># mset e. \<not> lt x (e ! 0)"
      using ne(2) bh_root_min[OF s Suc.prems(3)] by (auto simp: in_set_conv_nth)
    have q: "eqv lt (d ! 0) (e ! 0)" using min_eqv[OF s md me Suc.prems(5)] .
    have c: "\<forall>x. eq_cnt lt (mset d') x = eq_cnt lt (mset e') x"
      unfolding pd(2) pe(2) using eq_cnt_step[OF s q md(1) me(1) Suc.prems(5)] .
    have l: "length d' = length e'" using pd(3) pe(3) Suc.prems(4) by simp
    from Suc.IH[OF s pd(4) pe(4) l c]
    have "same_extremes lt (bh_drain lt n d') (bh_drain lt n e')" .
    from same_extremes_Cons[OF q this] show ?thesis
      using pd(1) pe(1) bh_top_ok[OF ne(1)] bh_top_ok[OF ne(2)] by simp
  qed
qed

lemma ih_extremes:
  assumes s: "swo lt" and inv: "iheap_inv lt d" and ne: "d \<noteq> []"
  shows "d ! 0 \<in># mset d" "\<forall>x \<in># mset d. \<not> lt x (d ! 0)"
    "d ! (if length d > 1 then 1 else 0) \<in># mset d"
    "\<forall>x \<in># mset d. \<not> lt (d ! (if length d > 1 then 1 else 0)) x"
proof -
  show "d ! 0 \<in># mset d" using ne by simp
  show "d ! (if length d > 1 then 1 else 0) \<in># mset d" using ne by auto
  show "\<forall>x \<in># mset d. \<not> lt x (d ! 0)"
    using ih_root_ext[OF s inv] by (auto simp: in_set_conv_nth)
  show "\<forall>x \<in># mset d. \<not> lt (d ! (if length d > 1 then 1 else 0)) x"
  proof
    fix x assume "x \<in># mset d"
    then obtain i where i: "i < length d" "x = d ! i" by (auto simp: in_set_conv_nth)
    show "\<not> lt (d ! (if length d > 1 then 1 else 0)) x"
    proof (cases "1 < length d")
      case True
      then show ?thesis using ih_root_ext[OF s inv i(1)] i(2) by simp
    next
      case False
      then have "i = 0" using i(1) by simp
      then show ?thesis using False i(2) swo_irrefl[OF s] by simp
    qed
  qed
qed

lemma ih_drain_same:
  "swo lt \<Longrightarrow> iheap_inv lt d \<Longrightarrow> iheap_inv lt e \<Longrightarrow> length d = length e \<Longrightarrow>
   \<forall>x. eq_cnt lt (mset d) x = eq_cnt lt (mset e) x \<Longrightarrow>
   same_extremes lt (ih_drain lt cs d) (ih_drain lt cs e)"
proof (induction cs arbitrary: d e)
  case Nil
  then show ?case by simp
next
  case (Cons c cs)
  note s = Cons.prems(1)
  show ?case
  proof (cases "d = []")
    case True
    then have "e = []" using Cons.prems(4) by simp
    then show ?thesis using True by (cases c) (simp_all add: ih_min_empty)
  next
    case False
    then have ne: "d \<noteq> []" "e \<noteq> []" using Cons.prems(4) by auto
    note xd = ih_extremes[OF s Cons.prems(2) ne(1)]
    note xe = ih_extremes[OF s Cons.prems(3) ne(2)]
    show ?thesis
    proof (cases c)
      case SMin
      from ih_pop_min_total[OF ne(1), of lt] ih_pop_min_inv[OF s Cons.prems(2) ne(1)] obtain d' where
        pd: "ih_pop_min lt d = Inr d'" "mset d' = mset d - {#d ! 0#}" "length d' = length d - 1"
          "iheap_inv lt d'" by auto
      from ih_pop_min_total[OF ne(2), of lt] ih_pop_min_inv[OF s Cons.prems(3) ne(2)] obtain e' where
        pe: "ih_pop_min lt e = Inr e'" "mset e' = mset e - {#e ! 0#}" "length e' = length e - 1"
          "iheap_inv lt e'" by auto
      have q: "eqv lt (d ! 0) (e ! 0)" using min_eqv[OF s xd(1,2) xe(1,2) Cons.prems(5)] .
      have c: "\<forall>x. eq_cnt lt (mset d') x = eq_cnt lt (mset e') x"
        unfolding pd(2) pe(2) using eq_cnt_step[OF s q xd(1) xe(1) Cons.prems(5)] .
      have l: "length d' = length e'" using pd(3) pe(3) Cons.prems(4) by simp
      from Cons.IH[OF s pd(4) pe(4) l c]
      have "same_extremes lt (ih_drain lt cs d') (ih_drain lt cs e')" .
      from same_extremes_Cons[OF q this] show ?thesis
        using pd(1) pe(1) ih_min_ok[OF ne(1)] ih_min_ok[OF ne(2)] SMin by simp
    next
      case SMax
      let ?kd = "if length d > 1 then 1 else 0 :: nat"
      let ?ke = "if length e > 1 then 1 else 0 :: nat"
      from ih_pop_max_total[OF ne(1), of lt] ih_pop_max_inv[OF s Cons.prems(2) ne(1)] obtain d' where
        pd: "ih_pop_max lt d = Inr d'" "mset d' = mset d - {#d ! ?kd#}" "length d' = length d - 1"
          "iheap_inv lt d'" by auto
      from ih_pop_max_total[OF ne(2), of lt] ih_pop_max_inv[OF s Cons.prems(3) ne(2)] obtain e' where
        pe: "ih_pop_max lt e = Inr e'" "mset e' = mset e - {#e ! ?ke#}" "length e' = length e - 1"
          "iheap_inv lt e'" by auto
      have q: "eqv lt (d ! ?kd) (e ! ?ke)" using max_eqv[OF s xd(3,4) xe(3,4) Cons.prems(5)] .
      have c: "\<forall>x. eq_cnt lt (mset d') x = eq_cnt lt (mset e') x"
        unfolding pd(2) pe(2) using eq_cnt_step[OF s q xd(3) xe(3) Cons.prems(5)] .
      have l: "length d' = length e'" using pd(3) pe(3) Cons.prems(4) by simp
      from Cons.IH[OF s pd(4) pe(4) l c]
      have "same_extremes lt (ih_drain lt cs d') (ih_drain lt cs e')" .
      from same_extremes_Cons[OF q this] show ?thesis
        using pd(1) pe(1) ih_max_ok[OF ne(1)] ih_max_ok[OF ne(2)] SMax by simp
    qed
  qed
qed

lemma same_mset_cnt: "mset a = mset b \<Longrightarrow> \<forall>x. eq_cnt lt (mset a) x = eq_cnt lt (mset b) x"
  by simp

lemma bh_fusion:
  assumes s: "swo lt" and ne: "d \<noteq> []" and inv: "bheap_inv lt d"
  shows "\<exists>a b. bh_replace_top lt v d = Inr a \<and> bh_pop_push lt v d = Inr b \<and> mset a = mset b \<and>
           bheap_inv lt a \<and> bheap_inv lt b \<and>
           same_extremes lt (bh_drain lt n a) (bh_drain lt n b)"
proof -
  from bh_replace_top_total[OF ne, of lt v] bh_replace_top_inv[OF s inv ne, of v] obtain a where
    a: "bh_replace_top lt v d = Inr a" "mset a = mset d - {#d ! 0#} + {#v#}" "bheap_inv lt a" by auto
  from bh_pop_total[OF ne, of lt] bh_pop_inv[OF s inv ne] obtain d1 where
    p: "bh_pop lt d = Inr d1" "mset d1 = mset d - {#d ! 0#}" "bheap_inv lt d1" by auto
  from bh_push_total[of lt v d1] bh_push_inv[OF s p(3), of v] obtain b where
    b: "bh_push lt v d1 = Inr b" "mset b = mset d1 + {#v#}" "bheap_inv lt b" by auto
  have m: "mset a = mset b" using a(2) b(2) p(2) by simp
  then have l: "length a = length b" by (metis size_mset)
  have "same_extremes lt (bh_drain lt n a) (bh_drain lt n b)"
    using bh_drain_same[OF s a(3) b(3) l same_mset_cnt[OF m]] .
  moreover have "bh_pop_push lt v d = Inr b" using p(1) b(1) by (simp add: bh_pop_push_def)
  ultimately show ?thesis using a(1,3) b(3) m by blast
qed

lemma ih_fusion_min:
  assumes s: "swo lt" and ne: "d \<noteq> []" and inv: "iheap_inv lt d"
  shows "\<exists>a b. ih_replace_min lt v d = Inr a \<and> ih_pop_min_push lt v d = Inr b \<and> mset a = mset b \<and>
           iheap_inv lt a \<and> iheap_inv lt b \<and>
           same_extremes lt (ih_drain lt cs a) (ih_drain lt cs b)"
proof -
  from ih_replace_min_total[OF ne, of lt v] ih_replace_min_inv[OF s inv ne, of v] obtain a where
    a: "ih_replace_min lt v d = Inr a" "mset a = mset d - {#d ! 0#} + {#v#}" "iheap_inv lt a" by auto
  from ih_pop_min_total[OF ne, of lt] ih_pop_min_inv[OF s inv ne] obtain d1 where
    p: "ih_pop_min lt d = Inr d1" "mset d1 = mset d - {#d ! 0#}" "iheap_inv lt d1" by auto
  from ih_push_total[of lt v d1] ih_push_inv[OF s p(3), of v] obtain b where
    b: "ih_push lt v d1 = Inr b" "mset b = mset d1 + {#v#}" "iheap_inv lt b" by auto
  have m: "mset a = mset b" using a(2) b(2) p(2) by simp
  then have l: "length a = length b" by (metis size_mset)
  have "same_extremes lt (ih_drain lt cs a) (ih_drain lt cs b)"
    using ih_drain_same[OF s a(3) b(3) l same_mset_cnt[OF m]] .
  moreover have "ih_pop_min_push lt v d = Inr b" using p(1) b(1) by (simp add: ih_pop_min_push_def)
  ultimately show ?thesis using a(1,3) b(3) m by blast
qed

lemma ih_fusion_max:
  assumes s: "swo lt" and ne: "d \<noteq> []" and inv: "iheap_inv lt d"
  shows "\<exists>a b. ih_replace_max lt v d = Inr a \<and> ih_pop_max_push lt v d = Inr b \<and> mset a = mset b \<and>
           iheap_inv lt a \<and> iheap_inv lt b \<and>
           same_extremes lt (ih_drain lt cs a) (ih_drain lt cs b)"
proof -
  let ?k = "if length d > 1 then 1 else 0 :: nat"
  from ih_replace_max_total[OF ne, of lt v] ih_replace_max_inv[OF s inv ne, of v] obtain a where
    a: "ih_replace_max lt v d = Inr a" "mset a = mset d - {#d ! ?k#} + {#v#}" "iheap_inv lt a" by auto
  from ih_pop_max_total[OF ne, of lt] ih_pop_max_inv[OF s inv ne] obtain d1 where
    p: "ih_pop_max lt d = Inr d1" "mset d1 = mset d - {#d ! ?k#}" "iheap_inv lt d1" by auto
  from ih_push_total[of lt v d1] ih_push_inv[OF s p(3), of v] obtain b where
    b: "ih_push lt v d1 = Inr b" "mset b = mset d1 + {#v#}" "iheap_inv lt b" by auto
  have m: "mset a = mset b" using a(2) b(2) p(2) by simp
  then have l: "length a = length b" by (metis size_mset)
  have "same_extremes lt (ih_drain lt cs a) (ih_drain lt cs b)"
    using ih_drain_same[OF s a(3) b(3) l same_mset_cnt[OF m]] .
  moreover have "ih_pop_max_push lt v d = Inr b" using p(1) b(1) by (simp add: ih_pop_max_push_def)
  ultimately show ?thesis using a(1,3) b(3) m by blast
qed

lemma total_on_eqv_int_less: "total_on_eqv int_less"
  by (auto simp: total_on_eqv_def eqv_def int_less_def)

section \<open>The callers of the bubble-down helpers, with the helpers' precondition asserted\<close>

text \<open>
  \<^verbatim>\<open>bubble_down_min(idx)\<close> and \<^verbatim>\<open>bubble_down_max(idx)\<close> document that the node they start at
  is ordered. \<open>node_ok lt idx d\<close> says so for the node whose min slot is \<open>idx\<close>; a node
  without a max slot is ordered. The checked helpers assert it before they run, and the
  checked callers are the callers of the source with the checked helpers in place of the
  helpers: a checked caller returns only if the precondition held at each of its calls.
\<close>

definition node_ok :: "('a \<Rightarrow> 'a \<Rightarrow> bool) \<Rightarrow> nat \<Rightarrow> 'a list \<Rightarrow> bool" where
  "node_ok lt idx d = (idx + 1 < length d \<longrightarrow> \<not> lt (d ! (idx + 1)) (d ! idx))"

definition ih_bubble_down_min_checked ::
  "('a \<Rightarrow> 'a \<Rightarrow> bool) \<Rightarrow> nat \<Rightarrow> 'a list \<Rightarrow> error + 'a list" where
  "ih_bubble_down_min_checked lt idx d =
     bnd (assert_that (node_ok lt idx d)) (\<lambda>_. ih_bubble_down_min lt idx d)"

definition ih_bubble_down_max_checked ::
  "('a \<Rightarrow> 'a \<Rightarrow> bool) \<Rightarrow> nat \<Rightarrow> 'a list \<Rightarrow> error + 'a list" where
  "ih_bubble_down_max_checked lt idx d =
     bnd (assert_that (node_ok lt (usub idx 1) d)) (\<lambda>_. ih_bubble_down_max lt idx d)"

definition ih_pop_min_checked :: "('a \<Rightarrow> 'a \<Rightarrow> bool) \<Rightarrow> 'a list \<Rightarrow> error + 'a list" where
  "ih_pop_min_checked lt d =
     bnd (assert_that (\<not> ih_empty d)) (\<lambda>_.
     let n = length d in
     if n = 1 then pop_back d
     else bnd (ih_pop_min_move d) (\<lambda>d2. ih_bubble_down_min_checked lt ROOT d2))"

definition ih_pop_max_checked :: "('a \<Rightarrow> 'a \<Rightarrow> bool) \<Rightarrow> 'a list \<Rightarrow> error + 'a list" where
  "ih_pop_max_checked lt d =
     bnd (assert_that (\<not> ih_empty d)) (\<lambda>_.
     let n = length d in
     if n = 1 then pop_back d
     else bnd (ih_pop_max_move d) (\<lambda>d2.
          if n > 2 then ih_bubble_down_max_checked lt (ROOT + 1) d2 else Inr d2))"

definition ih_replace_min_checked ::
  "('a \<Rightarrow> 'a \<Rightarrow> bool) \<Rightarrow> 'a \<Rightarrow> 'a list \<Rightarrow> error + 'a list" where
  "ih_replace_min_checked lt val d =
     bnd (assert_that (\<not> ih_empty d)) (\<lambda>_.
     bnd (ih_replace_min_store lt val d) (\<lambda>d2.
     ih_bubble_down_min_checked lt ROOT d2))"

definition ih_replace_max_checked ::
  "('a \<Rightarrow> 'a \<Rightarrow> bool) \<Rightarrow> 'a \<Rightarrow> 'a list \<Rightarrow> error + 'a list" where
  "ih_replace_max_checked lt val d =
     bnd (assert_that (\<not> ih_empty d)) (\<lambda>_.
     if length d = 1 then wr d ROOT val
     else bnd (ih_replace_max_store lt val d) (\<lambda>d2.
          ih_bubble_down_max_checked lt (ROOT + 1) d2))"

function ih_heapify_loop_checked ::
  "('a \<Rightarrow> 'a \<Rightarrow> bool) \<Rightarrow> int \<Rightarrow> 'a list \<Rightarrow> error + 'a list" where
  "ih_heapify_loop_checked lt i d =
     (if i \<ge> 0
      then bnd (ih_bubble_down_max_checked lt (nat (i + 1)) d) (\<lambda>d1.
           bnd (ih_bubble_down_min_checked lt (nat i) d1) (\<lambda>d2.
           ih_heapify_loop_checked lt (i - 2) d2))
      else Inr d)"
  by pat_completeness auto
termination
  by (relation "measure (\<lambda>(lt, i, d). nat (i + 2))") auto

definition ih_heapify_checked :: "('a \<Rightarrow> 'a \<Rightarrow> bool) \<Rightarrow> 'a list \<Rightarrow> error + 'a list" where
  "ih_heapify_checked lt d =
     (if length d \<le> 2 then
        (if length d = 2
         then bnd (cmp lt d 1 0) (\<lambda>b. if b then sw d 1 0 else Inr d)
         else Inr d)
      else
        bnd (ih_balance_loop lt 0 d) (\<lambda>d1.
        ih_heapify_loop_checked lt (int (usub (length d1) 1 div 4 * 2)) d1))"

declare ih_heapify_loop_checked.simps [simp del]

lemma ih_N_node_ok: "ih_N lt d \<Longrightarrow> even idx \<Longrightarrow> node_ok lt idx d"
  using ih_ND[of lt d "idx + 1"] by (simp add: node_ok_def)

lemma ih_heapify_loop_checked_eq:
  "swo lt \<Longrightarrow> even i \<Longrightarrow> - 2 \<le> i \<Longrightarrow> i + 1 < int (length d) \<Longrightarrow>
   ih_N lt d \<Longrightarrow> ih_lo lt (nat (i + 2)) d \<Longrightarrow> ih_hi lt (nat (i + 2)) d \<Longrightarrow>
   ih_heapify_loop_checked lt i d = ih_heapify_loop lt i d"
proof (induction lt i d rule: ih_heapify_loop.induct)
  case (1 lt i d)
  show ?case
  proof (cases "i \<ge> 0")
    case True
    define j where "j = nat i"
    have j: "even j" "j < length d" "j + 1 < length d" "nat (i + 1) = j + 1" "nat (i + 2) = j + 2"
      using True "1.prems" by (auto simp: j_def even_nat_iff nat_add_distrib)
    from ih_bubble_down_max_inv[OF "1.prems"(1)
        ih_heapify_step_max[OF j(1,2) "1.prems"(5)] _ j(3)] "1.prems"(6,7) j(5)
    obtain d1 where d1: "ih_bubble_down_max lt (j + 1) d = Inr d1" "ih_N lt d1"
      "ih_lo lt (j + 2) d1" "ih_hi lt j d1" by auto
    have l1: "length d1 = length d"
      using ih_bubble_down_max_total[of "j + 1" d lt] d1(1) j by auto
    from ih_bubble_down_min_inv[OF "1.prems"(1) ih_heapify_step_min[OF j(1) _ d1(2,3,4)]] j l1
    obtain d2 where d2: "ih_bubble_down_min lt j d1 = Inr d2" "ih_N lt d2"
      "ih_hi lt j d2" "ih_lo lt j d2" by auto
    have l2: "length d2 = length d"
      using ih_bubble_down_min_total[of j d1 lt] d2(1) j l1 by auto
    have n2: "nat (i - 2 + 2) = j" by (simp add: j_def)
    have ok: "node_ok lt j d" "node_ok lt j d1"
      using ih_N_node_ok[OF "1.prems"(5) j(1)] ih_N_node_ok[OF d1(2) j(1)] by simp_all
    have u: "usub (j + 1) 1 = j" by (simp add: usub_def)
    have "ih_heapify_loop_checked lt (i - 2) d2 = ih_heapify_loop lt (i - 2) d2"
      using "1.IH"[OF True _ _ "1.prems"(1), of d1 d2] d1(1) d2 j(4) l2 "1.prems" True n2
      by (simp add: j_def)
    moreover have "ih_heapify_loop lt i d = ih_heapify_loop lt (i - 2) d2"
      using True d1(1) d2(1) j(4) by (subst ih_heapify_loop.simps) (simp add: j_def)
    moreover have "ih_heapify_loop_checked lt i d = ih_heapify_loop_checked lt (i - 2) d2"
      using True d1(1) d2(1) j(4) ok u
      by (subst ih_heapify_loop_checked.simps)
         (simp add: j_def ih_bubble_down_max_checked_def ih_bubble_down_min_checked_def)
    ultimately show ?thesis by simp
  next
    case False
    then show ?thesis
      by (subst ih_heapify_loop.simps, subst ih_heapify_loop_checked.simps) simp
  qed
qed

lemma ih_heapify_checked_eq:
  assumes s: "swo lt"
  shows "ih_heapify_checked lt d = ih_heapify lt d"
proof (cases "length d \<le> 2")
  case True
  then show ?thesis by (simp add: ih_heapify_checked_def ih_heapify_def)
next
  case False
  then have n: "3 \<le> length d" by simp
  then have ne: "d \<noteq> []" by auto
  from ih_balance_loop_inv[OF s ne, of 0] obtain d1 where
    d1: "ih_balance_loop lt 0 d = Inr d1" "ih_N lt d1" "length d1 = length d" by auto
  have u: "usub (length d1) 1 = length d - 1" using n d1 by simp
  let ?i = "(length d - 1) div 4 * 2"
  have vac: "\<not> (i < length d1 \<and> 2 \<le> i \<and> ?i + 2 \<le> ipar i)" for i
    using d1(3) unfolding ipar_def by presburger
  have nn: "nat (int ?i + 2) = ?i + 2" by simp
  have "ih_lo lt (nat (int ?i + 2)) d1" "ih_hi lt (nat (int ?i + 2)) d1"
    unfolding nn ih_lo_def ih_hi_def using vac by blast+
  moreover have "int ?i + 1 < int (length d1)" "even (int ?i)" "- 2 \<le> int ?i"
    using n d1 by simp_all
  ultimately have "ih_heapify_loop_checked lt (int ?i) d1 = ih_heapify_loop lt (int ?i) d1"
    using ih_heapify_loop_checked_eq[OF s _ _ _ d1(2), of "int ?i"] by blast
  then show ?thesis using False d1 u by (simp add: ih_heapify_checked_def ih_heapify_def)
qed

lemma ih_pop_min_move_node_ok:
  assumes s: "swo lt" and inv: "iheap_inv lt d" and n: "2 \<le> length d"
  shows "node_ok lt ROOT (pm_pre d)"
  using ih_pop_min_pre_inv[OF s inv n] by (auto simp: dmin_inv_def intro: ih_N_node_ok)

lemma ih_pop_max_move_node_ok:
  assumes s: "swo lt" and inv: "iheap_inv lt d" and n: "3 \<le> length d"
  shows "node_ok lt ROOT (px_pre d)"
  using ih_pop_max_pre_inv[OF s inv n] by (auto simp: dmax_inv_def intro: ih_N_node_ok)

lemma ih_replace_min_store_node_ok:
  assumes s: "swo lt" and ne: "d \<noteq> []"
  shows "node_ok lt ROOT (rmin_pre lt v d)"
proof (cases "1 < length d")
  case True
  then show ?thesis using ne swo_asym[OF s, of "d ! 1" v]
    by (simp add: node_ok_def rmin_pre_def swp_def)
next
  case False
  then show ?thesis by (simp add: node_ok_def rmin_pre_def)
qed

lemma ih_replace_max_store_node_ok:
  assumes s: "swo lt" and n: "2 \<le> length d"
  shows "node_ok lt ROOT (rmax_pre lt v d)"
proof -
  have "d \<noteq> []" "1 < length d" using n by auto
  then show ?thesis using swo_asym[OF s, of v "d ! 0"]
    by (simp add: node_ok_def rmax_pre_def swp_def)
qed

lemma ih_pop_min_checked_eq:
  assumes s: "swo lt" and inv: "iheap_inv lt d"
  shows "ih_pop_min_checked lt d = ih_pop_min lt d"
proof (cases "2 \<le> length d")
  case True
  then show ?thesis using ih_pop_min_move_node_ok[OF s inv True]
    by (simp add: ih_pop_min_checked_def ih_pop_min_def ih_pop_min_move_ok
        ih_bubble_down_min_checked_def)
next
  case False
  then have "length d = 0 \<or> length d = 1" by linarith
  then have "d = [] \<or> length d = 1" by simp
  then show ?thesis by (auto simp: ih_pop_min_checked_def ih_pop_min_def ih_empty_def)
qed

lemma ih_pop_max_checked_eq:
  assumes s: "swo lt" and inv: "iheap_inv lt d"
  shows "ih_pop_max_checked lt d = ih_pop_max lt d"
proof (cases "3 \<le> length d")
  case True
  then have "2 \<le> length d" by simp
  then show ?thesis using ih_pop_max_move_node_ok[OF s inv True] True
    by (simp add: ih_pop_max_checked_def ih_pop_max_def ih_pop_max_move_ok
        ih_bubble_down_max_checked_def usub_def)
next
  case False
  then show ?thesis by (simp add: ih_pop_max_checked_def ih_pop_max_def Let_def)
qed

lemma ih_replace_min_checked_eq:
  assumes s: "swo lt"
  shows "ih_replace_min_checked lt v d = ih_replace_min lt v d"
proof (cases "d = []")
  case True
  then show ?thesis by (simp add: ih_replace_min_checked_def ih_replace_min_def ih_empty_def)
next
  case False
  then show ?thesis using ih_replace_min_store_node_ok[OF s False, of v]
    by (simp add: ih_replace_min_checked_def ih_replace_min_def ih_replace_min_store_ok
        ih_bubble_down_min_checked_def)
qed

lemma ih_replace_max_checked_eq:
  assumes s: "swo lt"
  shows "ih_replace_max_checked lt v d = ih_replace_max lt v d"
proof (cases "2 \<le> length d")
  case True
  then show ?thesis using ih_replace_max_store_node_ok[OF s True, of v]
    by (simp add: ih_replace_max_checked_def ih_replace_max_def ih_replace_max_store_ok
        ih_bubble_down_max_checked_def usub_def)
next
  case False
  then have "length d = 0 \<or> length d = 1" by linarith
  then have "d = [] \<or> length d = 1" by simp
  then show ?thesis by (auto simp: ih_replace_max_checked_def ih_replace_max_def ih_empty_def)
qed

section \<open>The claims\<close>

text \<open>
  Claim C6. The scenario of the specification, run on the model with the natural order on
  integers: a BinaryHeap built from \<open>[5,3,8,1,9,2]\<close> has minimum 1, after \<^verbatim>\<open>pop()\<close>
  minimum 2, after \<^verbatim>\<open>push(0)\<close> minimum 0; an IntervalHeap built from the same sequence
  has minimum 1 and maximum 9, after \<^verbatim>\<open>pop_max()\<close> maximum 8, and after
  \<^verbatim>\<open>replace_min(10)\<close> minimum 2, with 1 no longer among its elements.
\<close>

theorem concrete_scenario:
  "(\<exists>h0 h1 h2.
      bh_make int_less [5, 3, 8, 1, 9, 2] = Inr h0 \<and> bh_min h0 = Inr 1 \<and>
      bh_pop int_less h0 = Inr h1 \<and> bh_min h1 = Inr 2 \<and>
      bh_push int_less 0 h1 = Inr h2 \<and> bh_min h2 = Inr 0) \<and>
   (\<exists>g0 g1 g2.
      ih_make int_less [5, 3, 8, 1, 9, 2] = Inr g0 \<and> ih_min g0 = Inr 1 \<and> ih_max g0 = Inr 9 \<and>
      ih_pop_max int_less g0 = Inr g1 \<and> ih_max g1 = Inr 8 \<and>
      ih_replace_min int_less 10 g1 = Inr g2 \<and> ih_min g2 = Inr 2 \<and> 1 \<notin> set g2)"
proof (intro conjI)
  show "\<exists>h0 h1 h2.
      bh_make int_less [5, 3, 8, 1, 9, 2] = Inr h0 \<and> bh_min h0 = Inr 1 \<and>
      bh_pop int_less h0 = Inr h1 \<and> bh_min h1 = Inr 2 \<and>
      bh_push int_less 0 h1 = Inr h2 \<and> bh_min h2 = Inr 0"
    by (intro exI[of _ "[1, 3, 2, 5, 9, 8]"] exI[of _ "[2, 3, 8, 5, 9]"] exI[of _ "[0, 3, 2, 5, 9, 8]"])
       code_simp
  show "\<exists>g0 g1 g2.
      ih_make int_less [5, 3, 8, 1, 9, 2] = Inr g0 \<and> ih_min g0 = Inr 1 \<and> ih_max g0 = Inr 9 \<and>
      ih_pop_max int_less g0 = Inr g1 \<and> ih_max g1 = Inr 8 \<and>
      ih_replace_min int_less 10 g1 = Inr g2 \<and> ih_min g2 = Inr 2 \<and> 1 \<notin> set g2"
    by (intro exI[of _ "[1, 9, 3, 8, 2, 5]"] exI[of _ "[1, 8, 3, 5, 2]"] exI[of _ "[2, 10, 3, 5, 8]"])
       code_simp
qed

text \<open>
  Claim C7. For every backing sequence, of either container, \<^verbatim>\<open>size() == 0\<close> holds exactly
  when \<^verbatim>\<open>empty()\<close> does; \<^verbatim>\<open>push\<close> and \<^verbatim>\<open>emplace\<close> return with the size one larger;
  \<^verbatim>\<open>pop\<close>, \<^verbatim>\<open>pop_min\<close> and \<^verbatim>\<open>pop_max\<close> on a non-empty heap return with the size
  one smaller.
\<close>

theorem size_empty_consistency:
  "(bh_size d = 0 \<longleftrightarrow> bh_empty d) \<and> (ih_size d = 0 \<longleftrightarrow> ih_empty d) \<and>
   (\<exists>d'. bh_push lt x d = Inr d' \<and> bh_size d' = bh_size d + 1) \<and>
   (\<exists>d'. bh_emplace lt x d = Inr d' \<and> bh_size d' = bh_size d + 1) \<and>
   (\<exists>d'. ih_push lt x d = Inr d' \<and> ih_size d' = ih_size d + 1) \<and>
   (\<exists>d'. ih_emplace lt x d = Inr d' \<and> ih_size d' = ih_size d + 1) \<and>
   (\<not> bh_empty d \<longrightarrow> (\<exists>d'. bh_pop lt d = Inr d' \<and> bh_size d' + 1 = bh_size d)) \<and>
   (\<not> ih_empty d \<longrightarrow> (\<exists>d'. ih_pop_min lt d = Inr d' \<and> ih_size d' + 1 = ih_size d)) \<and>
   (\<not> ih_empty d \<longrightarrow> (\<exists>d'. ih_pop_max lt d = Inr d' \<and> ih_size d' + 1 = ih_size d))"
proof -
  have e: "bh_emplace lt x d = bh_push lt x d" "ih_emplace lt x d = ih_push lt x d"
    by (simp_all add: bh_emplace_def bh_push_def ih_emplace_def ih_push_def)
  have 1: "\<exists>d'. bh_push lt x d = Inr d' \<and> bh_size d' = bh_size d + 1"
    using bh_push_total[of lt x d] by (auto simp: bh_size_def)
  have 2: "\<exists>d'. ih_push lt x d = Inr d' \<and> ih_size d' = ih_size d + 1"
    using ih_push_total[of lt x d] by (auto simp: ih_size_def)
  have 3: "\<exists>d'. bh_pop lt d = Inr d' \<and> bh_size d' + 1 = bh_size d" if "d \<noteq> []"
    using bh_pop_total[OF that, of lt] that by (auto simp: bh_size_def Suc_le_eq)
  have 4: "\<exists>d'. ih_pop_min lt d = Inr d' \<and> ih_size d' + 1 = ih_size d" if "d \<noteq> []"
    using ih_pop_min_total[OF that, of lt] that by (auto simp: ih_size_def Suc_le_eq)
  have 5: "\<exists>d'. ih_pop_max lt d = Inr d' \<and> ih_size d' + 1 = ih_size d" if "d \<noteq> []"
    using ih_pop_max_total[OF that, of lt] that by (auto simp: ih_size_def Suc_le_eq)
  show ?thesis using 1 2 3 4 5 unfolding e
    by (simp add: bh_size_def bh_empty_def ih_size_def ih_empty_def)
qed

theorem size_empty_consistency_witness:
  "\<not> bh_empty [2, 1 :: int] \<and> \<not> ih_empty [2, 1 :: int] \<and>
   (\<exists>d'. bh_pop int_less [2, 1] = Inr d' \<and> bh_size d' + 1 = bh_size [2, 1 :: int]) \<and>
   (\<exists>d'. ih_pop_min int_less [2, 1] = Inr d' \<and> ih_size d' + 1 = ih_size [2, 1 :: int]) \<and>
   (\<exists>d'. ih_pop_max int_less [2, 1] = Inr d' \<and> ih_size d' + 1 = ih_size [2, 1 :: int])"
  using size_empty_consistency[of "[2, 1 :: int]" int_less 0]
  by (simp add: bh_empty_def ih_empty_def)

text \<open>
  Claim C5, for the build with assertions enabled. With \<^verbatim>\<open>NDEBUG\<close> not defined, every
  operation that reads, removes or replaces an extreme stops at its assertion on an empty
  heap: the result is \<open>AssertionFailed\<close>, no value and no sequence is returned. On a
  non-empty heap each of them returns, in this build and in the build with \<^verbatim>\<open>NDEBUG\<close>
  defined alike and with the same result: no assertion fails, of the operation or of a helper
  it calls, and no index leaves the sequence.
\<close>

theorem empty_heap_fails_loudly:
  "bh_top ([] :: 'a list) = Inl AssertionFailed \<and> bh_min ([] :: 'a list) = Inl AssertionFailed \<and>
   bh_pop lt [] = Inl AssertionFailed \<and> bh_replace_top lt v [] = Inl AssertionFailed \<and>
   ih_min ([] :: 'a list) = Inl AssertionFailed \<and> ih_max ([] :: 'a list) = Inl AssertionFailed \<and>
   ih_pop_min lt [] = Inl AssertionFailed \<and> ih_pop_max lt [] = Inl AssertionFailed \<and>
   ih_replace_min lt v [] = Inl AssertionFailed \<and> ih_replace_max lt v [] = Inl AssertionFailed \<and>
   (d \<noteq> [] \<longrightarrow>
      (\<exists>x. bh_top d = Inr x \<and> bh_top_ndebug d = Inr x) \<and>
      (\<exists>x. bh_min d = Inr x \<and> bh_min_ndebug d = Inr x) \<and>
      (\<exists>d'. bh_pop lt d = Inr d' \<and> bh_pop_ndebug lt d = Inr d') \<and>
      (\<exists>d'. bh_replace_top lt v d = Inr d' \<and> bh_replace_top_ndebug lt v d = Inr d') \<and>
      (\<exists>x. ih_min d = Inr x \<and> ih_min_ndebug d = Inr x) \<and>
      (\<exists>x. ih_max d = Inr x \<and> ih_max_ndebug d = Inr x) \<and>
      (\<exists>d'. ih_pop_min lt d = Inr d' \<and> ih_pop_min_ndebug lt d = Inr d') \<and>
      (\<exists>d'. ih_pop_max lt d = Inr d' \<and> ih_pop_max_ndebug lt d = Inr d') \<and>
      (\<exists>d'. ih_replace_min lt v d = Inr d' \<and> ih_replace_min_ndebug lt v d = Inr d') \<and>
      (\<exists>d'. ih_replace_max lt v d = Inr d' \<and> ih_replace_max_ndebug lt v d = Inr d'))"
proof -
  have a: "bh_top ([] :: 'a list) = Inl AssertionFailed" "bh_min ([] :: 'a list) = Inl AssertionFailed"
    "bh_pop lt [] = Inl AssertionFailed" "bh_replace_top lt v [] = Inl AssertionFailed"
    "ih_min ([] :: 'a list) = Inl AssertionFailed" "ih_max ([] :: 'a list) = Inl AssertionFailed"
    "ih_pop_min lt [] = Inl AssertionFailed" "ih_pop_max lt [] = Inl AssertionFailed"
    "ih_replace_min lt v [] = Inl AssertionFailed" "ih_replace_max lt v [] = Inl AssertionFailed"
    by (simp_all add: bh_top_def bh_min_def bh_pop_def bh_replace_top_def ih_min_def ih_max_def
        ih_pop_min_def ih_pop_max_def ih_replace_min_def ih_replace_max_def bh_empty_def ih_empty_def)
  have b: "(\<exists>x. bh_top d = Inr x \<and> bh_top_ndebug d = Inr x) \<and>
           (\<exists>x. bh_min d = Inr x \<and> bh_min_ndebug d = Inr x) \<and>
           (\<exists>x. ih_min d = Inr x \<and> ih_min_ndebug d = Inr x) \<and>
           (\<exists>x. ih_max d = Inr x \<and> ih_max_ndebug d = Inr x)" if "d \<noteq> []"
    using bh_top_ndebug_eq[OF bh_top_ok[OF that]] ih_min_ndebug_eq[OF ih_min_ok[OF that]]
      ih_max_ndebug_eq[OF ih_max_ok[OF that]] bh_top_ok[OF that] ih_min_ok[OF that] ih_max_ok[OF that]
    by (simp add: bh_min_def bh_min_ndebug_def)
  have c1: "\<exists>d'. bh_pop lt d = Inr d' \<and> bh_pop_ndebug lt d = Inr d'" if "d \<noteq> []"
    using bh_pop_total[OF that, of lt] bh_pop_ndebug_eq[of lt d] by blast
  have c2: "\<exists>d'. bh_replace_top lt v d = Inr d' \<and> bh_replace_top_ndebug lt v d = Inr d'" if "d \<noteq> []"
    using bh_replace_top_total[OF that, of lt v] bh_replace_top_ndebug_eq[of lt v d] by blast
  have c3: "\<exists>d'. ih_pop_min lt d = Inr d' \<and> ih_pop_min_ndebug lt d = Inr d'" if "d \<noteq> []"
    using ih_pop_min_total[OF that, of lt] ih_pop_min_ndebug_eq[of lt d] by blast
  have c4: "\<exists>d'. ih_pop_max lt d = Inr d' \<and> ih_pop_max_ndebug lt d = Inr d'" if "d \<noteq> []"
    using ih_pop_max_total[OF that, of lt] ih_pop_max_ndebug_eq[of lt d] by blast
  have c5: "\<exists>d'. ih_replace_min lt v d = Inr d' \<and> ih_replace_min_ndebug lt v d = Inr d'" if "d \<noteq> []"
    using ih_replace_min_total[OF that, of lt v] ih_replace_min_ndebug_eq[of lt v d] by blast
  have c6: "\<exists>d'. ih_replace_max lt v d = Inr d' \<and> ih_replace_max_ndebug lt v d = Inr d'" if "d \<noteq> []"
    using ih_replace_max_total[OF that, of lt v] ih_replace_max_ndebug_eq[of lt v d] by blast
  show ?thesis using a b c1 c2 c3 c4 c5 c6 by blast
qed

theorem empty_heap_fails_loudly_witness:
  "[1, 9, 3, 8, 2, 5 :: int] \<noteq> [] \<and>
   bh_top [1, 9, 3, 8, 2, 5 :: int] = Inr 1 \<and> bh_top_ndebug [1, 9, 3, 8, 2, 5 :: int] = Inr 1 \<and>
   ih_max [1, 9, 3, 8, 2, 5 :: int] = Inr 9 \<and> ih_max_ndebug [1, 9, 3, 8, 2, 5 :: int] = Inr 9 \<and>
   (\<exists>d'. bh_pop int_less [1, 9, 3, 8, 2, 5] = Inr d' \<and>
         bh_pop_ndebug int_less [1, 9, 3, 8, 2, 5] = Inr d') \<and>
   (\<exists>d'. bh_replace_top int_less 7 [1, 9, 3, 8, 2, 5] = Inr d' \<and>
         bh_replace_top_ndebug int_less 7 [1, 9, 3, 8, 2, 5] = Inr d') \<and>
   (\<exists>d'. ih_pop_min int_less [1, 9, 3, 8, 2, 5] = Inr d' \<and>
         ih_pop_min_ndebug int_less [1, 9, 3, 8, 2, 5] = Inr d') \<and>
   (\<exists>d'. ih_pop_max int_less [1, 9, 3, 8, 2, 5] = Inr d' \<and>
         ih_pop_max_ndebug int_less [1, 9, 3, 8, 2, 5] = Inr d') \<and>
   (\<exists>d'. ih_replace_min int_less 7 [1, 9, 3, 8, 2, 5] = Inr d' \<and>
         ih_replace_min_ndebug int_less 7 [1, 9, 3, 8, 2, 5] = Inr d') \<and>
   (\<exists>d'. ih_replace_max int_less 7 [1, 9, 3, 8, 2, 5] = Inr d' \<and>
         ih_replace_max_ndebug int_less 7 [1, 9, 3, 8, 2, 5] = Inr d')"
proof -
  have n: "[1, 9, 3, 8, 2, 5 :: int] \<noteq> []" by simp
  have e: "bh_top [1, 9, 3, 8, 2, 5 :: int] = Inr 1" "ih_max [1, 9, 3, 8, 2, 5 :: int] = Inr 9"
    by (simp_all add: bh_top_def ih_max_def bh_empty_def ih_empty_def ih_size_def)
  from empty_heap_fails_loudly[of int_less 7 "[1, 9, 3, 8, 2, 5]"] n e show ?thesis by auto
qed

text \<open>
  In the build with \<^verbatim>\<open>NDEBUG\<close> defined the same calls on an empty heap meet no assertion:
  each of them goes on to an access outside the empty vector (\<^verbatim>\<open>_data[0]\<close>,
  \<^verbatim>\<open>_data[1]\<close>, \<^verbatim>\<open>_data.back()\<close> or \<^verbatim>\<open>_data[size - 1]\<close>), which is undefined
  behaviour. So the claim holds for the build with assertions only.
\<close>

theorem ndebug_empty_heap_out_of_bounds:
  "bh_top_ndebug ([] :: int list) = Inl OutOfBounds \<and>
   bh_min_ndebug ([] :: int list) = Inl OutOfBounds \<and>
   bh_pop_ndebug int_less [] = Inl OutOfBounds \<and>
   bh_replace_top_ndebug int_less 7 [] = Inl OutOfBounds \<and>
   ih_min_ndebug ([] :: int list) = Inl OutOfBounds \<and>
   ih_max_ndebug ([] :: int list) = Inl OutOfBounds \<and>
   ih_pop_min_ndebug int_less [] = Inl OutOfBounds \<and>
   ih_pop_max_ndebug int_less [] = Inl OutOfBounds \<and>
   ih_replace_min_ndebug int_less 7 [] = Inl OutOfBounds \<and>
   ih_replace_max_ndebug int_less 7 [] = Inl OutOfBounds"
  by code_simp

text \<open>
  Claim C9. \<^verbatim>\<open>get_parent\<close> wraps around at the root (BinaryHeap: index 0; IntervalHeap:
  indices 0 and 1) to a value near \<open>2 ^ 63\<close>. The loops and conditions of \<^verbatim>\<open>bubble_up\<close>
  that read \<^verbatim>\<open>_data[par]\<close> return at these indices without a read, whatever the length
  of the sequence, and \<^verbatim>\<open>push\<close> and \<^verbatim>\<open>emplace\<close> return a sequence from every state:
  no index is out of bounds.
\<close>

theorem parent_underflow_harmless:
  "bh_get_parent ROOT = 2 ^ 63 - 1 \<and> ih_get_parent ROOT = 2 ^ 63 - 2 \<and>
   ih_get_parent (ROOT + 1) = 2 ^ 63 - 2 \<and>
   bh_bubble_up_loop lt cur ROOT d = Inr (ROOT, d) \<and>
   ih_below lt cur ROOT d = Inr False \<and> ih_below lt cur (ROOT + 1) d = Inr False \<and>
   ih_above lt cur ROOT d = Inr False \<and> ih_above lt cur (ROOT + 1) d = Inr False \<and>
   ih_up_min_loop lt cur ROOT d = Inr (ROOT, d) \<and>
   ih_up_min_loop lt cur (ROOT + 1) d = Inr (ROOT + 1, d) \<and>
   ih_up_max_loop lt cur ROOT d = Inr (ROOT, d) \<and>
   ih_up_max_loop lt cur (ROOT + 1) d = Inr (ROOT + 1, d) \<and>
   (\<exists>d'. bh_push lt x d = Inr d') \<and> (\<exists>d'. bh_emplace lt x d = Inr d') \<and>
   (\<exists>d'. ih_push lt x d = Inr d') \<and> (\<exists>d'. ih_emplace lt x d = Inr d')"
proof -
  have e: "bh_emplace lt x d = bh_push lt x d" "ih_emplace lt x d = ih_push lt x d"
    by (simp_all add: bh_emplace_def bh_push_def ih_emplace_def ih_push_def)
  have 1: "bh_get_parent ROOT = 2 ^ 63 - 1" "ih_get_parent ROOT = 2 ^ 63 - 2"
    "ih_get_parent (ROOT + 1) = 2 ^ 63 - 2"
    by (simp_all add: bh_get_parent_def ih_get_parent_def usub_def)
  have 2: "bh_bubble_up_loop lt cur ROOT d = Inr (ROOT, d)"
    by (subst bh_bubble_up_loop.simps) (simp add: Let_def)
  have 3: "ih_below lt cur ROOT d = Inr False" "ih_below lt cur (ROOT + 1) d = Inr False"
    "ih_above lt cur ROOT d = Inr False" "ih_above lt cur (ROOT + 1) d = Inr False"
    by (simp_all add: ih_below_def ih_above_def Let_def)
  have 4: "ih_up_min_loop lt cur ROOT d = Inr (ROOT, d)"
    "ih_up_min_loop lt cur (ROOT + 1) d = Inr (ROOT + 1, d)"
    by (subst ih_up_min_loop.simps, simp add: Let_def)+
  have 5: "ih_up_max_loop lt cur ROOT d = Inr (ROOT, d)"
    "ih_up_max_loop lt cur (ROOT + 1) d = Inr (ROOT + 1, d)"
    by (subst ih_up_max_loop.simps, simp add: Let_def)+
  show ?thesis unfolding e using 1 2 3 4 5 bh_push_total[of lt x d] ih_push_total[of lt x d]
    by blast
qed

text \<open>
  Claim C8. In \<^verbatim>\<open>push\<close> on an interval heap that satisfies the structural invariant, after
  the appended element has been reconciled with its own node (the first step of
  \<^verbatim>\<open>bubble_up\<close>), the two ascent conditions cannot both hold: the element is not at once
  less than the min slot of the parent node and greater than its max slot. At most one of
  the two ascents runs.
\<close>

theorem ascent_exclusive:
  assumes "swo lt" and "ih_invariant lt d"
  shows "\<exists>idx e. ih_up_local lt x (length d) (push_back d x) = Inr (idx, e) \<and>
           \<not> (ih_below lt x idx e = Inr True \<and> ih_above lt x idx e = Inr True)"
proof -
  let ?n = "length d"
  define r where "r = (if odd ?n \<and> lt x (d ! (?n - 1))
          then (?n - 1, d @ [d ! (?n - 1)]) else (?n, d @ [x]))"
  have l: "ih_up_local lt x ?n (push_back d x) = Inr (fst r, snd r)"
    using ih_up_local_push[of lt x d] by (simp add: push_back_def r_def)
  have N: "ih_N lt d" using assms ih_invariant_iff by (auto simp: iheap_inv_def)
  have il: "fst r < length (snd r)" "fst r \<le> ?n" by (auto simp: r_def)
  have same: "snd r ! j = d ! j" if "j < ?n" for j
    using that by (auto simp: r_def nth_append)
  have "\<not> (ih_below lt x (fst r) (snd r) = Inr True \<and> ih_above lt x (fst r) (snd r) = Inr True)"
  proof
    assume "ih_below lt x (fst r) (snd r) = Inr True \<and> ih_above lt x (fst r) (snd r) = Inr True"
    then have b: "1 < fst r" "lt x (snd r ! ipar (fst r))" "lt (snd r ! (ipar (fst r) + 1)) x"
      using ih_below_ok[OF il(1), of lt x] ih_above_ok[OF il(1), of lt x] by auto
    have p: "ipar (fst r) + 1 < ?n" using ipar_less[of "fst r"] b(1) il(2) by simp
    then have "snd r ! ipar (fst r) = d ! ipar (fst r)" using same[of "ipar (fst r)"] by simp
    moreover have "snd r ! (ipar (fst r) + 1) = d ! (ipar (fst r) + 1)" using same[OF p] .
    ultimately have "lt (d ! (ipar (fst r) + 1)) (d ! ipar (fst r))"
      using swo_trans[OF assms(1) b(3) b(2)] by simp
    then show False using ih_ND[OF N p] by simp
  qed
  then show ?thesis using l by blast
qed

theorem ascent_exclusive_witness:
  "swo int_less \<and> ih_invariant int_less [1, 9, 3] \<and>
   (\<exists>idx e. ih_up_local int_less 0 (length [1, 9, 3 :: int]) (push_back [1, 9, 3] 0) = Inr (idx, e) \<and>
      \<not> (ih_below int_less 0 idx e = Inr True \<and> ih_above int_less 0 idx e = Inr True))"
proof -
  have i: "ih_invariant int_less [1, 9, 3]"
    unfolding ih_invariant_def by (auto simp: int_less_def nth_Cons')
  from ascent_exclusive[OF swo_int_less i, of 0] swo_int_less i show ?thesis by blast
qed

text \<open>
  Claim C2. For a strict weak order, the structural invariant holds after construction
  (default, or from a container by \<^verbatim>\<open>heapify\<close>) and is kept by every operation, which
  returns: \<^verbatim>\<open>push\<close>, \<^verbatim>\<open>emplace\<close>, \<^verbatim>\<open>pop\<close>, \<^verbatim>\<open>replace_top\<close>,
  \<^verbatim>\<open>replace_min\<close>, \<^verbatim>\<open>swap\<close> and move of the BinaryHeap (for every index \<open>i \<ge> 1\<close>
  the element at \<open>i\<close> is not less than the one at \<open>(i - 1) div 2\<close>), and \<^verbatim>\<open>push\<close>,
  \<^verbatim>\<open>emplace\<close>, \<^verbatim>\<open>pop_min\<close>, \<^verbatim>\<open>pop_max\<close>, \<^verbatim>\<open>replace_min\<close>,
  \<^verbatim>\<open>replace_max\<close>, \<^verbatim>\<open>swap\<close> and move of the IntervalHeap (every full node is an
  interval, the min slots form a min-heap and the max slots a max-heap under the node parent
  \<open>(k - 1) div 2\<close>, and a trailing lone element lies below the max slot of its parent).
\<close>

theorem invariant_preservation:
  assumes s: "swo lt"
  shows "bheap_inv lt bh_default \<and> (\<exists>h. bh_make lt c = Inr h \<and> bheap_inv lt h) \<and>
    (bheap_inv lt d \<longrightarrow>
       (\<exists>h. bh_push lt x d = Inr h \<and> bheap_inv lt h) \<and>
       (\<exists>h. bh_emplace lt x d = Inr h \<and> bheap_inv lt h) \<and>
       (d \<noteq> [] \<longrightarrow>
          (\<exists>h. bh_pop lt d = Inr h \<and> bheap_inv lt h) \<and>
          (\<exists>h. bh_replace_top lt x d = Inr h \<and> bheap_inv lt h) \<and>
          (\<exists>h. bh_replace_min lt x d = Inr h \<and> bheap_inv lt h)) \<and>
       (bheap_inv lt' d' \<longrightarrow>
          (case heap_swap (lt, d) (lt', d') of
             (a, b) \<Rightarrow> bheap_inv (fst a) (snd a) \<and> bheap_inv (fst b) (snd b))) \<and>
       (case heap_move (lt, d) of
          (a, b) \<Rightarrow> bheap_inv (fst a) (snd a) \<and> bheap_inv (fst b) (snd b))) \<and>
    ih_invariant lt ih_default \<and> (\<exists>h. ih_make lt c = Inr h \<and> ih_invariant lt h) \<and>
    (ih_invariant lt d \<longrightarrow>
       (\<exists>h. ih_push lt x d = Inr h \<and> ih_invariant lt h) \<and>
       (\<exists>h. ih_emplace lt x d = Inr h \<and> ih_invariant lt h) \<and>
       (d \<noteq> [] \<longrightarrow>
          (\<exists>h. ih_pop_min lt d = Inr h \<and> ih_invariant lt h) \<and>
          (\<exists>h. ih_pop_max lt d = Inr h \<and> ih_invariant lt h) \<and>
          (\<exists>h. ih_replace_min lt x d = Inr h \<and> ih_invariant lt h) \<and>
          (\<exists>h. ih_replace_max lt x d = Inr h \<and> ih_invariant lt h)) \<and>
       (ih_invariant lt' d' \<longrightarrow>
          (case heap_swap (lt, d) (lt', d') of
             (a, b) \<Rightarrow> ih_invariant (fst a) (snd a) \<and> ih_invariant (fst b) (snd b))) \<and>
       (case heap_move (lt, d) of
          (a, b) \<Rightarrow> ih_invariant (fst a) (snd a) \<and> ih_invariant (fst b) (snd b)))"
proof -
  note ii = ih_invariant_iff[OF s]
  have e: "bh_emplace lt x d = bh_push lt x d" "ih_emplace lt x d = ih_push lt x d"
    "bh_replace_min lt x d = bh_replace_top lt x d"
    by (simp_all add: bh_emplace_def bh_push_def ih_emplace_def ih_push_def bh_replace_min_def)
  have b0: "bheap_inv lt bh_default" "bheap_inv lt []" by (simp_all add: bheap_inv_def bh_default_def)
  have i0: "ih_invariant lt ih_default" "ih_invariant lt []"
    by (simp_all add: ih_invariant_def ih_default_def)
  have b1: "\<exists>h. bh_make lt c = Inr h \<and> bheap_inv lt h"
    using bh_heapify_inv[OF s, of c] by (simp add: bh_make_def)
  have i1: "\<exists>h. ih_make lt c = Inr h \<and> ih_invariant lt h"
    using ih_heapify_inv[OF s, of c] by (simp add: ih_make_def ii)
  have b2: "(\<exists>h. bh_push lt x d = Inr h \<and> bheap_inv lt h)" if "bheap_inv lt d"
    using bh_push_inv[OF s that] .
  have b3: "(\<exists>h. bh_pop lt d = Inr h \<and> bheap_inv lt h) \<and>
            (\<exists>h. bh_replace_top lt x d = Inr h \<and> bheap_inv lt h)" if "bheap_inv lt d" "d \<noteq> []"
    using bh_pop_inv[OF s that] bh_replace_top_inv[OF s that] by blast
  have i2: "(\<exists>h. ih_push lt x d = Inr h \<and> ih_invariant lt h)" if "ih_invariant lt d"
    using ih_push_inv[OF s, of d x] that by (simp add: ii)
  have i3: "(\<exists>h. ih_pop_min lt d = Inr h \<and> ih_invariant lt h) \<and>
            (\<exists>h. ih_pop_max lt d = Inr h \<and> ih_invariant lt h) \<and>
            (\<exists>h. ih_replace_min lt x d = Inr h \<and> ih_invariant lt h) \<and>
            (\<exists>h. ih_replace_max lt x d = Inr h \<and> ih_invariant lt h)"
    if "ih_invariant lt d" "d \<noteq> []"
    using ih_pop_min_inv[OF s _ that(2)] ih_pop_max_inv[OF s _ that(2)]
      ih_replace_min_inv[OF s _ that(2), of x] ih_replace_max_inv[OF s _ that(2), of x] that(1)
    by (simp add: ii)
  show ?thesis unfolding e using b0 i0 b1 i1 b2 b3 i2 i3
    by (simp add: heap_swap_def heap_move_def)
qed

theorem invariant_preservation_witness:
  "swo int_less \<and>
   bheap_inv int_less [1, 3, 2, 5, 9, 8] \<and> [1, 3, 2, 5, 9, 8 :: int] \<noteq> [] \<and>
   bheap_inv int_less [2, 3, 8, 5, 9] \<and>
   bheap_inv int_less bh_default \<and>
   (\<exists>h. bh_make int_less [5, 3, 8, 1, 9, 2] = Inr h \<and> bheap_inv int_less h) \<and>
   (\<exists>h. bh_push int_less 0 [1, 3, 2, 5, 9, 8] = Inr h \<and> bheap_inv int_less h) \<and>
   (\<exists>h. bh_emplace int_less 0 [1, 3, 2, 5, 9, 8] = Inr h \<and> bheap_inv int_less h) \<and>
   (\<exists>h. bh_pop int_less [1, 3, 2, 5, 9, 8] = Inr h \<and> bheap_inv int_less h) \<and>
   (\<exists>h. bh_replace_top int_less 0 [1, 3, 2, 5, 9, 8] = Inr h \<and> bheap_inv int_less h) \<and>
   (\<exists>h. bh_replace_min int_less 0 [1, 3, 2, 5, 9, 8] = Inr h \<and> bheap_inv int_less h) \<and>
   (case heap_swap (int_less, [1, 3, 2, 5, 9, 8]) (int_less, [2, 3, 8, 5, 9]) of
      (a, b) \<Rightarrow> bheap_inv (fst a) (snd a) \<and> bheap_inv (fst b) (snd b)) \<and>
   (case heap_move (int_less, [1, 3, 2, 5, 9, 8]) of
      (a, b) \<Rightarrow> bheap_inv (fst a) (snd a) \<and> bheap_inv (fst b) (snd b)) \<and>
   ih_invariant int_less [1, 9, 3, 8, 2, 5] \<and> [1, 9, 3, 8, 2, 5 :: int] \<noteq> [] \<and>
   ih_invariant int_less [1, 8, 3, 5, 2] \<and>
   ih_invariant int_less ih_default \<and>
   (\<exists>h. ih_make int_less [5, 3, 8, 1, 9, 2] = Inr h \<and> ih_invariant int_less h) \<and>
   (\<exists>h. ih_push int_less 0 [1, 9, 3, 8, 2, 5] = Inr h \<and> ih_invariant int_less h) \<and>
   (\<exists>h. ih_emplace int_less 0 [1, 9, 3, 8, 2, 5] = Inr h \<and> ih_invariant int_less h) \<and>
   (\<exists>h. ih_pop_min int_less [1, 9, 3, 8, 2, 5] = Inr h \<and> ih_invariant int_less h) \<and>
   (\<exists>h. ih_pop_max int_less [1, 9, 3, 8, 2, 5] = Inr h \<and> ih_invariant int_less h) \<and>
   (\<exists>h. ih_replace_min int_less 0 [1, 9, 3, 8, 2, 5] = Inr h \<and> ih_invariant int_less h) \<and>
   (\<exists>h. ih_replace_max int_less 0 [1, 9, 3, 8, 2, 5] = Inr h \<and> ih_invariant int_less h) \<and>
   (case heap_swap (int_less, [1, 9, 3, 8, 2, 5]) (int_less, [1, 8, 3, 5, 2]) of
      (a, b) \<Rightarrow> ih_invariant (fst a) (snd a) \<and> ih_invariant (fst b) (snd b)) \<and>
   (case heap_move (int_less, [1, 9, 3, 8, 2, 5]) of
      (a, b) \<Rightarrow> ih_invariant (fst a) (snd a) \<and> ih_invariant (fst b) (snd b))"
proof -
  have b: "bheap_inv int_less [1, 3, 2, 5, 9, 8]" "bheap_inv int_less [2, 3, 8, 5, 9]"
    by (simp_all add: bheap_inv_upt int_less_def)
  have i: "ih_invariant int_less [1, 9, 3, 8, 2, 5]" "ih_invariant int_less [1, 8, 3, 5, 2]"
    by (simp_all add: ih_invariant_upt int_less_def)
  have n: "[1, 3, 2, 5, 9, 8 :: int] \<noteq> []" "[1, 9, 3, 8, 2, 5 :: int] \<noteq> []" by simp_all
  note B = invariant_preservation[OF swo_int_less,
      of "[5, 3, 8, 1, 9, 2]" "[1, 3, 2, 5, 9, 8]" 0 int_less "[2, 3, 8, 5, 9]"]
  note I = invariant_preservation[OF swo_int_less,
      of "[5, 3, 8, 1, 9, 2]" "[1, 9, 3, 8, 2, 5]" 0 int_less "[1, 8, 3, 5, 2]"]
  have B': "bheap_inv int_less bh_default \<and>
    (\<exists>h. bh_make int_less [5, 3, 8, 1, 9, 2] = Inr h \<and> bheap_inv int_less h) \<and>
    (\<exists>h. bh_push int_less 0 [1, 3, 2, 5, 9, 8] = Inr h \<and> bheap_inv int_less h) \<and>
    (\<exists>h. bh_emplace int_less 0 [1, 3, 2, 5, 9, 8] = Inr h \<and> bheap_inv int_less h) \<and>
    (\<exists>h. bh_pop int_less [1, 3, 2, 5, 9, 8] = Inr h \<and> bheap_inv int_less h) \<and>
    (\<exists>h. bh_replace_top int_less 0 [1, 3, 2, 5, 9, 8] = Inr h \<and> bheap_inv int_less h) \<and>
    (\<exists>h. bh_replace_min int_less 0 [1, 3, 2, 5, 9, 8] = Inr h \<and> bheap_inv int_less h) \<and>
    (case heap_swap (int_less, [1, 3, 2, 5, 9, 8]) (int_less, [2, 3, 8, 5, 9]) of
      (a, b) \<Rightarrow> bheap_inv (fst a) (snd a) \<and> bheap_inv (fst b) (snd b)) \<and>
    (case heap_move (int_less, [1, 3, 2, 5, 9, 8]) of
      (a, b) \<Rightarrow> bheap_inv (fst a) (snd a) \<and> bheap_inv (fst b) (snd b))"
    using B b n by simp
  have I': "ih_invariant int_less ih_default \<and>
    (\<exists>h. ih_make int_less [5, 3, 8, 1, 9, 2] = Inr h \<and> ih_invariant int_less h) \<and>
    (\<exists>h. ih_push int_less 0 [1, 9, 3, 8, 2, 5] = Inr h \<and> ih_invariant int_less h) \<and>
    (\<exists>h. ih_emplace int_less 0 [1, 9, 3, 8, 2, 5] = Inr h \<and> ih_invariant int_less h) \<and>
    (\<exists>h. ih_pop_min int_less [1, 9, 3, 8, 2, 5] = Inr h \<and> ih_invariant int_less h) \<and>
    (\<exists>h. ih_pop_max int_less [1, 9, 3, 8, 2, 5] = Inr h \<and> ih_invariant int_less h) \<and>
    (\<exists>h. ih_replace_min int_less 0 [1, 9, 3, 8, 2, 5] = Inr h \<and> ih_invariant int_less h) \<and>
    (\<exists>h. ih_replace_max int_less 0 [1, 9, 3, 8, 2, 5] = Inr h \<and> ih_invariant int_less h) \<and>
    (case heap_swap (int_less, [1, 9, 3, 8, 2, 5]) (int_less, [1, 8, 3, 5, 2]) of
      (a, b) \<Rightarrow> ih_invariant (fst a) (snd a) \<and> ih_invariant (fst b) (snd b)) \<and>
    (case heap_move (int_less, [1, 9, 3, 8, 2, 5]) of
      (a, b) \<Rightarrow> ih_invariant (fst a) (snd a) \<and> ih_invariant (fst b) (snd b))"
    using I i n by simp
  show ?thesis using swo_int_less b i n B' I' by simp
qed

text \<open>
  Claim C1. A run starts from a constructor (\<^verbatim>\<open>heapify\<close> of a container; the empty
  container gives the default heap) and applies any sequence of operations; beside the heap it
  keeps a reference multiset, to which every inserted element is added and from which every
  element read as the extreme just before its removal is taken away. For a strict weak order,
  in every state such a run reaches with a non-empty heap, the reference multiset is the
  content of the heap, \<^verbatim>\<open>top()\<close> and \<^verbatim>\<open>min()\<close> of the BinaryHeap return a least element of
  it, \<^verbatim>\<open>min()\<close> of the IntervalHeap a least and \<^verbatim>\<open>max()\<close> a greatest one, where
  \<^verbatim>\<open>max()\<close> is \<open>data[1]\<close> if the size exceeds 1 and \<open>data[0]\<close> otherwise, so that on a
  heap of one element both return the same element.
\<close>

theorem extreme_correctness:
  assumes s: "swo lt"
  shows "(bh_make lt c = Inr h0 \<and> bh_run lt ops (h0, mset c) = Inr (h, m) \<and> h \<noteq> [] \<longrightarrow>
            m = mset h \<and>
            (\<exists>t. bh_top h = Inr t \<and> bh_min h = Inr t \<and> t \<in># m \<and> (\<forall>x \<in># m. \<not> lt x t))) \<and>
         (ih_make lt c = Inr g0 \<and> ih_run lt iops (g0, mset c) = Inr (g, m') \<and> g \<noteq> [] \<longrightarrow>
            m' = mset g \<and>
            (\<exists>lo hi. ih_min g = Inr lo \<and> ih_max g = Inr hi \<and> lo \<in># m' \<and> hi \<in># m' \<and>
               (\<forall>x \<in># m'. \<not> lt x lo \<and> \<not> lt hi x) \<and>
               hi = (if ih_size g > 1 then g ! 1 else g ! 0) \<and> (ih_size g = 1 \<longrightarrow> hi = lo)))"
proof (intro conjI impI)
  assume a: "bh_make lt c = Inr h0 \<and> bh_run lt ops (h0, mset c) = Inr (h, m) \<and> h \<noteq> []"
  from bh_heapify_inv[OF s, of c] bh_heapify_total[of lt c] a
  have 0: "bheap_inv lt h0" "mset c = mset h0" by (auto simp: bh_make_def)
  from a 0 have "bh_run lt ops (h0, mset h0) = Inr (h, m)" by simp
  from bh_run_inv[OF s 0(1) this] have 1: "bheap_inv lt h" "m = mset h" by auto
  show "m = mset h" by fact
  have ne: "h \<noteq> []" using a by simp
  have "\<not> lt x (h ! 0)" if "x \<in># mset h" for x
  proof -
    from that obtain i where "i < length h" "x = h ! i" by (auto simp: in_set_conv_nth)
    then show ?thesis using bh_root_min[OF s 1(1)] by simp
  qed
  moreover have "h ! 0 \<in># mset h" using ne by simp
  ultimately show "\<exists>t. bh_top h = Inr t \<and> bh_min h = Inr t \<and> t \<in># m \<and> (\<forall>x \<in># m. \<not> lt x t)"
    using bh_top_ok[OF ne] 1(2) by (simp add: bh_min_def)
next
  assume a: "ih_make lt c = Inr g0 \<and> ih_run lt iops (g0, mset c) = Inr (g, m') \<and> g \<noteq> []"
  from ih_heapify_inv[OF s, of c] ih_heapify_total[of lt c] a
  have 0: "iheap_inv lt g0" "mset c = mset g0" by (auto simp: ih_make_def)
  from a 0 have "ih_run lt iops (g0, mset g0) = Inr (g, m')" by simp
  from ih_run_inv[OF s 0(1) this] have 1: "iheap_inv lt g" "m' = mset g" by auto
  show "m' = mset g" by fact
  have ne: "g \<noteq> []" using a by simp
  let ?hi = "g ! (if length g > 1 then 1 else 0)"
  have ext: "\<not> lt x (g ! 0) \<and> \<not> lt ?hi x" if "x \<in># mset g" for x
  proof -
    from that obtain i where i: "i < length g" "x = g ! i" by (auto simp: in_set_conv_nth)
    show ?thesis
    proof (cases "1 < length g")
      case True
      then show ?thesis using ih_root_ext[OF s 1(1) i(1)] i(2) by simp
    next
      case False
      then have "i = 0" using i(1) by simp
      then show ?thesis using False i(2) swo_irrefl[OF s] by simp
    qed
  qed
  have mem: "g ! 0 \<in># mset g" "?hi \<in># mset g" using ne by auto
  have "ih_min g = Inr (g ! 0)" "ih_max g = Inr ?hi" using ih_min_ok[OF ne] ih_max_ok[OF ne] by auto
  then show "\<exists>lo hi. ih_min g = Inr lo \<and> ih_max g = Inr hi \<and> lo \<in># m' \<and> hi \<in># m' \<and>
               (\<forall>x \<in># m'. \<not> lt x lo \<and> \<not> lt hi x) \<and>
               hi = (if ih_size g > 1 then g ! 1 else g ! 0) \<and> (ih_size g = 1 \<longrightarrow> hi = lo)"
    using ext mem 1(2) by (simp add: ih_size_def)
qed


theorem extreme_correctness_witness:
  "swo int_less \<and>
   bh_make int_less [5, 3, 8] = Inr [3, 5, 8] \<and>
   bh_run int_less [BPush 1, BPop] ([3, 5, 8], mset [5, 3, 8]) = Inr ([3, 5, 8], mset [3, 5, 8]) \<and>
   [3, 5, 8 :: int] \<noteq> [] \<and>
   (\<exists>t. bh_top [3, 5, 8] = Inr t \<and> bh_min [3, 5, 8] = Inr t \<and> t \<in># mset [3, 5, 8 :: int] \<and>
      (\<forall>x \<in># mset [3, 5, 8]. \<not> int_less x t)) \<and>
   ih_make int_less [5, 3, 8] = Inr [3, 8, 5] \<and>
   ih_run int_less [IPush 1, IPopMax] ([3, 8, 5], mset [5, 3, 8]) = Inr ([1, 5, 3], mset [1, 5, 3]) \<and>
   [1, 5, 3 :: int] \<noteq> [] \<and>
   (\<exists>lo hi. ih_min [1, 5, 3] = Inr lo \<and> ih_max [1, 5, 3] = Inr hi \<and>
      lo \<in># mset [1, 5, 3 :: int] \<and> hi \<in># mset [1, 5, 3 :: int] \<and>
      (\<forall>x \<in># mset [1, 5, 3]. \<not> int_less x lo \<and> \<not> int_less hi x) \<and>
      hi = (if ih_size [1, 5, 3 :: int] > 1 then [1, 5, 3] ! 1 else [1, 5, 3] ! 0))"
proof -
  have m: "bh_make int_less [5, 3, 8] = Inr [3, 5, 8]" "ih_make int_less [5, 3, 8] = Inr [3, 8, 5]"
    by code_simp+
  have b: "bh_push int_less 1 [3, 5, 8] = Inr [1, 3, 8, 5]" "bh_top [1, 3, 8, 5 :: int] = Inr 1"
    "bh_pop int_less [1, 3, 8, 5] = Inr [3, 5, 8]"
    by code_simp+
  have i: "ih_push int_less 1 [3, 8, 5] = Inr [1, 8, 3, 5]" "ih_max [1, 8, 3, 5 :: int] = Inr 8"
    "ih_pop_max int_less [1, 8, 3, 5] = Inr [1, 5, 3]"
    by code_simp+
  have rb: "bh_run int_less [BPush 1, BPop] ([3, 5, 8], mset [5, 3, 8]) = Inr ([3, 5, 8], mset [3, 5, 8])"
    by (simp add: b)
  have ri: "ih_run int_less [IPush 1, IPopMax] ([3, 8, 5], mset [5, 3, 8]) = Inr ([1, 5, 3], mset [1, 5, 3])"
    by (simp add: i)
  have ne: "[3, 5, 8 :: int] \<noteq> []" "[1, 5, 3 :: int] \<noteq> []" by simp_all
  from extreme_correctness[OF swo_int_less, of "[5, 3, 8]" "[3, 5, 8]" "[BPush 1, BPop]" "[3, 5, 8]"
      "mset [3, 5, 8]" "[3, 8, 5]" "[IPush 1, IPopMax]" "[1, 5, 3]" "mset [1, 5, 3]"]
    m rb ri ne swo_int_less
  show ?thesis by blast
qed

text \<open>
  Claim C3. For a strict weak order and every sequence of \<open>N\<close> elements: a BinaryHeap built
  from it by \<^verbatim>\<open>heapify\<close>, read with \<^verbatim>\<open>top()\<close> and popped \<open>N\<close> times, returns each time and
  yields the elements of the input, as a multiset, in non-decreasing order (no element is
  less than one read before it); an IntervalHeap built from it yields them in non-decreasing
  order with \<^verbatim>\<open>min()\<close> and \<^verbatim>\<open>pop_min()\<close>, and in non-increasing order with \<^verbatim>\<open>max()\<close>
  and \<^verbatim>\<open>pop_max()\<close>.
\<close>

theorem heap_sort_round_trip:
  assumes s: "swo lt"
  shows "(\<exists>h ys. bh_make lt xs = Inr h \<and> bh_drain lt (length xs) h = Inr ys \<and>
             mset ys = mset xs \<and> sorted_wrt (\<lambda>a b. \<not> lt b a) ys) \<and>
         (\<exists>g ys. ih_make lt xs = Inr g \<and> ih_drain lt (replicate (length xs) SMin) g = Inr ys \<and>
             mset ys = mset xs \<and> sorted_wrt (\<lambda>a b. \<not> lt b a) ys) \<and>
         (\<exists>g ys. ih_make lt xs = Inr g \<and> ih_drain lt (replicate (length xs) SMax) g = Inr ys \<and>
             mset ys = mset xs \<and> sorted_wrt (\<lambda>a b. \<not> lt a b) ys)"
proof -
  from bh_heapify_inv[OF s, of xs] bh_heapify_total[of lt xs] obtain h where
    h: "bh_make lt xs = Inr h" "bheap_inv lt h" "mset h = mset xs" "length h = length xs"
    by (auto simp: bh_make_def)
  from ih_heapify_inv[OF s, of xs] ih_heapify_total[of lt xs] obtain g where
    g: "ih_make lt xs = Inr g" "iheap_inv lt g" "mset g = mset xs" "length g = length xs"
    by (auto simp: ih_make_def)
  show ?thesis
    using bh_drain_sorted[OF s h(2) h(4)[symmetric]] ih_drain_min_sorted[OF s g(2) g(4)[symmetric]]
      ih_drain_max_sorted[OF s g(2) g(4)[symmetric]] h(1,3) g(1,3)
    by simp
qed

theorem heap_sort_round_trip_witness:
  "swo int_less \<and>
   (\<exists>h ys. bh_make int_less [5, 3, 8, 3] = Inr h \<and> bh_drain int_less (length [5, 3, 8, 3 :: int]) h = Inr ys \<and>
       mset ys = mset [5, 3, 8, 3] \<and> sorted_wrt (\<lambda>a b. \<not> int_less b a) ys) \<and>
   (\<exists>g ys. ih_make int_less [5, 3, 8, 3] = Inr g \<and>
       ih_drain int_less (replicate (length [5, 3, 8, 3 :: int]) SMin) g = Inr ys \<and>
       mset ys = mset [5, 3, 8, 3] \<and> sorted_wrt (\<lambda>a b. \<not> int_less b a) ys) \<and>
   (\<exists>g ys. ih_make int_less [5, 3, 8, 3] = Inr g \<and>
       ih_drain int_less (replicate (length [5, 3, 8, 3 :: int]) SMax) g = Inr ys \<and>
       mset ys = mset [5, 3, 8, 3] \<and> sorted_wrt (\<lambda>a b. \<not> int_less a b) ys)"
  using heap_sort_round_trip[OF swo_int_less, of "[5, 3, 8, 3]"] swo_int_less by blast

text \<open>
  Claim C4, as far as it holds. For a strict weak order and a non-empty heap that satisfies
  its invariant, \<^verbatim>\<open>replace_top(v)\<close> and \<^verbatim>\<open>pop()\<close> followed by \<^verbatim>\<open>push(v)\<close> both return,
  with the same multiset of elements and the invariant kept; \<open>n\<close> subsequent reads of the
  extreme, each followed by its removal, give sequences that agree position by position up to
  equivalence under the comparator (and fail at the same step if \<open>n\<close> exceeds the size),
  and the same sequence when equivalent elements are equal. Likewise \<^verbatim>\<open>replace_min(v)\<close>
  against \<^verbatim>\<open>pop_min()\<close> then \<^verbatim>\<open>push(v)\<close>, and \<^verbatim>\<open>replace_max(v)\<close> against
  \<^verbatim>\<open>pop_max()\<close> then \<^verbatim>\<open>push(v)\<close>, for every sequence \<open>cs\<close> of removals at either end.
\<close>

theorem fusion_equivalence:
  assumes s: "swo lt" and ne: "d \<noteq> []"
  shows
   "(bheap_inv lt d \<longrightarrow>
       (\<exists>a b. bh_replace_top lt v d = Inr a \<and> bh_pop_push lt v d = Inr b \<and> mset a = mset b \<and>
          bheap_inv lt a \<and> bheap_inv lt b \<and>
          same_extremes lt (bh_drain lt n a) (bh_drain lt n b) \<and>
          (total_on_eqv lt \<longrightarrow> bh_drain lt n a = bh_drain lt n b))) \<and>
    (ih_invariant lt d \<longrightarrow>
       (\<exists>a b. ih_replace_min lt v d = Inr a \<and> ih_pop_min_push lt v d = Inr b \<and> mset a = mset b \<and>
          ih_invariant lt a \<and> ih_invariant lt b \<and>
          same_extremes lt (ih_drain lt cs a) (ih_drain lt cs b) \<and>
          (total_on_eqv lt \<longrightarrow> ih_drain lt cs a = ih_drain lt cs b)) \<and>
       (\<exists>a b. ih_replace_max lt v d = Inr a \<and> ih_pop_max_push lt v d = Inr b \<and> mset a = mset b \<and>
          ih_invariant lt a \<and> ih_invariant lt b \<and>
          same_extremes lt (ih_drain lt cs a) (ih_drain lt cs b) \<and>
          (total_on_eqv lt \<longrightarrow> ih_drain lt cs a = ih_drain lt cs b)))"
proof (intro conjI impI)
  assume "bheap_inv lt d"
  from bh_fusion[OF s ne this, of v n] same_extremes_total[of lt]
  show "\<exists>a b. bh_replace_top lt v d = Inr a \<and> bh_pop_push lt v d = Inr b \<and> mset a = mset b \<and>
          bheap_inv lt a \<and> bheap_inv lt b \<and>
          same_extremes lt (bh_drain lt n a) (bh_drain lt n b) \<and>
          (total_on_eqv lt \<longrightarrow> bh_drain lt n a = bh_drain lt n b)"
    by blast
next
  assume "ih_invariant lt d"
  then have i: "iheap_inv lt d" using ih_invariant_iff[OF s] by simp
  from ih_fusion_min[OF s ne i, of v cs] same_extremes_total[of lt]
  show "\<exists>a b. ih_replace_min lt v d = Inr a \<and> ih_pop_min_push lt v d = Inr b \<and> mset a = mset b \<and>
          ih_invariant lt a \<and> ih_invariant lt b \<and>
          same_extremes lt (ih_drain lt cs a) (ih_drain lt cs b) \<and>
          (total_on_eqv lt \<longrightarrow> ih_drain lt cs a = ih_drain lt cs b)"
    unfolding ih_invariant_iff[OF s] by blast
next
  assume "ih_invariant lt d"
  then have i: "iheap_inv lt d" using ih_invariant_iff[OF s] by simp
  from ih_fusion_max[OF s ne i, of v cs] same_extremes_total[of lt]
  show "\<exists>a b. ih_replace_max lt v d = Inr a \<and> ih_pop_max_push lt v d = Inr b \<and> mset a = mset b \<and>
          ih_invariant lt a \<and> ih_invariant lt b \<and>
          same_extremes lt (ih_drain lt cs a) (ih_drain lt cs b) \<and>
          (total_on_eqv lt \<longrightarrow> ih_drain lt cs a = ih_drain lt cs b)"
    unfolding ih_invariant_iff[OF s] by blast
qed




theorem fusion_equivalence_witness:
  "swo int_less \<and> total_on_eqv int_less \<and>
   [1, 3, 2, 5, 9, 8 :: int] \<noteq> [] \<and> bheap_inv int_less [1, 3, 2, 5, 9, 8] \<and>
   (\<exists>a b. bh_replace_top int_less 4 [1, 3, 2, 5, 9, 8] = Inr a \<and>
      bh_pop_push int_less 4 [1, 3, 2, 5, 9, 8] = Inr b \<and> mset a = mset b \<and>
      bheap_inv int_less a \<and> bheap_inv int_less b \<and>
      bh_drain int_less 6 a = bh_drain int_less 6 b) \<and>
   [1, 9, 3, 8, 2, 5 :: int] \<noteq> [] \<and> ih_invariant int_less [1, 9, 3, 8, 2, 5] \<and>
   (\<exists>a b. ih_replace_min int_less 4 [1, 9, 3, 8, 2, 5] = Inr a \<and>
      ih_pop_min_push int_less 4 [1, 9, 3, 8, 2, 5] = Inr b \<and> mset a = mset b \<and>
      ih_invariant int_less a \<and> ih_invariant int_less b \<and>
      ih_drain int_less [SMin, SMax, SMax, SMin, SMin, SMax] a =
      ih_drain int_less [SMin, SMax, SMax, SMin, SMin, SMax] b) \<and>
   (\<exists>a b. ih_replace_max int_less 4 [1, 9, 3, 8, 2, 5] = Inr a \<and>
      ih_pop_max_push int_less 4 [1, 9, 3, 8, 2, 5] = Inr b \<and> mset a = mset b \<and>
      ih_invariant int_less a \<and> ih_invariant int_less b \<and>
      ih_drain int_less [SMin, SMax, SMax, SMin, SMin, SMax] a =
      ih_drain int_less [SMin, SMax, SMax, SMin, SMin, SMax] b)"
proof -
  have b: "bheap_inv int_less [1, 3, 2, 5, 9, 8]" by (simp add: bheap_inv_upt int_less_def)
  have i: "ih_invariant int_less [1, 9, 3, 8, 2, 5]" by (simp add: ih_invariant_upt int_less_def)
  have n: "[1, 3, 2, 5, 9, 8 :: int] \<noteq> []" "[1, 9, 3, 8, 2, 5 :: int] \<noteq> []" by simp_all
  note t = total_on_eqv_int_less
  from fusion_equivalence[OF swo_int_less n(1), of 4 6 "[]"] b t
  have B: "\<exists>a b. bh_replace_top int_less 4 [1, 3, 2, 5, 9, 8] = Inr a \<and>
      bh_pop_push int_less 4 [1, 3, 2, 5, 9, 8] = Inr b \<and> mset a = mset b \<and>
      bheap_inv int_less a \<and> bheap_inv int_less b \<and>
      bh_drain int_less 6 a = bh_drain int_less 6 b"
    by blast
  from fusion_equivalence[OF swo_int_less n(2), of 4 0 "[SMin, SMax, SMax, SMin, SMin, SMax]"] i t
  have I: "(\<exists>a b. ih_replace_min int_less 4 [1, 9, 3, 8, 2, 5] = Inr a \<and>
      ih_pop_min_push int_less 4 [1, 9, 3, 8, 2, 5] = Inr b \<and> mset a = mset b \<and>
      ih_invariant int_less a \<and> ih_invariant int_less b \<and>
      ih_drain int_less [SMin, SMax, SMax, SMin, SMin, SMax] a =
      ih_drain int_less [SMin, SMax, SMax, SMin, SMin, SMax] b) \<and>
   (\<exists>a b. ih_replace_max int_less 4 [1, 9, 3, 8, 2, 5] = Inr a \<and>
      ih_pop_max_push int_less 4 [1, 9, 3, 8, 2, 5] = Inr b \<and> mset a = mset b \<and>
      ih_invariant int_less a \<and> ih_invariant int_less b \<and>
      ih_drain int_less [SMin, SMax, SMax, SMin, SMin, SMax] a =
      ih_drain int_less [SMin, SMax, SMax, SMin, SMin, SMax] b)"
    by blast
  show ?thesis using swo_int_less t n b i B I by blast
qed


text \<open>
  The sequences of extremes need not be the same when the comparator leaves distinct
  elements equivalent. With pairs compared by their first component, on the heap
  \<open>[(0, 0), (1, 0)]\<close>: \<^verbatim>\<open>replace_top((1, 1))\<close> leaves \<open>(1, 1)\<close> on top, \<^verbatim>\<open>pop()\<close> then
  \<^verbatim>\<open>push((1, 1))\<close> leaves \<open>(1, 0)\<close> there, and the elements then come out in opposite
  orders; the same happens with \<^verbatim>\<open>replace_min\<close> and with \<^verbatim>\<open>replace_max\<close>.
\<close>

theorem fusion_not_identical:
  "swo pair_less \<and>
   bheap_inv pair_less [(0, 0), (1, 0)] \<and>
   bh_replace_top pair_less (1, 1) [(0, 0), (1, 0)] = Inr [(1, 1), (1, 0)] \<and>
   bh_pop_push pair_less (1, 1) [(0, 0), (1, 0)] = Inr [(1, 0), (1, 1)] \<and>
   bh_top [(1, 1), (1, 0 :: int)] = Inr (1 :: int, 1) \<and>
   bh_top [(1, 0), (1, 1 :: int)] = Inr (1 :: int, 0) \<and>
   bh_drain pair_less 2 [(1, 1), (1, 0)] = Inr [(1, 1), (1, 0)] \<and>
   bh_drain pair_less 2 [(1, 0), (1, 1)] = Inr [(1, 0), (1, 1)] \<and>
   ih_invariant pair_less [(0, 0), (1, 0)] \<and>
   ih_replace_min pair_less (1, 1) [(0, 0), (1, 0)] = Inr [(1, 1), (1, 0)] \<and>
   ih_pop_min_push pair_less (1, 1) [(0, 0), (1, 0)] = Inr [(1, 0), (1, 1)] \<and>
   ih_drain pair_less [SMin, SMin] [(1, 1), (1, 0)] = Inr [(1, 1), (1, 0)] \<and>
   ih_drain pair_less [SMin, SMin] [(1, 0), (1, 1)] = Inr [(1, 0), (1, 1)] \<and>
   ih_invariant pair_less [(0, 0), (1, 0), (0, 2)] \<and>
   ih_replace_max pair_less (0, 1) [(0, 0), (1, 0), (0, 2)] = Inr [(0, 0), (0, 1), (0, 2)] \<and>
   ih_pop_max_push pair_less (0, 1) [(0, 0), (1, 0), (0, 2)] = Inr [(0, 0), (0, 2), (0, 1)] \<and>
   ih_drain pair_less [SMax, SMax, SMax] [(0, 0), (0, 1), (0, 2)] = Inr [(0, 1), (0, 2), (0, 0)] \<and>
   ih_drain pair_less [SMax, SMax, SMax] [(0, 0), (0, 2), (0, 1)] = Inr [(0, 2), (0, 1), (0, 0)]"
proof -
  have i: "bheap_inv pair_less [(0, 0), (1, 0)]" "ih_invariant pair_less [(0, 0), (1, 0)]"
    "ih_invariant pair_less [(0, 0), (1, 0), (0, 2)]"
    by (simp_all add: bheap_inv_upt ih_invariant_upt pair_less_def)
  have c: "bh_replace_top pair_less (1, 1) [(0, 0), (1, 0)] = Inr [(1, 1), (1, 0)]"
    "bh_pop_push pair_less (1, 1) [(0, 0), (1, 0)] = Inr [(1, 0), (1, 1)]"
    "bh_top [(1, 1), (1, 0 :: int)] = Inr (1 :: int, 1)"
    "bh_top [(1, 0), (1, 1 :: int)] = Inr (1 :: int, 0)"
    "bh_drain pair_less 2 [(1, 1), (1, 0)] = Inr [(1, 1), (1, 0)]"
    "bh_drain pair_less 2 [(1, 0), (1, 1)] = Inr [(1, 0), (1, 1)]"
    "ih_replace_min pair_less (1, 1) [(0, 0), (1, 0)] = Inr [(1, 1), (1, 0)]"
    "ih_pop_min_push pair_less (1, 1) [(0, 0), (1, 0)] = Inr [(1, 0), (1, 1)]"
    "ih_drain pair_less [SMin, SMin] [(1, 1), (1, 0)] = Inr [(1, 1), (1, 0)]"
    "ih_drain pair_less [SMin, SMin] [(1, 0), (1, 1)] = Inr [(1, 0), (1, 1)]"
    "ih_replace_max pair_less (0, 1) [(0, 0), (1, 0), (0, 2)] = Inr [(0, 0), (0, 1), (0, 2)]"
    "ih_pop_max_push pair_less (0, 1) [(0, 0), (1, 0), (0, 2)] = Inr [(0, 0), (0, 2), (0, 1)]"
    "ih_drain pair_less [SMax, SMax, SMax] [(0, 0), (0, 1), (0, 2)] = Inr [(0, 1), (0, 2), (0, 0)]"
    "ih_drain pair_less [SMax, SMax, SMax] [(0, 0), (0, 2), (0, 1)] = Inr [(0, 2), (0, 1), (0, 0)]"
    by code_simp+
  show ?thesis by (intro conjI) (rule swo_pair_less i c)+
qed

text \<open>
  Claim C10. For a strict weak order, the node a bubble-down helper starts at is ordered at
  every call: the callers with the precondition asserted before each call return what the
  callers of the source return. This holds for \<^verbatim>\<open>heapify\<close> on every sequence, for
  \<^verbatim>\<open>replace_min\<close> and \<^verbatim>\<open>replace_max\<close> on every non-empty sequence (the node was just
  balanced), and for \<^verbatim>\<open>pop_min\<close> and \<^verbatim>\<open>pop_max\<close> on every non-empty heap that satisfies
  the invariant. In particular, on such a heap of three or more elements, after the moves of
  \<^verbatim>\<open>pop_min\<close> and of \<^verbatim>\<open>pop_max\<close> the element in slot 1 is not less than the one in slot 0,
  without a fix-up.
\<close>

theorem bubble_down_preconditions:
  assumes s: "swo lt"
  shows
   "(\<exists>h. ih_heapify lt c = Inr h \<and> ih_heapify_checked lt c = Inr h) \<and>
    (d \<noteq> [] \<longrightarrow>
       (\<exists>h. ih_replace_min lt v d = Inr h \<and> ih_replace_min_checked lt v d = Inr h) \<and>
       (\<exists>h. ih_replace_max lt v d = Inr h \<and> ih_replace_max_checked lt v d = Inr h)) \<and>
    (ih_invariant lt d \<and> d \<noteq> [] \<longrightarrow>
       (\<exists>h. ih_pop_min lt d = Inr h \<and> ih_pop_min_checked lt d = Inr h) \<and>
       (\<exists>h. ih_pop_max lt d = Inr h \<and> ih_pop_max_checked lt d = Inr h)) \<and>
    (ih_invariant lt d \<and> 3 \<le> length d \<longrightarrow>
       (\<exists>e. ih_pop_min_move d = Inr e \<and> 2 \<le> length e \<and> \<not> lt (e ! 1) (e ! 0)) \<and>
       (\<exists>e. ih_pop_max_move d = Inr e \<and> 2 \<le> length e \<and> \<not> lt (e ! 1) (e ! 0)))"
proof (intro conjI impI)
  show "\<exists>h. ih_heapify lt c = Inr h \<and> ih_heapify_checked lt c = Inr h"
    using ih_heapify_total[of lt c] ih_heapify_checked_eq[OF s, of c] by auto
next
  assume "d \<noteq> []"
  then show "\<exists>h. ih_replace_min lt v d = Inr h \<and> ih_replace_min_checked lt v d = Inr h"
    using ih_replace_min_total[of d lt v] ih_replace_min_checked_eq[OF s, of v d] by auto
next
  assume "d \<noteq> []"
  then show "\<exists>h. ih_replace_max lt v d = Inr h \<and> ih_replace_max_checked lt v d = Inr h"
    using ih_replace_max_total[of d lt v] ih_replace_max_checked_eq[OF s, of v d] by auto
next
  assume a: "ih_invariant lt d \<and> d \<noteq> []"
  then have i: "iheap_inv lt d" using ih_invariant_iff[OF s] by simp
  show "\<exists>h. ih_pop_min lt d = Inr h \<and> ih_pop_min_checked lt d = Inr h"
    using ih_pop_min_total[of d lt] ih_pop_min_checked_eq[OF s i] a by auto
next
  assume a: "ih_invariant lt d \<and> d \<noteq> []"
  then have i: "iheap_inv lt d" using ih_invariant_iff[OF s] by simp
  show "\<exists>h. ih_pop_max lt d = Inr h \<and> ih_pop_max_checked lt d = Inr h"
    using ih_pop_max_total[of d lt] ih_pop_max_checked_eq[OF s i] a by auto
next
  assume a: "ih_invariant lt d \<and> 3 \<le> length d"
  then have i: "iheap_inv lt d" using ih_invariant_iff[OF s] by simp
  have n: "2 \<le> length d" "3 \<le> length d" using a by simp_all
  have "node_ok lt ROOT (pm_pre d)" using ih_pop_min_move_node_ok[OF s i n(1)] .
  then show "\<exists>e. ih_pop_min_move d = Inr e \<and> 2 \<le> length e \<and> \<not> lt (e ! 1) (e ! 0)"
    using ih_pop_min_move_ok[OF n(1)] n(2) by (simp add: node_ok_def)
next
  assume a: "ih_invariant lt d \<and> 3 \<le> length d"
  then have i: "iheap_inv lt d" using ih_invariant_iff[OF s] by simp
  have n: "2 \<le> length d" "3 \<le> length d" using a by simp_all
  have "node_ok lt ROOT (px_pre d)" using ih_pop_max_move_node_ok[OF s i n(2)] .
  then show "\<exists>e. ih_pop_max_move d = Inr e \<and> 2 \<le> length e \<and> \<not> lt (e ! 1) (e ! 0)"
    using ih_pop_max_move_ok[OF n(1)] n(2) by (simp add: node_ok_def)
qed

theorem bubble_down_preconditions_witness:
  "swo int_less \<and> ih_invariant int_less [1, 9, 3, 8, 2, 5] \<and> [1, 9, 3, 8, 2, 5 :: int] \<noteq> [] \<and>
   3 \<le> length [1, 9, 3, 8, 2, 5 :: int] \<and>
   (\<exists>h. ih_heapify int_less [5, 3, 8, 1, 9, 2] = Inr h \<and>
        ih_heapify_checked int_less [5, 3, 8, 1, 9, 2] = Inr h) \<and>
   (\<exists>h. ih_replace_min int_less 7 [1, 9, 3, 8, 2, 5] = Inr h \<and>
        ih_replace_min_checked int_less 7 [1, 9, 3, 8, 2, 5] = Inr h) \<and>
   (\<exists>h. ih_replace_max int_less 7 [1, 9, 3, 8, 2, 5] = Inr h \<and>
        ih_replace_max_checked int_less 7 [1, 9, 3, 8, 2, 5] = Inr h) \<and>
   (\<exists>h. ih_pop_min int_less [1, 9, 3, 8, 2, 5] = Inr h \<and>
        ih_pop_min_checked int_less [1, 9, 3, 8, 2, 5] = Inr h) \<and>
   (\<exists>h. ih_pop_max int_less [1, 9, 3, 8, 2, 5] = Inr h \<and>
        ih_pop_max_checked int_less [1, 9, 3, 8, 2, 5] = Inr h) \<and>
   (\<exists>e. ih_pop_min_move [1, 9, 3, 8, 2, 5 :: int] = Inr e \<and> 2 \<le> length e \<and>
        \<not> int_less (e ! 1) (e ! 0)) \<and>
   (\<exists>e. ih_pop_max_move [1, 9, 3, 8, 2, 5 :: int] = Inr e \<and> 2 \<le> length e \<and>
        \<not> int_less (e ! 1) (e ! 0))"
proof -
  have i: "ih_invariant int_less [1, 9, 3, 8, 2, 5]" by (simp add: ih_invariant_upt int_less_def)
  have n: "[1, 9, 3, 8, 2, 5 :: int] \<noteq> []" "3 \<le> length [1, 9, 3, 8, 2, 5 :: int]" by simp_all
  from bubble_down_preconditions[OF swo_int_less, of "[5, 3, 8, 1, 9, 2]" "[1, 9, 3, 8, 2, 5]" 7]
    i n swo_int_less
  show ?thesis by blast
qed

end
